(* ===== verification/Prelude.thy ===== *)
theory Prelude
  imports Main "HOL-Library.Sublist" "HOL-Library.Char_ord" "HOL-Library.List_Lexorder"
    "HOL-Library.AList"
begin

text \<open>
  Shared vocabulary: the types that name the program's data, the error values, and the operations of
  \<^verbatim>\<open>std::string\<close> and \<^verbatim>\<open>std::string_view\<close> that the sources call, with the facts about them
  that the component theories share.  A C++ string is a list of bytes, so \<open>string\<close> (a list of
  8-bit characters) is its exact counterpart; \<^verbatim>\<open>npos\<close> is \<open>None\<close>.
\<close>

named_theorems sv_simps \<open>evaluation and characterisation of the string view operations\<close>
named_theorems inv_intros \<open>operations that keep a component's invariant\<close>

subsection \<open>Characters and literals of the wire format\<close>

abbreviation cr :: char where "cr \<equiv> CHR 0x0D"
abbreviation lf :: char where "lf \<equiv> CHR 0x0A"
abbreviation crlf :: string where "crlf \<equiv> [cr, lf]"
abbreviation crlf2 :: string where "crlf2 \<equiv> [cr, lf, cr, lf]"

subsection \<open>std::string_view\<close>

text \<open>
  \<open>sv_find pat s\<close> is \<^verbatim>\<open>s.find(pat)\<close>: the least position where \<open>pat\<close> occurs.
\<close>

fun sv_find :: "string \<Rightarrow> string \<Rightarrow> nat option" where
  "sv_find pat [] = (if pat = [] then Some 0 else None)"
| "sv_find pat (c # s) =
     (if prefix pat (c # s) then Some 0 else map_option Suc (sv_find pat s))"

text \<open>
  \<open>sv_rfind_char c s\<close> is \<^verbatim>\<open>s.rfind(c)\<close>: the greatest position of \<open>c\<close>.
\<close>

fun sv_rfind_char :: "char \<Rightarrow> string \<Rightarrow> nat option" where
  "sv_rfind_char c [] = None"
| "sv_rfind_char c (d # s) =
     (case sv_rfind_char c s of
        Some i \<Rightarrow> Some (Suc i)
      | None \<Rightarrow> (if d = c then Some 0 else None))"

text \<open>
  \<open>sv_remove_prefix n s\<close> is \<^verbatim>\<open>s.remove_prefix(n)\<close> (its precondition \<open>n \<le> length s\<close> is
  shown at every call), \<open>sv_prefix n s\<close> is \<^verbatim>\<open>s.substr(0, n)\<close>, which never throws, and
  \<open>sv_ends_with\<close> is \<^verbatim>\<open>s.ends_with(suf)\<close>.
\<close>

definition sv_remove_prefix :: "nat \<Rightarrow> string \<Rightarrow> string" where
  "sv_remove_prefix n s = drop n s"

definition sv_prefix :: "nat \<Rightarrow> string \<Rightarrow> string" where
  "sv_prefix n s = take n s"

definition sv_ends_with :: "string \<Rightarrow> string \<Rightarrow> bool" where
  "sv_ends_with s suf = suffix suf s"

text \<open>
  \<open>str_from n s\<close> is \<^verbatim>\<open>s.substr(n)\<close>; it throws \<^verbatim>\<open>std::out_of_range\<close>, modelled as
  \<open>None\<close>, when \<open>n > s.size()\<close>.
\<close>

definition str_from :: "nat \<Rightarrow> string \<Rightarrow> string option" where
  "str_from n s = (if n \<le> length s then Some (drop n s) else None)"

lemmas [sv_simps] = sv_remove_prefix_def sv_prefix_def sv_ends_with_def str_from_def

subsection \<open>Where a search stops\<close>

lemma sv_find_Some:
  "sv_find pat s = Some i \<Longrightarrow> s = take i s @ pat @ drop (i + length pat) s \<and> i + length pat \<le> length s"
proof (induction pat s arbitrary: i rule: sv_find.induct)
  case (1 pat)
  then show ?case by (simp split: if_splits)
next
  case (2 pat c s)
  show ?case
  proof (cases "prefix pat (c # s)")
    case True
    then have "length pat \<le> length (c # s)" by (rule prefix_length_le)
    with 2 True show ?thesis by (auto simp: prefix_def)
  next
    case False
    with 2 obtain j where "sv_find pat s = Some j" and "i = Suc j" by auto
    with 2 False show ?thesis by auto
  qed
qed

lemma sv_find_least: "sv_find pat s = Some i \<Longrightarrow> j < i \<Longrightarrow> \<not> prefix pat (drop j s)"
proof (induction pat s arbitrary: i j rule: sv_find.induct)
  case (1 pat)
  then show ?case by (simp split: if_splits)
next
  case (2 pat c s)
  then show ?case by (cases j) (auto split: if_splits)
qed

lemma sv_find_bound: "sv_find pat s = Some i \<Longrightarrow> i + length pat \<le> length s"
  using sv_find_Some by blast

lemma sv_find_at_0: "sv_find pat s = Some 0 \<longleftrightarrow> prefix pat s"
  by (cases s) auto

lemma sv_find_occurrence: "sv_find pat (pre @ pat @ post) \<noteq> None"
proof (induction pre)
  case Nil
  have "sv_find pat (pat @ post) = Some 0" by (simp add: sv_find_at_0)
  then show ?case by simp
next
  case (Cons c pre)
  then show ?case by auto
qed

lemma sv_find_char_Some: "sv_find [c] s = Some i \<longleftrightarrow> i < length s \<and> s ! i = c \<and> c \<notin> set (take i s)"
proof (induction s arbitrary: i)
  case Nil
  then show ?case by simp
next
  case (Cons d s)
  then show ?case by (cases i) auto
qed

lemma sv_find_char_None: "sv_find [c] s = None \<longleftrightarrow> c \<notin> set s"
  by (induction s) auto

lemma sv_find_char_append: "c \<notin> set a \<Longrightarrow> sv_find [c] (a @ c # b) = Some (length a)"
  by (simp add: sv_find_char_Some)

lemma sv_rfind_char_Some:
  "sv_rfind_char c s = Some i \<Longrightarrow> i < length s \<and> s ! i = c \<and> c \<notin> set (drop (Suc i) s)"
proof (induction s arbitrary: i)
  case Nil
  then show ?case by simp
next
  case (Cons d s)
  have none: "sv_rfind_char c t = None \<Longrightarrow> c \<notin> set t" for t
    by (induction t) (auto split: option.splits if_splits)
  from Cons show ?case by (cases i) (auto split: option.splits if_splits dest: none)
qed

text \<open>
  A line without a line break in it, followed by one, is found as a whole.
\<close>

lemma sv_find_crlf_line:
  "sv_find crlf line = None \<Longrightarrow> sv_find crlf (line @ crlf @ rest) = Some (length line)"
proof (induction line)
  case Nil
  then show ?case by simp
next
  case (Cons c line)
  then have IH: "sv_find crlf (line @ crlf @ rest) = Some (length line)"
    and np: "\<not> prefix crlf (c # line)"
    by (auto split: if_splits)
  from np have "\<not> prefix crlf ((c # line) @ crlf @ rest)"
    by (cases line) auto
  with IH show ?case by simp
qed

lemma sv_find_crlf_take: "sv_find crlf s = Some i \<Longrightarrow> sv_find crlf (take i s) = None"
proof (induction s arbitrary: i)
  case Nil
  then show ?case by simp
next
  case (Cons c s)
  show ?case
  proof (cases i)
    case 0
    then show ?thesis by simp
  next
    case (Suc j)
    with Cons.prems have f: "sv_find crlf s = Some j" and np: "\<not> prefix crlf (c # s)"
      by (auto split: if_splits)
    from np have "\<not> prefix crlf (c # take j s)"
      by (cases s; cases j) auto
    with Cons.IH [OF f] Suc show ?thesis by simp
  qed
qed

lemma sv_find_sub_None: "sv_find pat (a @ u @ b) = None \<Longrightarrow> sv_find pat u = None"
proof (rule ccontr)
  assume n: "sv_find pat (a @ u @ b) = None" and "sv_find pat u \<noteq> None"
  then obtain i where "sv_find pat u = Some i" by auto
  then have "u = take i u @ pat @ drop (i + length pat) u"
    using sv_find_Some by blast
  then have "a @ u @ b = (a @ take i u) @ pat @ (drop (i + length pat) u @ b)"
    by (metis append.assoc)
  with n sv_find_occurrence show False by metis
qed

text \<open>No line break in two strings, and none across the joint.\<close>

lemma no_crlf_append:
  assumes "sv_find crlf a = None" and "sv_find crlf b = None" and "b = [] \<or> hd b \<noteq> lf"
  shows "sv_find crlf (a @ b) = None"
  using assms(1)
proof (induction a)
  case Nil
  with assms(2) show ?case by simp
next
  case (Cons c a)
  then have np: "\<not> prefix crlf (c # a)" and n: "sv_find crlf a = None"
    by (auto split: if_splits)
  from np assms(3) have "\<not> prefix crlf (c # a @ b)"
    by (cases a; cases b) auto
  with Cons.IH [OF n] show ?case by simp
qed

text \<open>The text around the first occurrence, as an equation that names the parts.\<close>

lemma sv_find_split:
  assumes "sv_find pat s = Some i"
  obtains a b where "s = a @ pat @ b" and "i = length a" and "sv_prefix i s = a"
    and "sv_remove_prefix (i + length pat) s = b"
proof (rule that)
  show "s = take i s @ pat @ drop (i + length pat) s" and "i = length (take i s)"
    using sv_find_Some [OF assms] by auto
qed (simp_all add: sv_simps)

subsection \<open>Lists and association lists\<close>

text \<open>\<^verbatim>\<open>std::unordered_map\<close> is an association list with one entry for each key.\<close>

lemma AList_update_new: "k \<notin> fst ` set al \<Longrightarrow> AList.update k v al = al @ [(k, v)]"
  by (induction al) auto

lemma set_AList_delete: "set (AList.delete k al) = {e \<in> set al. fst e \<noteq> k}"
  by (auto simp: AList.delete_eq)

lemma find_unique:
  assumes "v \<in> set vs" and "P v" and "\<And>u. u \<in> set vs \<Longrightarrow> P u \<Longrightarrow> u = v"
  shows "find P vs = Some v"
proof (cases "find P vs")
  case None
  with assms(1,2) show ?thesis by (auto simp: find_None_iff)
next
  case (Some u)
  then have "u \<in> set vs" "P u" by (auto simp: find_Some_iff)
  with assms(3) Some show ?thesis by simp
qed

lemma distinct_key:
  "distinct (map f xs) \<Longrightarrow> x \<in> set xs \<Longrightarrow> y \<in> set xs \<Longrightarrow> f x = f y \<Longrightarrow> x = y"
  by (auto simp: distinct_map dest: inj_onD)

subsection \<open>Results: errors as values\<close>

fun is_ok :: "'e + 'a \<Rightarrow> bool" where
  "is_ok (Inl _) = False"
| "is_ok (Inr _) = True"

lemma is_ok_Inr: "is_ok r \<longleftrightarrow> (\<exists>v. r = Inr v)"
  by (cases r) auto

text \<open>\<^verbatim>\<open>expected::and_then\<close>.\<close>

fun and_then :: "'e + 'a \<Rightarrow> ('a \<Rightarrow> 'e + 'b) \<Rightarrow> 'e + 'b" where
  "and_then (Inl e) f = Inl e"
| "and_then (Inr v) f = f v"

lemma and_then_Inr: "and_then r f = Inr v \<longleftrightarrow> (\<exists>w. r = Inr w \<and> f w = Inr v)"
  by (cases r) auto

subsection \<open>Decimal numerals, as std::format and std::to_string print them\<close>

definition digit_char :: "nat \<Rightarrow> char" where
  "digit_char d = char_of (48 + d)"

fun show_nat :: "nat \<Rightarrow> string" where
  "show_nat n = (if n < 10 then [digit_char n] else show_nat (n div 10) @ [digit_char (n mod 10)])"

declare show_nat.simps [simp del]

fun read_digits :: "nat \<Rightarrow> string \<Rightarrow> nat" where
  "read_digits acc [] = acc"
| "read_digits acc (c # s) = read_digits (10 * acc + (of_char c - 48)) s"

lemma digit_char_value: "d < 10 \<Longrightarrow> of_char (digit_char d) = 48 + d"
  by (simp add: digit_char_def)

lemma read_digits_append: "read_digits acc (s @ t) = read_digits (read_digits acc s) t"
  by (induction s arbitrary: acc) auto

lemma read_show_nat: "read_digits 0 (show_nat n) = n"
proof (induction n rule: show_nat.induct)
  case (1 n)
  then show ?case
    by (subst show_nat.simps) (auto simp: read_digits_append digit_char_value)
qed

lemma show_nat_range: "c \<in> set (show_nat n) \<Longrightarrow> 48 \<le> (of_char c :: nat) \<and> (of_char c :: nat) < 58"
proof (induction n rule: show_nat.induct)
  case (1 n)
  have "c \<in> set (if n < 10 then [digit_char n] else show_nat (n div 10) @ [digit_char (n mod 10)])"
    using "1.prems" by (subst (asm) show_nat.simps)
  then show ?case
    using "1.IH" by (auto simp: digit_char_value split: if_splits)
qed

end
