(* ===== verification/Errors.thy ===== *)
theory Errors
  imports Prelude
begin

text \<open>
  The program's error values (\<^verbatim>\<open>include/http/Http.hpp\<close>, \<^verbatim>\<open>include/http/Socket.hpp\<close>,
  \<^verbatim>\<open>include/async/Uring.hpp\<close>, \<^verbatim>\<open>include/utils/ErrorHandle.hpp\<close>).  A
  \<^verbatim>\<open>std::error_code\<close> is a number with its category, and two codes are equal only if both
  agree: an \<^verbatim>\<open>errno\<close> under the generic category is not the same code as the same
  \<^verbatim>\<open>errno\<close> under the system category.
\<close>

subsection \<open>std::error_code\<close>

datatype category = GenericCategory | SystemCategory | HttpCategory | SocketCategory | UringCategory

datatype error_code = ErrorCode (ec_value: int) (ec_category: category)

text \<open>
  The numbers of the \<^verbatim>\<open>std::errc\<close> constants the sources compare with (Linux).
\<close>

definition EPERM :: int where "EPERM = 1"
definition EAGAIN :: int where "EAGAIN = 11"
definition EWOULDBLOCK :: int where "EWOULDBLOCK = 11"
definition ENFILE :: int where "ENFILE = 23"
definition EMFILE :: int where "EMFILE = 24"
definition ENODATA :: int where "ENODATA = 61"
definition ECONNRESET :: int where "ECONNRESET = 104"
definition ECANCELED :: int where "ECANCELED = 125"

lemmas errno_defs = EPERM_def EAGAIN_def EWOULDBLOCK_def ENFILE_def EMFILE_def ENODATA_def
  ECONNRESET_def ECANCELED_def

text \<open>\<^verbatim>\<open>std::make_error_code(std::errc)\<close> uses the generic category.\<close>

definition generic_error :: "int \<Rightarrow> error_code" where
  "generic_error e = ErrorCode e GenericCategory"

definition system_error_code :: "int \<Rightarrow> error_code" where
  "system_error_code e = ErrorCode e SystemCategory"

lemma generic_is_not_system: "generic_error a \<noteq> system_error_code b"
  by (simp add: generic_error_def system_error_code_def)

subsection \<open>enum class httpErrc\<close>

datatype httpErrc =
    OK | BAD_REQUEST | NOT_FOUND | LENTH_REQUIRED | INTERNAL_SERVER_ERROR
  | NOT_IMPLEMENTED | HTTP_VERSION_NOT_SUPPORTED | UNCOMPLETED_REQUEST

fun httpErrc_value :: "httpErrc \<Rightarrow> int" where
  "httpErrc_value OK = 200"
| "httpErrc_value BAD_REQUEST = 400"
| "httpErrc_value NOT_FOUND = 404"
| "httpErrc_value LENTH_REQUIRED = 411"
| "httpErrc_value INTERNAL_SERVER_ERROR = 500"
| "httpErrc_value NOT_IMPLEMENTED = 501"
| "httpErrc_value HTTP_VERSION_NOT_SUPPORTED = 505"
| "httpErrc_value UNCOMPLETED_REQUEST = 600"

lemma httpErrc_value_inj: "httpErrc_value a = httpErrc_value b \<longleftrightarrow> a = b"
  by (cases a; cases b) simp_all

text \<open>The scoped enumeration is ordered by its values.\<close>

instantiation httpErrc :: linorder
begin

definition less_eq_httpErrc :: "httpErrc \<Rightarrow> httpErrc \<Rightarrow> bool" where
  "less_eq_httpErrc a b = (httpErrc_value a \<le> httpErrc_value b)"

definition less_httpErrc :: "httpErrc \<Rightarrow> httpErrc \<Rightarrow> bool" where
  "less_httpErrc a b = (httpErrc_value a < httpErrc_value b)"

instance
  by standard (auto simp: less_eq_httpErrc_def less_httpErrc_def httpErrc_value_inj)

end

fun httpErrc_of_value :: "int \<Rightarrow> httpErrc option" where
  "httpErrc_of_value v =
     (if v = 200 then Some OK else if v = 400 then Some BAD_REQUEST
      else if v = 404 then Some NOT_FOUND else if v = 411 then Some LENTH_REQUIRED
      else if v = 500 then Some INTERNAL_SERVER_ERROR else if v = 501 then Some NOT_IMPLEMENTED
      else if v = 505 then Some HTTP_VERSION_NOT_SUPPORTED
      else if v = 600 then Some UNCOMPLETED_REQUEST else None)"

lemma httpErrc_of_value_value [simp]: "httpErrc_of_value (httpErrc_value c) = Some c"
  by (cases c) simp_all

definition http_error :: "httpErrc \<Rightarrow> error_code" where
  "http_error e = ErrorCode (httpErrc_value e) HttpCategory"

text \<open>\<^verbatim>\<open>httpErrorCategory::message\<close>, which switches over the number cast back to the enum.\<close>

definition http_message :: "int \<Rightarrow> string" where
  "http_message c =
     (case httpErrc_of_value c of
        Some OK \<Rightarrow> ''OK''
      | Some BAD_REQUEST \<Rightarrow> ''Bad Request''
      | Some NOT_FOUND \<Rightarrow> ''Not Found''
      | Some LENTH_REQUIRED \<Rightarrow> ''Length Required''
      | Some INTERNAL_SERVER_ERROR \<Rightarrow> ''Internal Server Error''
      | Some NOT_IMPLEMENTED \<Rightarrow> ''Not Implemented''
      | Some HTTP_VERSION_NOT_SUPPORTED \<Rightarrow> ''HTTP Version Not Supported''
      | Some UNCOMPLETED_REQUEST \<Rightarrow> ''Uncompleted Request''
      | None \<Rightarrow> ''Unknown error'')"

subsection \<open>enum class socketError and enum class uringErr\<close>

datatype socketError =
  SockSuccess | ReadError | WriteError | RecvError | SendError | EofError | ClosedSocket

fun socketError_value :: "socketError \<Rightarrow> int" where
  "socketError_value SockSuccess = 0"
| "socketError_value ReadError = 1"
| "socketError_value WriteError = 2"
| "socketError_value RecvError = 3"
| "socketError_value SendError = 4"
| "socketError_value EofError = 5"
| "socketError_value ClosedSocket = 6"

definition socket_error :: "socketError \<Rightarrow> error_code" where
  "socket_error e = ErrorCode (socketError_value e) SocketCategory"

definition socket_message :: "int \<Rightarrow> string" where
  "socket_message c =
     (if c = 0 then ''Success'' else if c = 1 then ''Read error''
      else if c = 2 then ''Write error'' else if c = 3 then ''Recv error''
      else if c = 4 then ''Send error'' else if c = 5 then ''EOF'' else ''Unknown error'')"

datatype uringErr = UringSuccess | SqeBusy

fun uringErr_value :: "uringErr \<Rightarrow> int" where
  "uringErr_value UringSuccess = 0"
| "uringErr_value SqeBusy = 1"

definition uring_error :: "uringErr \<Rightarrow> error_code" where
  "uring_error e = ErrorCode (uringErr_value e) UringCategory"

definition uring_message :: "int \<Rightarrow> string" where
  "uring_message c =
     (if c = 0 then ''success'' else if c = 1 then ''sqe is busy'' else ''unknown'')"

lemmas error_defs = generic_error_def system_error_code_def http_error_def socket_error_def
  uring_error_def

lemma http_error_inj [simp]: "http_error a = http_error b \<longleftrightarrow> a = b"
  by (simp add: http_error_def httpErrc_value_inj)

lemma socket_error_inj [simp]: "socket_error a = socket_error b \<longleftrightarrow> a = b"
  by (cases a; cases b) (simp_all add: socket_error_def)

lemma error_categories_differ [simp]:
  "generic_error a \<noteq> http_error b" "http_error b \<noteq> generic_error a"
  "generic_error a \<noteq> socket_error c" "socket_error c \<noteq> generic_error a"
  "generic_error a \<noteq> uring_error d" "uring_error d \<noteq> generic_error a"
  "http_error b \<noteq> socket_error c" "socket_error c \<noteq> http_error b"
  "http_error b \<noteq> uring_error d" "uring_error d \<noteq> http_error b"
  "socket_error c \<noteq> uring_error d" "uring_error d \<noteq> socket_error c"
  by (simp_all add: error_defs)

subsection \<open>Exceptions\<close>

datatype exc =
    SystemError error_code
  | RuntimeError string
  | InvalidArgument string
  | OutOfRange
  | FilesystemError int
  | BufferRunOut
  | BadExpectedAccess

text \<open>
  How a call ends: it returns a value, it throws, or the code has run into undefined behaviour (the
  \<^verbatim>\<open>back()\<close> of an empty list, an end iterator that is dereferenced).
\<close>

datatype 'a outcome = Returns 'a | Throws exc | Undefined

fun outcome_bind :: "'a outcome \<Rightarrow> ('a \<Rightarrow> 'b outcome) \<Rightarrow> 'b outcome" where
  "outcome_bind (Returns v) f = f v"
| "outcome_bind (Throws e) f = Throws e"
| "outcome_bind Undefined f = Undefined"

lemma outcome_bind_Returns:
  "outcome_bind x f = Returns y \<longleftrightarrow> (\<exists>v. x = Returns v \<and> f v = Returns y)"
  by (cases x) simp_all

subsection \<open>checkError and throwUnexpected\<close>

text \<open>
  A system call gives a result and leaves \<^verbatim>\<open>errno\<close>; \<open>checkError\<close> reads \<^verbatim>\<open>errno\<close>
  only when the result is negative, and puts it under the generic category.
\<close>

record sysret =
  ret :: int
  errno :: int

definition checkError :: "sysret \<Rightarrow> error_code + int" where
  "checkError r = (if ret r < 0 then Inl (generic_error (errno r)) else Inr (ret r))"

text \<open>\<^verbatim>\<open>.or_else(throwUnexpected)\<close>.\<close>

definition or_throw :: "error_code + 'a \<Rightarrow> exc + 'a" where
  "or_throw r = (case r of Inl e \<Rightarrow> Inl (SystemError e) | Inr v \<Rightarrow> Inr v)"

lemma checkError_Inr: "checkError r = Inr v \<longleftrightarrow> ret r = v \<and> 0 \<le> v"
  by (auto simp: checkError_def)

lemma checkError_Inl: "checkError r = Inl e \<longleftrightarrow> ret r < 0 \<and> e = generic_error (errno r)"
  by (auto simp: checkError_def)

end
