(* ===== verification/FsPath.thy ===== *)
theory FsPath
  imports Prelude
begin

text \<open>
  \<^verbatim>\<open>std::filesystem::path\<close> on POSIX, as far as the sources use it: the path is its native
  string, and the queries are functions of that string.  \<open>path_iter\<close> is the sequence the
  iterators of a path run over, \<open>pieces\<close> its nonempty file names, \<open>filename\<close>, \<open>extension\<close>,
  \<open>relative_path\<close> and \<open>path_append\<close> the members of the same name (\<^verbatim>\<open>operator/\<close> and
  \<^verbatim>\<open>operator/=\<close>).  \<open>lex_resolve\<close> is the meaning of a path: the directory names left after
  \<open>.\<close> and \<open>..\<close> are carried out.
\<close>

type_synonym path = string

abbreviation slash :: char where "slash \<equiv> CHR ''/''"
abbreviation dotdot :: string where "dotdot \<equiv> ''..''"

fun split_slash :: "string \<Rightarrow> string list" where
  "split_slash [] = [[]]"
| "split_slash (c # s) =
     (if c = slash then [] # split_slash s
      else (case split_slash s of [] \<Rightarrow> [[c]] | p # ps \<Rightarrow> (c # p) # ps))"

definition pieces :: "path \<Rightarrow> string list" where
  "pieces s = filter (\<lambda>p. p \<noteq> []) (split_slash s)"

definition is_absolute :: "path \<Rightarrow> bool" where
  "is_absolute s \<longleftrightarrow> prefix [slash] s"

definition path_iter :: "path \<Rightarrow> string list" where
  "path_iter s =
     (if is_absolute s then [[slash]] else []) @ pieces s
     @ (if pieces s \<noteq> [] \<and> sv_ends_with s [slash] then [[]] else [])"

text \<open>
  \<^verbatim>\<open>operator==\<close> compares element by element, so repeated separators make no difference; the hash goes with
  it.
\<close>

definition path_key :: "path \<Rightarrow> string list" where
  "path_key s = path_iter s"

definition filename :: "path \<Rightarrow> string" where
  "filename s = last (split_slash s)"

definition name_extension :: "string \<Rightarrow> string" where
  "name_extension n =
     (if n = ''.'' \<or> n = dotdot then []
      else case sv_rfind_char (CHR ''.'') n of
             None \<Rightarrow> [] | Some i \<Rightarrow> (if i = 0 then [] else drop i n))"

definition extension :: "path \<Rightarrow> string" where
  "extension s = name_extension (filename s)"

definition has_extension :: "path \<Rightarrow> bool" where
  "has_extension s \<longleftrightarrow> extension s \<noteq> []"

definition relative_path :: "path \<Rightarrow> path" where
  "relative_path s = dropWhile (\<lambda>c. c = slash) s"

definition path_append :: "path \<Rightarrow> path \<Rightarrow> path" where
  "path_append p q =
     (if is_absolute q then q
      else if filename p \<noteq> [] then p @ slash # q else p @ q)"

text \<open>Carrying out the names of a path from the root directory.\<close>

definition lex_step :: "string list \<Rightarrow> string \<Rightarrow> string list" where
  "lex_step ds n = (if n = ''.'' then ds else if n = dotdot then butlast ds else ds @ [n])"

definition lex_resolve :: "path \<Rightarrow> string list" where
  "lex_resolve s = foldl lex_step [] (pieces s)"

subsection \<open>Splitting at separators\<close>

lemma split_slash_nonempty [simp]: "split_slash s \<noteq> []"
  by (induction s) (auto split: list.splits)

lemma split_slash_append:
  "split_slash (a @ b) =
     butlast (split_slash a) @ (last (split_slash a) @ hd (split_slash b)) # tl (split_slash b)"
proof (induction a)
  case Nil
  then show ?case by simp
next
  case (Cons c a)
  obtain p ps where a: "split_slash a = p # ps" by (cases "split_slash a") auto
  show ?case
    using Cons by (cases ps) (auto simp: a split: list.splits)
qed

lemma split_slash_sep: "split_slash (a @ slash # b) = split_slash a @ split_slash b"
  by (simp add: split_slash_append append_butlast_last_id [OF split_slash_nonempty])

lemma split_slash_no_slash: "p \<in> set (split_slash s) \<Longrightarrow> slash \<notin> set p"
  by (induction s arbitrary: p) (auto split: if_splits list.splits)

lemma pieces_sep: "pieces (a @ slash # b) = pieces a @ pieces b"
  by (simp add: pieces_def split_slash_sep)

lemma pieces_Nil [simp]: "pieces [] = []"
  by (simp add: pieces_def)

lemma pieces_Cons_slash [simp]: "pieces (slash # s) = pieces s"
  by (simp add: pieces_def)

lemma pieces_relative_path: "pieces (relative_path s) = pieces s"
  by (induction s) (auto simp: relative_path_def)

lemma relative_path_not_absolute: "\<not> is_absolute (relative_path s)"
  by (induction s) (auto simp: relative_path_def is_absolute_def)

text \<open>The last component is the file name; the others are complete names.\<close>

lemma pieces_append_set:
  "set (pieces a) \<subseteq> insert (filename a) (set (pieces (a @ b)))"
proof
  fix p assume "p \<in> set (pieces a)"
  then have p: "p \<in> set (split_slash a)" "p \<noteq> []" by (auto simp: pieces_def)
  have "split_slash a = butlast (split_slash a) @ [filename a]"
    by (simp add: filename_def)
  with p(1) have "p \<in> set (butlast (split_slash a)) \<or> p = filename a"
    by (metis Un_iff empty_iff empty_set insert_iff list.simps(15) set_append)
  with p(2) show "p \<in> insert (filename a) (set (pieces (a @ b)))"
    by (auto simp: pieces_def split_slash_append)
qed

lemma filename_Nil_append: "filename p = [] \<Longrightarrow> pieces (p @ q) = pieces p @ pieces q"
proof -
  assume f: "filename p = []"
  have p: "split_slash p = butlast (split_slash p) @ [[]]"
    using f by (metis append_butlast_last_id filename_def split_slash_nonempty)
  have "split_slash (p @ q) = butlast (split_slash p) @ split_slash q"
    using f by (simp add: split_slash_append filename_def)
  moreover have "pieces p = filter (\<lambda>x. x \<noteq> []) (butlast (split_slash p))"
    by (subst pieces_def, subst p) simp
  ultimately show ?thesis by (simp add: pieces_def)
qed

lemma pieces_path_append:
  "\<not> is_absolute q \<Longrightarrow> pieces (path_append p q) = pieces p @ pieces q"
  by (simp add: path_append_def pieces_sep filename_Nil_append)

lemma path_iter_pieces: "n \<noteq> [] \<Longrightarrow> n \<noteq> [slash] \<Longrightarrow> n \<in> set (path_iter s) \<longleftrightarrow> n \<in> set (pieces s)"
  by (auto simp: path_iter_def)

lemma dotdot_has_no_extension: "filename s = dotdot \<Longrightarrow> extension s = []"
  by (simp add: extension_def name_extension_def)

lemma extension_nonempty_filename: "extension s \<noteq> [] \<Longrightarrow> filename s \<noteq> []"
  by (auto simp: extension_def name_extension_def split: option.splits if_splits)

lemma filename_pieces: "filename s \<noteq> [] \<Longrightarrow> pieces s \<noteq> [] \<and> last (pieces s) = filename s"
proof -
  assume f: "filename s \<noteq> []"
  have "split_slash s = butlast (split_slash s) @ [filename s]"
    by (simp add: filename_def)
  then have "pieces s = filter (\<lambda>p. p \<noteq> []) (butlast (split_slash s) @ [filename s])"
    unfolding pieces_def by (rule arg_cong)
  then show ?thesis using f by simp
qed

lemma extension_dot: "extension s \<noteq> [] \<Longrightarrow> hd (extension s) = CHR ''.''"
  by (auto simp: extension_def name_extension_def hd_drop_conv_nth
        dest: sv_rfind_char_Some split: option.splits if_splits)

subsection \<open>Paths that stay below a directory\<close>

lemma foldl_lex_step_below:
  "dotdot \<notin> set ns \<Longrightarrow> prefix ds (foldl lex_step ds ns)"
proof (induction ns arbitrary: ds)
  case Nil
  then show ?case by simp
next
  case (Cons n ns)
  have "prefix ds (lex_step ds n)"
    using Cons.prems by (auto simp: lex_step_def)
  moreover have "prefix (lex_step ds n) (foldl lex_step (lex_step ds n) ns)"
    using Cons.prems by (intro Cons.IH) simp
  ultimately show ?case by (auto intro: prefix_order.trans)
qed

lemma lex_resolve_below:
  assumes "pieces t = pieces root @ ns" and "dotdot \<notin> set ns"
  shows "prefix (lex_resolve root) (lex_resolve t)"
  using assms by (simp add: lex_resolve_def foldl_lex_step_below)

end
