(* ===== verification/HeaderMap.thy ===== *)
theory HeaderMap
  imports Prelude
begin

text \<open>
  \<^verbatim>\<open>std::map\<close>, which the messages keep their header fields in: an association list with
  strictly ascending keys, which is also the order \<^verbatim>\<open>serialize\<close> iterates in.  The locales
  state what the parser, the response and the request reader rely on; the interpretations at the end show that
  the ascending list has it.
\<close>

type_synonym ('k, 'v) omap = "('k \<times> 'v) list"

fun map_emplace :: "'k::linorder \<Rightarrow> 'v \<Rightarrow> ('k, 'v) omap \<Rightarrow> ('k, 'v) omap" where
  "map_emplace k v [] = [(k, v)]"
| "map_emplace k v ((k', v') # m) =
     (if k = k' then (k', v') # m
      else if k < k' then (k, v) # (k', v') # m
      else (k', v') # map_emplace k v m)"

fun map_assign :: "'k::linorder \<Rightarrow> 'v \<Rightarrow> ('k, 'v) omap \<Rightarrow> ('k, 'v) omap" where
  "map_assign k v [] = [(k, v)]"
| "map_assign k v ((k', v') # m) =
     (if k = k' then (k, v) # m
      else if k < k' then (k, v) # (k', v') # m
      else (k', v') # map_assign k v m)"

definition map_lookup :: "('k, 'v) omap \<Rightarrow> 'k \<Rightarrow> 'v option" where
  "map_lookup m k = map_of m k"

definition map_contains :: "('k, 'v) omap \<Rightarrow> 'k \<Rightarrow> bool" where
  "map_contains m k \<longleftrightarrow> map_lookup m k \<noteq> None"

definition omap_inv :: "('k::linorder, 'v) omap \<Rightarrow> bool" where
  "omap_inv m \<longleftrightarrow> sorted_wrt (<) (map fst m)"

definition map_erase :: "'k \<Rightarrow> ('k, 'v) omap \<Rightarrow> ('k, 'v) omap" where
  "map_erase k m = filter (\<lambda>(k', v). k' \<noteq> k) m"

text \<open>
  What a client of a table relies on.  The common part: \<^verbatim>\<open>emplace\<close> keeps an entry that is
  there and touches no other key.  A header map can also assign through \<^verbatim>\<open>operator[]\<close>; a
  table of buffers can also erase.
\<close>

locale emplace_base =
  fixes emplace :: "'k \<Rightarrow> 'v \<Rightarrow> 'm \<Rightarrow> 'm"
    and lookup :: "'m \<Rightarrow> 'k \<Rightarrow> 'v option"
    and invar :: "'m \<Rightarrow> bool"
  assumes lookup_emplace:
      "invar m \<Longrightarrow> lookup (emplace k v m) k' =
         (if k' = k \<and> lookup m k = None then Some v else lookup m k')"
    and invar_emplace: "invar m \<Longrightarrow> invar (emplace k v m)"
begin

lemma invar_emplace_all: "invar m \<Longrightarrow> invar (foldl (\<lambda>m (k, v). emplace k v m) m kvs)"
  by (induction kvs arbitrary: m) (auto simp: invar_emplace)

text \<open>Emplacing a list of entries: the first entry of a key wins.\<close>

lemma lookup_emplace_all:
  "invar m \<Longrightarrow> lookup (foldl (\<lambda>m (k, v). emplace k v m) m kvs) k =
     (case lookup m k of Some v \<Rightarrow> Some v | None \<Rightarrow> map_of kvs k)"
proof (induction kvs arbitrary: m)
  case Nil
  then show ?case by (simp split: option.splits)
next
  case (Cons kv kvs)
  then show ?case
    by (auto simp: invar_emplace lookup_emplace split: option.splits prod.splits)
qed

end

locale emplace_map = emplace_base emplace lookup invar
  for emplace :: "'k \<Rightarrow> 'v \<Rightarrow> 'm \<Rightarrow> 'm" and lookup :: "'m \<Rightarrow> 'k \<Rightarrow> 'v option" and invar :: "'m \<Rightarrow> bool" +
  fixes assign :: "'k \<Rightarrow> 'v \<Rightarrow> 'm \<Rightarrow> 'm"
  assumes lookup_assign:
      "invar m \<Longrightarrow> lookup (assign k v m) k' = (if k' = k then Some v else lookup m k')"
    and invar_assign: "invar m \<Longrightarrow> invar (assign k v m)"

locale erasable_map = emplace_base emplace lookup invar
  for emplace :: "'k \<Rightarrow> 'v \<Rightarrow> 'm \<Rightarrow> 'm" and lookup :: "'m \<Rightarrow> 'k \<Rightarrow> 'v option" and invar :: "'m \<Rightarrow> bool" +
  fixes erase :: "'k \<Rightarrow> 'm \<Rightarrow> 'm"
  assumes lookup_erase:
      "invar m \<Longrightarrow> lookup (erase k m) k' = (if k' = k then None else lookup m k')"
    and invar_erase: "invar m \<Longrightarrow> invar (erase k m)"
begin

text \<open>An entry that is erased can be given a new value.\<close>

lemma lookup_erase_emplace: "invar m \<Longrightarrow> lookup (emplace k v (erase k m)) k = Some v"
  by (simp add: lookup_emplace lookup_erase invar_erase)

end

subsection \<open>The ascending list is such a map\<close>

lemma emplace_keys: "set (map fst (map_emplace k v m)) = insert k (set (map fst m))"
  by (induction k v m rule: map_emplace.induct) auto

lemma assign_keys: "set (map fst (map_assign k v m)) = insert k (set (map fst m))"
  by (induction k v m rule: map_assign.induct) auto

lemma omap_inv_Cons [simp]:
  "omap_inv ((k, v) # m) \<longleftrightarrow> (\<forall>x \<in> set (map fst m). k < x) \<and> omap_inv m"
  by (auto simp: omap_inv_def)

lemma omap_inv_Nil [simp]: "omap_inv []"
  by (simp add: omap_inv_def)

lemma omap_inv_emplace: "omap_inv m \<Longrightarrow> omap_inv (map_emplace k v m)"
  by (induction k v m rule: map_emplace.induct) (auto simp: emplace_keys simp del: set_map)

lemma omap_inv_assign: "omap_inv m \<Longrightarrow> omap_inv (map_assign k v m)"
  by (induction k v m rule: map_assign.induct) (auto simp: assign_keys simp del: set_map)

lemma lookup_above:
  fixes k :: "'k::linorder"
  shows "\<forall>x \<in> set (map fst m). k < x \<Longrightarrow> map_lookup m k = None"
  by (induction m) (auto simp: map_lookup_def)

lemma map_lookup_emplace:
  "omap_inv m \<Longrightarrow> map_lookup (map_emplace k v m) k' =
     (if k' = k \<and> map_lookup m k = None then Some v else map_lookup m k')"
proof (induction k v m rule: map_emplace.induct)
  case (2 k v l w m)
  then have "k < l \<Longrightarrow> map_lookup ((l, w) # m) k = None"
    by (intro lookup_above) auto
  with 2 show ?case by (auto simp: map_lookup_def)
qed (auto simp: map_lookup_def)

lemma map_lookup_assign:
  "omap_inv m \<Longrightarrow> map_lookup (map_assign k v m) k' = (if k' = k then Some v else map_lookup m k')"
  by (induction k v m rule: map_assign.induct) (auto simp: map_lookup_def)

lemma map_lookup_erase: "map_lookup (map_erase k m) k' = (if k' = k then None else map_lookup m k')"
  by (induction m) (auto simp: map_lookup_def map_erase_def)

lemma omap_inv_erase: "omap_inv m \<Longrightarrow> omap_inv (map_erase k m)"
  by (induction m) (auto simp: map_erase_def)

interpretation hm: emplace_map map_emplace map_lookup omap_inv map_assign
  by unfold_locales
    (auto simp: map_lookup_emplace map_lookup_assign omap_inv_emplace omap_inv_assign)

interpretation em: erasable_map map_emplace map_lookup omap_inv map_erase
  by unfold_locales (auto simp: map_lookup_erase omap_inv_erase)

end
