(* ===== verification/HttpParse.thy ===== *)
theory HttpParse
  imports Errors FsPath HeaderMap
begin

text \<open>
  HTTP messages and the request parser (\<^verbatim>\<open>include/http/Http.hpp\<close>,
  \<^verbatim>\<open>src/http/Http.cpp\<close>).  The parser works on a \<^verbatim>\<open>string_view\<close> that it shortens from
  the front and on the request object that it fills in, so each function returns the result, the
  request as it is left (on an error too) and the rest of the view.

  The grammar the parser accepts is stated beside it: \<open>request_line\<close>, \<open>valid_header\<close> and
  \<open>render_headers\<close>.  The lemmas show both directions, so the parser accepts exactly that grammar
  and reads the fields back.
\<close>

subsection \<open>Messages\<close>

datatype http_method = GET | HEAD

type_synonym httpHeaders = "(string, string) omap"

record httpMessage =
  req_method :: http_method
  version :: string
  headers :: httpHeaders
  status :: httpErrc

record httpRequest = httpMessage +
  uri :: path
  completed :: bool

definition new_httpRequest :: httpRequest where
  "new_httpRequest =
     \<lparr>req_method = HEAD, version = ''HTTP/1.1'', headers = [], status = OK, uri = [], completed = False\<rparr>"

definition methodStrings :: "(string \<times> http_method) list" where
  "methodStrings = [(''GET'', GET), (''HEAD'', HEAD)]"

definition checkMethod :: "string \<Rightarrow> bool" where
  "checkMethod m \<longleftrightarrow> map_of methodStrings m \<noteq> None"

definition checkVersion :: "string \<Rightarrow> bool" where
  "checkVersion v \<longleftrightarrow> v = ''HTTP/1.1''"

definition validRequestHeaders :: "string list" where
  "validRequestHeaders =
     [''Accept'', ''Accept-Encoding'', ''Connection'', ''Host'',
      ''User-Agent'', ''Content-Encoding'', ''Content-Type'', ''Content-Length'']"

definition checkHeader :: "string \<Rightarrow> bool" where
  "checkHeader h \<longleftrightarrow> h \<in> set validRequestHeaders"

subsection \<open>The parser\<close>

text \<open>The common exit of the parser: the status is set and the same code is returned.\<close>

definition parse_fail :: "httpRequest \<Rightarrow> string \<Rightarrow> (error_code + unit) \<times> httpRequest \<times> string" where
  "parse_fail rq view = (Inl (http_error BAD_REQUEST), rq\<lparr>status := BAD_REQUEST\<rparr>, view)"

definition parseFirstLine ::
  "httpRequest \<Rightarrow> string \<Rightarrow> (error_code + unit) \<times> httpRequest \<times> string" where
  "parseFirstLine rq0 request0 =
     (let rq = rq0\<lparr>status := OK\<rparr> in
      case sv_find crlf request0 of
        None \<Rightarrow> parse_fail rq request0
      | Some pos \<Rightarrow>
          let requestLine = sv_prefix pos request0;
              request = sv_remove_prefix (pos + 2) request0
          in case sv_find '' '' requestLine of
               None \<Rightarrow> parse_fail rq request
             | Some mpos \<Rightarrow>
                 let meth = sv_prefix mpos requestLine in
                 if \<not> checkMethod meth then parse_fail rq request
                 else
                   let requestLine = sv_remove_prefix (mpos + 1) requestLine in
                   case sv_find '' '' requestLine of
                     None \<Rightarrow> parse_fail rq request
                   | Some upos \<Rightarrow>
                       let u = sv_prefix upos requestLine;
                           ver = sv_remove_prefix (upos + 1) requestLine
                       in if \<not> checkVersion ver then parse_fail rq request
                          else (Inr (),
                                rq\<lparr>req_method := the (map_of methodStrings meth), uri := u,
                                   version := ver\<rparr>,
                                request))"

function parseHeaders ::
  "httpRequest \<Rightarrow> string \<Rightarrow> (error_code + unit) \<times> httpRequest \<times> string" where
  "parseHeaders rq request =
     (case sv_find crlf request of
        None \<Rightarrow> parse_fail rq request
      | Some pos \<Rightarrow>
          if pos = 0 then (Inr (), rq, request)
          else
            let headerLine = sv_prefix pos request;
                request' = sv_remove_prefix (pos + 2) request
            in case sv_find '':'' headerLine of
                 None \<Rightarrow> parse_fail rq request'
               | Some cpos \<Rightarrow>
                   if cpos = 0 then parse_fail rq request'
                   else
                     let key = sv_prefix cpos headerLine;
                         val = sv_remove_prefix (cpos + 1) headerLine
                     in if val = [] then parse_fail rq request'
                        else parseHeaders (rq\<lparr>headers := map_emplace key val (headers rq)\<rparr>) request')"
  by pat_completeness auto
termination
  by (relation "measure (\<lambda>(rq, request). length request)")
    (auto simp: sv_remove_prefix_def dest: sv_find_bound)

declare parseHeaders.simps [simp del]

definition parseResquest :: "httpRequest \<Rightarrow> string \<Rightarrow> (error_code + unit) \<times> httpRequest" where
  "parseResquest rq0 requestMsg =
     (case parseFirstLine rq0 requestMsg of
        (Inl e, rq, _) \<Rightarrow> (Inl e, rq)
      | (Inr _, rq, request) \<Rightarrow>
          (case parseHeaders rq request of
             (Inl e, rq, _) \<Rightarrow> (Inl e, rq)
           | (Inr _, rq, _) \<Rightarrow>
               if map_contains (headers rq) ''Connection''
                  \<and> map_lookup (headers rq) ''Connection'' = Some ''close''
               then (Inl (socket_error EofError), rq)
               else (Inr (), rq)))"

subsection \<open>The grammar\<close>

fun method_name :: "http_method \<Rightarrow> string" where
  "method_name GET = ''GET''"
| "method_name HEAD = ''HEAD''"

definition request_line :: "http_method \<Rightarrow> string \<Rightarrow> string" where
  "request_line m u = method_name m @ '' '' @ u @ '' HTTP/1.1''"

text \<open>A request target: no space and no line break in it.\<close>

definition valid_target :: "string \<Rightarrow> bool" where
  "valid_target u \<longleftrightarrow> CHR '' '' \<notin> set u \<and> sv_find crlf u = None"

fun header_line :: "string \<times> string \<Rightarrow> string" where
  "header_line (k, v) = k @ '':'' @ v"

fun valid_header :: "string \<times> string \<Rightarrow> bool" where
  "valid_header (k, v) \<longleftrightarrow>
     k \<noteq> [] \<and> v \<noteq> [] \<and> CHR '':'' \<notin> set k \<and> sv_find crlf (header_line (k, v)) = None"

definition render_headers :: "(string \<times> string) list \<Rightarrow> string" where
  "render_headers hs = concat (map (\<lambda>h. header_line h @ crlf) hs)"

definition emplace_headers :: "(string \<times> string) list \<Rightarrow> httpHeaders \<Rightarrow> httpHeaders" where
  "emplace_headers hs m = foldl (\<lambda>m (k, v). map_emplace k v m) m hs"

subsection \<open>The request line\<close>

lemma checkMethod_iff: "checkMethod s \<longleftrightarrow> (\<exists>m. s = method_name m)"
proof
  assume "checkMethod s"
  then have "s = method_name GET \<or> s = method_name HEAD"
    by (auto simp: checkMethod_def methodStrings_def split: if_splits)
  then show "\<exists>m. s = method_name m" by blast
next
  assume "\<exists>m. s = method_name m"
  then obtain m where "s = method_name m" by blast
  then show "checkMethod s" by (cases m) (simp_all add: checkMethod_def methodStrings_def)
qed

lemma methodStrings_name [simp]: "map_of methodStrings (method_name m) = Some m"
  by (cases m) (simp_all add: methodStrings_def)

lemma method_name_no_space: "CHR '' '' \<notin> set (method_name m)"
  by (cases m) simp_all

lemma request_line_no_crlf:
  assumes "valid_target u"
  shows "sv_find crlf (request_line m u) = None"
proof -
  have v: "sv_find crlf '' HTTP/1.1'' = None" and m: "sv_find crlf (method_name m) = None"
    by (simp, cases m) simp_all
  have "sv_find crlf u = None" using assms by (simp add: valid_target_def)
  from no_crlf_append [OF this v] have "sv_find crlf ('' '' @ u @ '' HTTP/1.1'') = None" by simp
  from no_crlf_append [OF m this] show ?thesis by (simp add: request_line_def)
qed

text \<open>The part of \<open>parseFirstLine\<close> that looks at the line alone.\<close>

definition parse_line :: "string \<Rightarrow> (http_method \<times> string) option" where
  "parse_line l =
     (case sv_find '' '' l of
        None \<Rightarrow> None
      | Some i \<Rightarrow>
          if \<not> checkMethod (take i l) then None
          else case sv_find '' '' (drop (i + 1) l) of
                 None \<Rightarrow> None
               | Some j \<Rightarrow>
                   if \<not> checkVersion (drop (j + 1) (drop (i + 1) l)) then None
                   else Some (the (map_of methodStrings (take i l)), take j (drop (i + 1) l)))"

lemma parseFirstLine_eq:
  "parseFirstLine rq s =
     (case sv_find crlf s of
        None \<Rightarrow> parse_fail (rq\<lparr>status := OK\<rparr>) s
      | Some pos \<Rightarrow>
          case parse_line (take pos s) of
            None \<Rightarrow> parse_fail (rq\<lparr>status := OK\<rparr>) (drop (pos + 2) s)
          | Some (m, u) \<Rightarrow>
              (Inr (), rq\<lparr>status := OK, req_method := m, uri := u, version := ''HTTP/1.1''\<rparr>,
               drop (pos + 2) s))"
  by (auto simp: parseFirstLine_def parse_line_def Let_def sv_simps checkVersion_def
      split: option.splits)

lemma parse_line_request_line:
  assumes "CHR '' '' \<notin> set u"
  shows "parse_line (request_line m u) = Some (m, u)"
proof -
  have "sv_find '' '' (request_line m u) = Some (length (method_name m))"
    using sv_find_char_append [OF method_name_no_space] by (simp add: request_line_def)
  moreover have "sv_find '' '' (u @ '' HTTP/1.1'') = Some (length u)"
    using sv_find_char_append [OF assms] by simp
  moreover have "checkMethod (method_name m)" using checkMethod_iff by blast
  ultimately show ?thesis
    by (simp add: parse_line_def) (simp add: request_line_def checkVersion_def)
qed

lemma parse_line_Some:
  assumes "parse_line l = Some (m, u)"
  shows "l = request_line m u \<and> CHR '' '' \<notin> set u"
proof -
  from assms obtain i where i: "sv_find '' '' l = Some i" "checkMethod (take i l)"
    by (auto simp: parse_line_def split: option.splits if_splits)
  define r where "r = drop (i + 1) l"
  from assms i obtain j where j: "sv_find '' '' r = Some j" "drop (j + 1) r = ''HTTP/1.1''"
      "m = the (map_of methodStrings (take i l))" "u = take j r"
    by (auto simp: parse_line_def checkVersion_def r_def split: option.splits if_splits)
  obtain m' where m': "take i l = method_name m'" using i(2) checkMethod_iff by blast
  have "l = take i l @ '' '' @ r" using sv_find_Some [OF i(1)] by (simp add: r_def)
  moreover have "r = u @ '' '' @ drop (j + 1) r" using sv_find_Some [OF j(1)] j(4) by simp
  moreover have "CHR '' '' \<notin> set u" using j(1,4) by (simp add: sv_find_char_Some)
  moreover have "m = m'" using m' j(3) by simp
  ultimately show ?thesis using m' j(2) by (simp add: request_line_def)
qed

lemma parseFirstLine_complete:
  assumes "valid_target u"
  shows "parseFirstLine rq (request_line m u @ crlf @ rest) =
    (Inr (), rq\<lparr>status := OK, req_method := m, uri := u, version := ''HTTP/1.1''\<rparr>, rest)"
proof -
  let ?l = "request_line m u"
  have nl: "sv_find crlf (?l @ crlf @ rest) = Some (length ?l)"
    using request_line_no_crlf [OF assms] by (rule sv_find_crlf_line)
  have "parse_line ?l = Some (m, u)"
    using assms by (intro parse_line_request_line) (simp add: valid_target_def)
  then show ?thesis unfolding parseFirstLine_eq nl by simp
qed

lemma parseFirstLine_sound:
  assumes "parseFirstLine rq s = (Inr x, rq', rest)"
  shows "\<exists>m u. valid_target u \<and> s = request_line m u @ crlf @ rest \<and>
    rq' = rq\<lparr>status := OK, req_method := m, uri := u, version := ''HTTP/1.1''\<rparr>"
proof -
  from assms obtain pos m u where pos: "sv_find crlf s = Some pos"
    and pl: "parse_line (take pos s) = Some (m, u)"
    and res: "rq' = rq\<lparr>status := OK, req_method := m, uri := u, version := ''HTTP/1.1''\<rparr>"
      "rest = drop (pos + 2) s"
    by (auto simp: parseFirstLine_eq parse_fail_def split: option.splits)
  have l: "take pos s = request_line m u" "CHR '' '' \<notin> set u" using parse_line_Some [OF pl] by auto
  have "sv_find crlf (request_line m u) = None"
    using sv_find_crlf_take [OF pos] l(1) by simp
  then have "sv_find crlf u = None"
    using sv_find_sub_None [of crlf "method_name m @ '' ''" u] by (simp add: request_line_def)
  with l(2) have "valid_target u" by (simp add: valid_target_def)
  moreover have "s = request_line m u @ crlf @ rest"
    using sv_find_Some [OF pos] l(1) res(2) by simp
  ultimately show ?thesis using res(1) by blast
qed

lemma parseFirstLine_error:
  "parseFirstLine rq s = (Inl e, rq', rest) \<Longrightarrow> e = http_error BAD_REQUEST \<and> rq' = rq\<lparr>status := BAD_REQUEST\<rparr>"
  by (auto simp: parseFirstLine_eq parse_fail_def split: option.splits)

subsection \<open>The header fields\<close>

lemma render_headers_simps [simp]:
  "render_headers [] = []"
  "render_headers (h # hs) = header_line h @ crlf @ render_headers hs"
  by (simp_all add: render_headers_def)

lemma emplace_headers_simps [simp]:
  "emplace_headers [] m = m"
  "emplace_headers ((k, v) # hs) m = emplace_headers hs (map_emplace k v m)"
  by (simp_all add: emplace_headers_def)

text \<open>One turn of the loop: the empty line ends it, a well-formed line is consumed.\<close>

lemma parseHeaders_end [simp]: "parseHeaders rq (cr # lf # body) = (Inr (), rq, crlf @ body)"
  by (subst parseHeaders.simps) simp

lemma parseHeaders_line:
  assumes "valid_header (k, v)"
  shows "parseHeaders rq (header_line (k, v) @ crlf @ rest) =
    parseHeaders (rq\<lparr>headers := map_emplace k v (headers rq)\<rparr>) rest"
proof -
  let ?l = "header_line (k, v)"
  have nl: "sv_find crlf (?l @ crlf @ rest) = Some (length ?l)"
    using assms by (intro sv_find_crlf_line) simp
  have sp: "sv_find '':'' ?l = Some (length k)"
    using assms sv_find_char_append [of "CHR '':''" k v] by simp
  show ?thesis
    using assms nl sp
    by (subst parseHeaders.simps) (simp add: sv_simps numeral_3_eq_3)
qed

lemma parseHeaders_complete:
  "list_all valid_header hs \<Longrightarrow>
     parseHeaders rq (render_headers hs @ crlf @ body) =
       (Inr (), rq\<lparr>headers := emplace_headers hs (headers rq)\<rparr>, crlf @ body)"
proof (induction hs arbitrary: rq)
  case Nil
  then show ?case using parseHeaders_end by simp
next
  case (Cons h hs)
  obtain k v where h: "h = (k, v)" by (cases h)
  with Cons.prems have "valid_header (k, v)" by simp
  from parseHeaders_line [OF this] Cons show ?case by (simp add: h)
qed

text \<open>What a turn that goes on has read.\<close>

lemma parseHeaders_turn:
  assumes "sv_find crlf s = Some pos" and "pos \<noteq> 0"
    and "sv_find '':'' (take pos s) = Some c" and "c \<noteq> 0" and "drop (c + 1) (take pos s) \<noteq> []"
  defines "k \<equiv> take c (take pos s)" and "v \<equiv> drop (c + 1) (take pos s)"
  shows "valid_header (k, v) \<and> s = header_line (k, v) @ crlf @ drop (pos + 2) s"
proof -
  have l: "take pos s = header_line (k, v)"
    using sv_find_Some [OF assms(3)] by (simp add: k_def v_def del: take_take)
  have "CHR '':'' \<notin> set k" using assms(3) by (simp add: sv_find_char_Some k_def del: take_take)
  moreover have "k \<noteq> []" using assms(3,4) by (auto simp: sv_find_char_Some k_def)
  moreover have "sv_find crlf (header_line (k, v)) = None"
    using sv_find_crlf_take [OF assms(1)] l by simp
  ultimately have "valid_header (k, v)" using assms(5) by (simp add: v_def)
  moreover have "s = take pos s @ crlf @ drop (pos + 2) s"
    using sv_find_Some [OF assms(1)] by simp
  ultimately show ?thesis using l by simp
qed

lemma parseHeaders_sound:
  "parseHeaders rq s = (Inr x, rq', rest) \<Longrightarrow>
     \<exists>hs body. list_all valid_header hs \<and> s = render_headers hs @ crlf @ body \<and>
       rest = crlf @ body \<and> rq' = rq\<lparr>headers := emplace_headers hs (headers rq)\<rparr>"
proof (induction rq s arbitrary: rq' rest rule: parseHeaders.induct)
  case (1 rq s)
  from "1.prems" obtain pos where pos: "sv_find crlf s = Some pos"
    by (subst (asm) parseHeaders.simps) (auto simp: parse_fail_def split: option.splits)
  show ?case
  proof (cases "pos = 0")
    case True
    then obtain body where "s = crlf @ body" using pos sv_find_Some by force
    with "1.prems" show ?thesis by (intro exI [of _ "[]"] exI [of _ body]) simp
  next
    case False
    with "1.prems" pos obtain c where c: "sv_find '':'' (take pos s) = Some c" "c \<noteq> 0"
        "drop (c + 1) (take pos s) \<noteq> []"
      by (subst (asm) parseHeaders.simps)
        (auto simp: parse_fail_def sv_simps Let_def split: option.splits if_splits)
    define k v where kv: "k = take c (take pos s)" "v = drop (c + 1) (take pos s)"
    note turn = parseHeaders_turn [OF pos False c, folded kv]
    let ?rq = "rq\<lparr>headers := map_emplace k v (headers rq)\<rparr>"
    have "parseHeaders ?rq (drop (pos + 2) s) = (Inr x, rq', rest)"
      using "1.prems" parseHeaders_line [of k v rq "drop (pos + 2) s"] turn by metis
    from "1.IH" [OF pos False refl refl, unfolded sv_simps, OF c(1,2) refl refl c(3), folded kv, OF this]
    obtain hs body where hs: "list_all valid_header hs"
      "drop (pos + 2) s = render_headers hs @ crlf @ body" "rest = crlf @ body"
      "rq' = ?rq\<lparr>headers := emplace_headers hs (headers ?rq)\<rparr>"
      by blast
    with turn show ?thesis by (intro exI [of _ "(k, v) # hs"] exI [of _ body]) auto
  qed
qed

text \<open>One turn of the loop: it fails, ends, or goes on with a shorter view.\<close>

lemma parseHeaders_turns:
  obtains v where "parseHeaders rq s = parse_fail rq v"
  | "parseHeaders rq s = (Inr (), rq, s)"
  | m t where "parseHeaders rq s = parseHeaders (rq\<lparr>headers := m\<rparr>) t" and "length t < length s"
proof (cases "sv_find crlf s")
  case None
  then have "parseHeaders rq s = parse_fail rq s" by (subst parseHeaders.simps) simp
  then show thesis by (rule that(1))
next
  case (Some pos)
  then have shorter: "length (drop (pos + 2) s) < length s" using sv_find_bound by fastforce
  have "(\<exists>v. parseHeaders rq s = parse_fail rq v) \<or> parseHeaders rq s = (Inr (), rq, s) \<or>
    (\<exists>m. parseHeaders rq s = parseHeaders (rq\<lparr>headers := m\<rparr>) (drop (pos + 2) s))"
    by (subst (1 2 3) parseHeaders.simps) (auto simp: Some Let_def sv_simps split: option.split)
  with shorter that show thesis by blast
qed

lemma parseHeaders_error:
  "parseHeaders rq s = (Inl e, rq', rest) \<Longrightarrow> e = http_error BAD_REQUEST \<and> status rq' = BAD_REQUEST"
proof (induction s arbitrary: rq rule: length_induct)
  case (1 s)
  show ?case
  proof (cases rule: parseHeaders_turns [of rq s])
    case (1 v)
    with "1.prems" show ?thesis by (auto simp: parse_fail_def)
  next
    case 2
    with "1.prems" show ?thesis by simp
  next
    case (3 m t)
    with "1.prems" "1.IH" show ?thesis by metis
  qed
qed

lemma emplace_headers_inv: "omap_inv m \<Longrightarrow> omap_inv (emplace_headers hs m)"
  by (simp add: emplace_headers_def hm.invar_emplace_all)

text \<open>Fields keep the first value given for them.\<close>

lemma lookup_emplace_headers: "map_lookup (emplace_headers hs []) k = map_of hs k"
  using hm.lookup_emplace_all [of "[]" hs k] by (simp add: emplace_headers_def map_lookup_def)

subsection \<open>The request message\<close>

definition render_request :: "http_method \<Rightarrow> string \<Rightarrow> (string \<times> string) list \<Rightarrow> string \<Rightarrow> string" where
  "render_request m u hs body = request_line m u @ crlf @ render_headers hs @ crlf @ body"

definition parsed_request ::
  "httpRequest \<Rightarrow> http_method \<Rightarrow> string \<Rightarrow> (string \<times> string) list \<Rightarrow> httpRequest" where
  "parsed_request rq m u hs =
     rq\<lparr>status := OK, req_method := m, uri := u, version := ''HTTP/1.1'',
        headers := emplace_headers hs (headers rq)\<rparr>"

definition wants_close :: "httpRequest \<Rightarrow> bool" where
  "wants_close rq \<longleftrightarrow> map_lookup (headers rq) ''Connection'' = Some ''close''"

lemma parseResquest_render:
  assumes "valid_target u" and "list_all valid_header hs"
  shows "parseResquest rq (render_request m u hs body) =
    (if wants_close (parsed_request rq m u hs)
     then (Inl (socket_error EofError), parsed_request rq m u hs)
     else (Inr (), parsed_request rq m u hs))"
  using parseFirstLine_complete [OF assms(1)] parseHeaders_complete [OF assms(2)]
  by (simp add: parseResquest_def render_request_def parsed_request_def wants_close_def
      map_contains_def)

text \<open>Whatever the parser does not reject is a message of the grammar.\<close>

lemma parseResquest_grammar:
  assumes "parseResquest rq s = (r, rq')" and "r \<noteq> Inl (http_error BAD_REQUEST)"
  shows "\<exists>m u hs body. valid_target u \<and> list_all valid_header hs \<and> s = render_request m u hs body \<and>
    rq' = parsed_request rq m u hs"
proof -
  obtain r1 rq1 s1 where p1: "parseFirstLine rq s = (r1, rq1, s1)" by (metis prod.exhaust)
  with assms obtain x where x: "r1 = Inr x"
    by (cases r1) (auto simp: parseResquest_def dest: parseFirstLine_error)
  obtain r2 rq2 s2 where p2: "parseHeaders rq1 s1 = (r2, rq2, s2)" by (metis prod.exhaust)
  with assms p1 x obtain y where y: "r2 = Inr y"
    by (cases r2) (auto simp: parseResquest_def dest: parseHeaders_error)
  have "rq' = rq2"
    using assms(1) p1 p2 x y by (auto simp: parseResquest_def split: if_splits)
  moreover obtain m u where "valid_target u" "s = request_line m u @ crlf @ s1"
    "rq1 = rq\<lparr>status := OK, req_method := m, uri := u, version := ''HTTP/1.1''\<rparr>"
    using parseFirstLine_sound p1 x by blast
  moreover obtain hs body where "list_all valid_header hs" "s1 = render_headers hs @ crlf @ body"
    "rq2 = rq1\<lparr>headers := emplace_headers hs (headers rq1)\<rparr>"
    using parseHeaders_sound p2 y by blast
  ultimately show ?thesis
    by (intro exI [of _ m] exI [of _ u] exI [of _ hs] exI [of _ body])
      (simp add: render_request_def parsed_request_def)
qed

lemma parseResquest_rejected_status:
  "parseResquest rq s = (Inl (http_error BAD_REQUEST), rq') \<Longrightarrow> status rq' = BAD_REQUEST"
  by (auto simp: parseResquest_def dest: parseFirstLine_error parseHeaders_error
      split: prod.splits sum.splits if_splits)

lemma parseResquest_results:
  "parseResquest rq s = (r, rq') \<Longrightarrow>
     r = Inr () \<or> r = Inl (http_error BAD_REQUEST) \<or> r = Inl (socket_error EofError)"
  by (auto simp: parseResquest_def dest: parseFirstLine_error parseHeaders_error
      split: prod.splits sum.splits if_splits)

subsection \<open>Properties\<close>

text \<open>
  C12: the parser accepts exactly the request grammar and reads it back.  A message is parsed without
  an error if and only if it is a request line with method GET or HEAD and version HTTP/1.1, header
  fields with a nonempty name and a nonempty value, and an empty line, followed by anything; the
  request then holds exactly the method, target and fields of that message, and the client did not
  ask for the connection to be closed.
\<close>

theorem parser_accepts_iff:
  "parseResquest rq s = (Inr (), rq') \<longleftrightarrow>
     (\<exists>m u hs body. valid_target u \<and> list_all valid_header hs \<and> s = render_request m u hs body \<and>
        rq' = parsed_request rq m u hs \<and> \<not> wants_close rq')"
proof
  assume p: "parseResquest rq s = (Inr (), rq')"
  then obtain m u hs body where g: "valid_target u" "list_all valid_header hs"
      "s = render_request m u hs body" "rq' = parsed_request rq m u hs"
    using parseResquest_grammar by blast
  with p parseResquest_render [OF g(1,2), of rq m body] have "\<not> wants_close rq'"
    by (auto split: if_splits)
  with g show "\<exists>m u hs body. valid_target u \<and> list_all valid_header hs \<and>
      s = render_request m u hs body \<and> rq' = parsed_request rq m u hs \<and> \<not> wants_close rq'"
    by blast
next
  assume "\<exists>m u hs body. valid_target u \<and> list_all valid_header hs \<and> s = render_request m u hs body \<and>
    rq' = parsed_request rq m u hs \<and> \<not> wants_close rq'"
  then show "parseResquest rq s = (Inr (), rq')" using parseResquest_render by auto
qed

text \<open>
  C37: round trip of the fields.  Parsing a rendered request into a fresh object gives back the method
  and the target, and for every field name the first value the message gives for it.
\<close>

theorem parse_reads_fields_back:
  assumes "valid_target u" and "list_all valid_header hs"
  shows "let rq = snd (parseResquest new_httpRequest (render_request m u hs body)) in
    req_method rq = m \<and> uri rq = u \<and> status rq = OK \<and> omap_inv (headers rq) \<and>
    (\<forall>k. map_lookup (headers rq) k = map_of hs k)"
  using parseResquest_render [OF assms, of new_httpRequest m body] lookup_emplace_headers [of hs]
  by (simp add: parsed_request_def new_httpRequest_def emplace_headers_inv)

theorem parse_reads_fields_back_witness:
  "map_lookup (headers (snd (parseResquest new_httpRequest
     (render_request GET ''/x.html'' [(''Host'', '' a:80''), (''Accept'', ''*/*''), (''Host'', ''b'')] ''rest''))))
     ''Host'' = Some '' a:80''"
proof -
  let ?hs = "[(''Host'', '' a:80''), (''Accept'', ''*/*''), (''Host'', ''b'')]"
  have "valid_target ''/x.html''" "list_all valid_header ?hs" by (simp_all add: valid_target_def)
  from parse_reads_fields_back [OF this, of GET "''rest''"] show ?thesis by (simp add: Let_def)
qed

text \<open>
  The result and the status agree.  The parser ends with the status BAD_REQUEST exactly when it
  returns that error, and otherwise, also for a client that asks to close, with OK; these are all the
  errors there are.
\<close>

lemma parse_status:
  "status (snd (parseResquest rq s)) =
     (if fst (parseResquest rq s) = Inl (http_error BAD_REQUEST) then BAD_REQUEST else OK) \<and>
   fst (parseResquest rq s) \<in> {Inr (), Inl (http_error BAD_REQUEST), Inl (socket_error EofError)}"
proof -
  obtain r rq' where p: "parseResquest rq s = (r, rq')" by fastforce
  show ?thesis
  proof (cases "r = Inl (http_error BAD_REQUEST)")
    case True
    with p show ?thesis by (simp add: parseResquest_rejected_status)
  next
    case False
    then obtain m u hs where "rq' = parsed_request rq m u hs"
      using parseResquest_grammar [OF p] by blast
    with p False parseResquest_results [OF p] show ?thesis by (auto simp: parsed_request_def)
  qed
qed

text \<open>
  A field value keeps the space after the colon, so the usual form
  \<^verbatim>\<open>Connection: close\<close> is not recognised: every well-formed request whose first
  \<open>Connection\<close> value starts with a space is accepted as one that keeps the connection.
\<close>

lemma spaced_close_not_recognised:
  assumes "valid_target u" and "list_all valid_header hs"
    and "map_of hs ''Connection'' = Some (CHR '' '' # v)"
  shows "fst (parseResquest new_httpRequest (render_request m u hs body)) = Inr ()"
proof -
  have "map_lookup (emplace_headers hs []) ''Connection'' = Some (CHR '' '' # v)"
    using assms(3) by (simp add: lookup_emplace_headers)
  then have "\<not> wants_close (parsed_request new_httpRequest m u hs)"
    by (simp add: wants_close_def parsed_request_def new_httpRequest_def)
  with parseResquest_render [OF assms(1,2)] show ?thesis by simp
qed

end
