(* ===== verification/HttpResponse.thy ===== *)
theory HttpResponse
  imports HttpParse
begin

text \<open>
  The response (\<^verbatim>\<open>httpResponse\<close> in \<^verbatim>\<open>include/http/Http.hpp\<close> and
  \<^verbatim>\<open>src/http/Http.cpp\<close>): its constructor, which maps the request target to a file below the
  web root, and its serialisation.  The constructor may throw
  (\<^verbatim>\<open>std::string::substr\<close>), so it returns an exception or the response.
\<close>

record httpResponse = httpMessage +
  resp_uri :: path

definition new_httpResponse :: httpResponse where
  "new_httpResponse =
     \<lparr>req_method = HEAD, version = ''HTTP/1.1'', headers = [], status = OK, resp_uri = []\<rparr>"

definition extensionMap :: "(string \<times> string) list" where
  "extensionMap =
     [(''html'', ''text/html''), (''txt'', ''text/plain''), (''jpeg'', ''image/jpeg''),
      (''jpg'', ''image/jpeg''), (''png'', ''image/png''), (''gif'', ''image/gif''),
      (''json'', ''application/json''), (''xml'', ''application/xml''),
      (''bin'', ''application/octet-stream''), (''css'', ''text/css''),
      (''js'', ''application/javascript''), (''webp'', ''image/webp''), (''ico'', ''image/x-icon''),
      (''svg'', ''image/svg+xml''), (''pdf'', ''application/pdf''), (''zip'', ''application/zip''),
      (''woff'', ''application/font-woff''), (''woff2'', ''application/font-woff2''),
      (''pf_meta'', ''application/octet-stream'')]"

definition MIMEfulltype :: "string \<Rightarrow> string" where
  "MIMEfulltype ext =
     (case map_of extensionMap ext of None \<Rightarrow> ''application/octet-stream'' | Some t \<Rightarrow> t)"

text \<open>\<^verbatim>\<open>s.substr(0, s.find(c))\<close>: with \<^verbatim>\<open>npos\<close> the whole string.\<close>

definition upto_char :: "char \<Rightarrow> string \<Rightarrow> string" where
  "upto_char c s = (case sv_find [c] s of None \<Rightarrow> s | Some i \<Rightarrow> sv_prefix i s)"

definition MIMEWildcardType :: "string \<Rightarrow> string" where
  "MIMEWildcardType full = upto_char slash full @ ''/*''"

text \<open>
  The condition under which the constructor refuses a client.  A position is converted to a truth
  value, so \<^verbatim>\<open>!s.find(p)\<close> holds when \<open>p\<close> is found at position 0.
\<close>

definition accept_refuses :: "string \<Rightarrow> string \<Rightarrow> bool" where
  "accept_refuses accepted full \<longleftrightarrow>
     sv_find ''*/*'' accepted = Some 0 \<and> sv_find (MIMEWildcardType full) accepted = Some 0
     \<and> sv_find full accepted = Some 0"

text \<open>The target after \<^verbatim>\<open>index.html\<close> has been added, and without its query.\<close>

definition with_index :: "path \<Rightarrow> path" where
  "with_index u = (if sv_ends_with u [slash] then path_append u ''index.html'' else u)"

definition without_args :: "path \<Rightarrow> path" where
  "without_args u = upto_char (CHR ''?'') u"

definition httpResponse_ctor :: "httpRequest \<Rightarrow> path \<Rightarrow> exc + httpResponse" where
  "httpResponse_ctor request webRoot =
     (if status request \<noteq> OK then Inr (new_httpResponse\<lparr>status := status request\<rparr>)
      else
        let r = new_httpResponse\<lparr>version := version request, status := status request,
                  req_method := req_method request, resp_uri := uri request\<rparr>
        in if dotdot \<in> set (path_iter (resp_uri r)) then Inr (r\<lparr>status := NOT_FOUND\<rparr>)
           else
             let requestHeaders = headers request;
                 r = r\<lparr>resp_uri := with_index (resp_uri r)\<rparr>
             in if \<not> has_extension (resp_uri r) then Inr (r\<lparr>status := NOT_FOUND\<rparr>)
                else
                  let r = r\<lparr>resp_uri := without_args (resp_uri r)\<rparr>
                  in case str_from 1 (extension (resp_uri r)) of
                       None \<Rightarrow> Inl OutOfRange
                     | Some ext \<Rightarrow>
                         let full = MIMEfulltype ext in
                         case map_lookup requestHeaders ''Accept'' of
                           None \<Rightarrow> Inr (r\<lparr>status := BAD_REQUEST\<rparr>)
                         | Some accepted \<Rightarrow>
                             if accept_refuses accepted full then Inr (r\<lparr>status := NOT_FOUND\<rparr>)
                             else
                               Inr (r\<lparr>resp_uri := path_append webRoot (relative_path (resp_uri r)),
                                      headers :=
                                        map_emplace ''Catch-Control'' ''no-cache''
                                          (map_emplace ''Content-Type'' full (headers r))\<rparr>))"

subsection \<open>Serialisation\<close>

definition notFoundResponse :: string where
  "notFoundResponse = ''HTTP/1.1 404 Not Found'' @ crlf @ ''Content-Length: 0'' @ crlf @ crlf"

definition badRequestResponse :: string where
  "badRequestResponse = ''HTTP/1.1 400 Bad Request'' @ crlf @ ''Content-Length: 0'' @ crlf @ crlf"

definition notImplementedResponse :: string where
  "notImplementedResponse =
     ''HTTP/1.1 501 Not Implemented'' @ crlf @ ''Content-Length: 0'' @ crlf @ crlf"

definition status_line :: "httpResponse \<Rightarrow> string" where
  "status_line r =
     version r @ '' '' @ show_nat (nat (httpErrc_value (status r))) @ '' ''
     @ http_message (httpErrc_value (status r)) @ crlf"

definition response_fields :: "httpHeaders \<Rightarrow> string" where
  "response_fields m = concat (map (\<lambda>(k, v). k @ '': '' @ v @ crlf) m)"

definition serialize :: "httpResponse \<Rightarrow> string" where
  "serialize r =
     (case status r of
        NOT_FOUND \<Rightarrow> notFoundResponse
      | NOT_IMPLEMENTED \<Rightarrow> notImplementedResponse
      | INTERNAL_SERVER_ERROR \<Rightarrow> badRequestResponse
      | HTTP_VERSION_NOT_SUPPORTED \<Rightarrow> badRequestResponse
      | LENTH_REQUIRED \<Rightarrow> badRequestResponse
      | BAD_REQUEST \<Rightarrow> badRequestResponse
      | OK \<Rightarrow> status_line r @ response_fields (headers r) @ crlf
      | UNCOMPLETED_REQUEST \<Rightarrow> status_line r @ response_fields (headers r) @ crlf)"

subsection \<open>The branches of the constructor\<close>

text \<open>The target whose extension and file name decide the response.\<close>

abbreviation target :: "path \<Rightarrow> path" where
  "target u \<equiv> without_args (with_index u)"

lemma map_lookup_Cons: "map_lookup ((k, v) # m) k' = (if k' = k then Some v else map_lookup m k')"
  by (simp add: map_lookup_def)

lemma ctor_not_ok:
  "status rq \<noteq> OK \<Longrightarrow> httpResponse_ctor rq root = Inr (new_httpResponse\<lparr>status := status rq\<rparr>)"
  by (simp add: httpResponse_ctor_def)

lemma ctor_dotdot:
  "status rq = OK \<Longrightarrow> dotdot \<in> set (path_iter (uri rq)) \<Longrightarrow>
     \<exists>r. httpResponse_ctor rq root = Inr r \<and> status r = NOT_FOUND"
  by (simp add: httpResponse_ctor_def)

lemma ctor_no_extension:
  "status rq = OK \<Longrightarrow> \<not> has_extension (with_index (uri rq)) \<Longrightarrow>
     \<exists>r. httpResponse_ctor rq root = Inr r \<and> status r = NOT_FOUND"
  by (simp add: httpResponse_ctor_def Let_def)

lemma MIMEfulltype_no_star: "hd (MIMEfulltype ext) \<noteq> CHR ''*'' \<and> MIMEfulltype ext \<noteq> []"
proof (cases "map_of extensionMap ext")
  case None
  then show ?thesis by (simp add: MIMEfulltype_def)
next
  case (Some t)
  have "\<forall>(e, t) \<in> set extensionMap. hd t \<noteq> CHR ''*'' \<and> t \<noteq> []"
    by (simp add: extensionMap_def)
  with map_of_SomeD [OF Some] show ?thesis by (auto simp: MIMEfulltype_def Some)
qed

lemma accept_never_refuses: "\<not> accept_refuses accepted (MIMEfulltype ext)"
  using MIMEfulltype_no_star [of ext]
  by (auto simp: accept_refuses_def sv_find_at_0 prefix_def) (metis hd_append2 list.sel(1))

lemma str_from_1: "str_from (Suc 0) s = (if s = [] then None else Some (tl s))"
  by (cases s) (simp_all add: sv_simps)

lemma ctor_throws_iff:
  "httpResponse_ctor rq root = Inl e \<longleftrightarrow>
     e = OutOfRange \<and> status rq = OK \<and> dotdot \<notin> set (path_iter (uri rq)) \<and>
     has_extension (with_index (uri rq)) \<and> \<not> has_extension (target (uri rq))"
  by (auto simp: httpResponse_ctor_def Let_def str_from_1 has_extension_def
      split: option.splits if_splits)

lemma ctor_served:
  assumes "httpResponse_ctor rq root = Inr r" and "status r = OK"
  shows "status rq = OK \<and> dotdot \<notin> set (path_iter (uri rq)) \<and> has_extension (target (uri rq)) \<and>
    map_contains (headers rq) ''Accept'' \<and>
    r = new_httpResponse\<lparr>version := version rq, req_method := req_method rq,
          resp_uri := path_append root (relative_path (target (uri rq))),
          headers := [(''Catch-Control'', ''no-cache''),
                      (''Content-Type'', MIMEfulltype (tl (extension (target (uri rq)))))]\<rparr>"
proof -
  have "map_emplace ''Catch-Control'' ''no-cache'' (map_emplace ''Content-Type'' t []) =
    [(''Catch-Control'', ''no-cache''), (''Content-Type'', t)]" for t
    by code_simp
  with assms show ?thesis
    by (auto simp: httpResponse_ctor_def Let_def str_from_1 has_extension_def map_contains_def
        accept_never_refuses new_httpResponse_def split: option.splits if_splits)
qed

lemma ctor_ok:
  assumes "status rq = OK" and "dotdot \<notin> set (path_iter (uri rq))" and "has_extension (with_index (uri rq))"
    and "has_extension (target (uri rq))" and "map_contains (headers rq) ''Accept''"
  shows "\<exists>r. httpResponse_ctor rq root = Inr r \<and> status r = OK"
  using assms by (auto simp: httpResponse_ctor_def Let_def str_from_1 has_extension_def map_contains_def
      accept_never_refuses split: option.splits)

text \<open>Removing the query keeps every name but the last one.\<close>

lemma without_args_split: "\<exists>b. u = without_args u @ b"
  by (cases "sv_find ''?'' u")
    (auto simp: without_args_def upto_char_def sv_prefix_def, metis append_take_drop_id)

lemma with_index_dotdot:
  "dotdot \<notin> set (pieces u) \<Longrightarrow> dotdot \<notin> set (pieces (with_index u))"
  by (auto simp: with_index_def pieces_path_append is_absolute_def) (simp add: pieces_def)

lemma target_dotdot:
  assumes "dotdot \<notin> set (path_iter u)" and "has_extension (target u)"
  shows "dotdot \<notin> set (pieces (target u))"
proof -
  have "dotdot \<notin> set (pieces (with_index u))"
    using assms(1) path_iter_pieces [of dotdot u] with_index_dotdot by simp
  moreover obtain b where "with_index u = target u @ b" using without_args_split by metis
  moreover have "filename (target u) \<noteq> dotdot"
    using assms(2) dotdot_has_no_extension by (auto simp: has_extension_def)
  ultimately show ?thesis using pieces_append_set [of "target u" b] by auto
qed

text \<open>The last name of a served target is a file name with an extension.\<close>

lemma target_last:
  assumes "has_extension (target u)"
  shows "\<exists>ns n. pieces (target u) = ns @ [n] \<and> n \<noteq> ''.'' \<and> n \<noteq> dotdot"
proof -
  let ?t = "target u"
  have f: "filename ?t \<noteq> []"
    using assms extension_nonempty_filename by (simp add: has_extension_def)
  then have "pieces ?t = butlast (pieces ?t) @ [filename ?t]"
    using filename_pieces [OF f] by (metis append_butlast_last_id)
  moreover have "filename ?t \<noteq> ''.'' \<and> filename ?t \<noteq> dotdot"
    using assms by (auto simp: has_extension_def extension_def name_extension_def)
  ultimately show ?thesis by blast
qed

lemma served_pieces:
  "pieces (path_append root (relative_path u)) = pieces root @ pieces u"
  by (simp add: pieces_path_append relative_path_not_absolute pieces_relative_path)

subsection \<open>The bytes of a response\<close>

lemma response_fields_render:
  "response_fields m = render_headers (map (\<lambda>(k, v). (k, '' '' @ v)) m)"
  by (induction m) (auto simp: response_fields_def)

lemma show_200: "show_nat 200 = ''200''"
  by code_simp

lemma serialize_ok:
  "status r = OK \<Longrightarrow>
     serialize r = version r @ '' 200 OK'' @ crlf @ response_fields (headers r) @ crlf"
  by (simp add: serialize_def status_line_def http_message_def show_200)

text \<open>
  The header of a served response to an HTTP/1.1 request, once its length has been filled in as the
  handlers do: status line, the three fields in key order, the empty line.
\<close>

definition served_header :: "string \<Rightarrow> string \<Rightarrow> string" where
  "served_header mime len =
     ''HTTP/1.1 200 OK'' @ crlf @ ''Catch-Control: no-cache'' @ crlf @ ''Content-Length: '' @ len @ crlf
     @ ''Content-Type: '' @ mime @ crlf @ crlf"

lemma ctor_served_bytes:
  assumes "httpResponse_ctor rq root = Inr r" and "status r = OK" and "version rq = ''HTTP/1.1''"
  shows "serialize (r\<lparr>headers := map_assign ''Content-Length'' n (headers r)\<rparr>) =
    served_header (MIMEfulltype (tl (extension (target (uri rq))))) n"
proof -
  have "map_assign ''Content-Length'' n [(''Catch-Control'', c), (''Content-Type'', t)] =
    [(''Catch-Control'', c), (''Content-Length'', n), (''Content-Type'', t)]" for c t :: string
    by code_simp
  then show ?thesis
    using ctor_served [OF assms(1,2)] assms(3)
    by (simp add: serialize_ok response_fields_def new_httpResponse_def served_header_def)
qed

text \<open>The header when no length is added.\<close>

definition plain_header :: "string \<Rightarrow> string" where
  "plain_header mime =
     ''HTTP/1.1 200 OK'' @ crlf @ ''Catch-Control: no-cache'' @ crlf @ ''Content-Type: '' @ mime @ crlf @ crlf"

lemma ctor_plain_bytes:
  assumes "httpResponse_ctor rq root = Inr r" and "status r = OK" and "version rq = ''HTTP/1.1''"
  shows "serialize r = plain_header (MIMEfulltype (tl (extension (target (uri rq)))))"
  using ctor_served [OF assms(1,2)] assms(3)
  by (simp add: serialize_ok response_fields_def new_httpResponse_def plain_header_def)

text \<open>Every error response is one of three constants, each with an empty body.\<close>

lemma serialize_error:
  "BAD_REQUEST \<le> status r \<Longrightarrow> status r < UNCOMPLETED_REQUEST \<Longrightarrow>
     serialize r \<in> {notFoundResponse, badRequestResponse, notImplementedResponse}"
  by (cases "status r") (simp_all add: serialize_def less_eq_httpErrc_def less_httpErrc_def)

subsection \<open>Properties\<close>

text \<open>
  C2: path traversal safety.  When the constructor serves a file (status OK), the file named by the
  resulting path lies strictly below the web root once every \<open>.\<close> and \<open>..\<close> of the path is carried
  out, whatever the request target was, with a query string or without.
\<close>

theorem served_below_root:
  assumes "httpResponse_ctor rq root = Inr r" and "status r = OK"
  shows "strict_prefix (lex_resolve root) (lex_resolve (resp_uri r))"
proof -
  note s = ctor_served [OF assms]
  let ?t = "target (uri rq)"
  have p: "pieces (resp_uri r) = pieces root @ pieces ?t" using s served_pieces by simp
  obtain ns n where n: "pieces ?t = ns @ [n]" "n \<noteq> ''.''" "n \<noteq> dotdot" using s target_last by blast
  have "dotdot \<notin> set ns" using s target_dotdot n(1) by force
  then have "prefix (lex_resolve root) (foldl lex_step (lex_resolve root) ns)"
    by (rule foldl_lex_step_below)
  moreover have "lex_resolve (resp_uri r) = foldl lex_step (lex_resolve root) ns @ [n]"
    using n by (simp add: lex_resolve_def p lex_step_def)
  ultimately show ?thesis by (auto simp: strict_prefix_def prefix_def)
qed

theorem served_below_root_witness:
  "strict_prefix [''srv'', ''www''] (lex_resolve ''/srv/www/a/./b.html'')"
proof -
  let ?rq = "new_httpRequest\<lparr>req_method := GET, uri := ''/a/./b.html?x=..'',
    headers := [(''Accept'', ''*/*'')]\<rparr>"
  let ?r = "new_httpResponse\<lparr>req_method := GET, resp_uri := ''/srv/www/a/./b.html'',
    headers := [(''Catch-Control'', ''no-cache''), (''Content-Type'', ''text/html'')]\<rparr>"
  have "httpResponse_ctor ?rq ''/srv/www'' = Inr ?r" by code_simp
  from served_below_root [OF this] have
    "strict_prefix (lex_resolve ''/srv/www'') (lex_resolve ''/srv/www/a/./b.html'')"
    by (simp add: new_httpResponse_def)
  moreover have "lex_resolve ''/srv/www'' = [''srv'', ''www'']" by code_simp
  ultimately show ?thesis by simp
qed

text \<open>
  Which requests are served.  The response is OK exactly when the request was, no component of
  its target is \<open>..\<close>, the target has an extension both before and after the query is removed, and
  an \<open>Accept\<close> field is present; the value of that field plays no part.
\<close>

lemma served_iff:
  "(\<exists>r. httpResponse_ctor rq root = Inr r \<and> status r = OK) \<longleftrightarrow>
     status rq = OK \<and> dotdot \<notin> set (path_iter (uri rq)) \<and> has_extension (with_index (uri rq)) \<and>
     has_extension (target (uri rq)) \<and> map_contains (headers rq) ''Accept''"
  (is "?served \<longleftrightarrow> ?conditions")
proof
  assume ?served
  then obtain r where r: "httpResponse_ctor rq root = Inr r" "status r = OK" by blast
  have "has_extension (with_index (uri rq))"
    using r ctor_served [OF r] ctor_no_extension [of rq root] by fastforce
  with ctor_served [OF r] show ?conditions by blast
next
  assume ?conditions
  then show ?served using ctor_ok by blast
qed

text \<open>
  Error responses.  For every error status between 400 and 505 the serialised message is one of
  three fixed messages, and each of them is a complete message that the client reads to its end:
  a status line, \<open>Content-Length: 0\<close> and the empty line.
\<close>

lemma error_response_complete:
  assumes "BAD_REQUEST \<le> status r" and "status r < UNCOMPLETED_REQUEST"
  shows "\<exists>l. sv_find crlf l = None \<and>
    serialize r = l @ crlf @ render_headers [(''Content-Length'', '' 0'')] @ crlf"
proof -
  let ?L = "{''HTTP/1.1 404 Not Found'', ''HTTP/1.1 400 Bad Request'', ''HTTP/1.1 501 Not Implemented''}"
  have "\<forall>l \<in> ?L. sv_find crlf l = None" by simp
  moreover have "\<exists>l \<in> ?L. serialize r = l @ crlf @ ''Content-Length: 0'' @ crlf @ crlf"
    using serialize_error [OF assms]
    by (simp add: notFoundResponse_def badRequestResponse_def notImplementedResponse_def)
  ultimately obtain l where "sv_find crlf l = None"
    "serialize r = l @ crlf @ ''Content-Length: 0'' @ crlf @ crlf" by blast
  then show ?thesis by (intro exI [of _ l]) simp
qed

end
