(* ===== verification/HttpRead.thy ===== *)
theory HttpRead
  imports HttpParse
begin

text \<open>
  Reading a request from a non-blocking socket (\<^verbatim>\<open>httpRequest::readRequest\<close>,
  \<^verbatim>\<open>getBuffer\<close>, \<^verbatim>\<open>eraseBuffer\<close> in \<^verbatim>\<open>src/http/Http.cpp\<close>,
  \<^verbatim>\<open>reactorSocket::read\<close> in \<^verbatim>\<open>include/http/Socket.hpp\<close>).

  Unfinished requests live in a table from descriptors to shared strings.  The table is Intel TBB's
  \<^verbatim>\<open>concurrent_hash_map\<close>, which is not part of the sources: its operations are the parameter
  \<open>T\<close>, and what is used of them is the locale \<open>erasable_map\<close>.  The strings are shared (the table and
  the reading function hold the same \<^verbatim>\<open>shared_ptr\<close>), so the state has a store from
  pointers to strings and an append through the pointer is seen through the table.

  The results of the successive \<^verbatim>\<open>::read\<close> calls are the stream \<open>reads\<close>.
\<close>

subsection \<open>State and environment\<close>

type_synonym ptr = nat

record 't table_ops =
  tfind :: "'t \<Rightarrow> int \<Rightarrow> ptr option"
  templace :: "int \<Rightarrow> ptr \<Rightarrow> 't \<Rightarrow> 't"
  terase :: "int \<Rightarrow> 't \<Rightarrow> 't"
  tinv :: "'t \<Rightarrow> bool"

definition table_laws :: "'t table_ops \<Rightarrow> bool" where
  "table_laws T = erasable_map (templace T) (tfind T) (tinv T) (terase T)"

record 't bufs =
  table :: 't
  heap :: "ptr \<Rightarrow> string"
  next_ptr :: ptr

datatype read_event = ReadBytes string | ReadFail int

text \<open>\<^verbatim>\<open>reactorSocket::read\<close>: the descriptor is checked before the call.\<close>

definition sock_read :: "int \<Rightarrow> read_event \<Rightarrow> error_code + string" where
  "sock_read fd ev =
     (if fd < 0 then Inl (socket_error ReadError)
      else case ev of ReadBytes bs \<Rightarrow> Inr bs | ReadFail e \<Rightarrow> Inl (generic_error e))"

definition getBuffer :: "'t table_ops \<Rightarrow> int \<Rightarrow> 't bufs \<Rightarrow> ptr \<times> 't bufs" where
  "getBuffer T fd st =
     (case tfind T (table st) fd of
        Some p \<Rightarrow> (p, st)
      | None \<Rightarrow>
          let p = next_ptr st
          in (p, st\<lparr>table := templace T fd p (table st), heap := (heap st)(p := []),
                    next_ptr := Suc p\<rparr>))"

definition eraseBuffer :: "'t table_ops \<Rightarrow> int \<Rightarrow> 't bufs \<Rightarrow> 't bufs" where
  "eraseBuffer T fd st = st\<lparr>table := terase T fd (table st)\<rparr>"

text \<open>One \<^verbatim>\<open>read(...).and_then(...)\<close> of the loop: end of file and overlong requests are errors.\<close>

definition read_checked :: "int \<Rightarrow> read_event \<Rightarrow> string \<Rightarrow> error_code + string" where
  "read_checked fd ev msg =
     and_then (sock_read fd ev)
       (\<lambda>bs. if bs = [] then Inl (socket_error EofError)
             else if length bs + length msg > 4096 then Inl (http_error BAD_REQUEST)
             else Inr bs)"

text \<open>\<^verbatim>\<open>requestMessage->append(buffer, bytesRead)\<close>.\<close>

definition append_buf :: "ptr \<Rightarrow> string \<Rightarrow> 't bufs \<Rightarrow> 't bufs" where
  "append_buf p bs st = st\<lparr>heap := (heap st)(p := heap st p @ bs)\<rparr>"

lemma append_buf_simps [simp]:
  "heap (append_buf p bs st) q = (if q = p then heap st p @ bs else heap st q)"
  "table (append_buf p bs st) = table st"
  "next_ptr (append_buf p bs st) = next_ptr st"
  "append_buf p cs (append_buf p bs st) = append_buf p (bs @ cs) st"
  "append_buf p [] st = st"
  by (simp_all add: append_buf_def fun_upd_idem)

function readLoop ::
  "'t table_ops \<Rightarrow> int \<Rightarrow> ptr \<Rightarrow> (nat \<Rightarrow> read_event) \<Rightarrow> nat \<Rightarrow> 't bufs \<Rightarrow>
     (error_code + string) \<times> 't bufs \<times> nat" where
  "readLoop T fd p reads i st =
     (case read_checked fd (reads i) (heap st p) of
        Inr bs \<Rightarrow> readLoop T fd p reads (Suc i) (append_buf p bs st)
      | Inl e \<Rightarrow>
          if e = generic_error EAGAIN \<or> e = generic_error EWOULDBLOCK then
            if sv_ends_with (heap st p) crlf2
            then (Inr (heap st p), eraseBuffer T fd st, Suc i)
            else (Inl (http_error UNCOMPLETED_REQUEST), st, Suc i)
          else (Inl e, eraseBuffer T fd st, Suc i))"
  by pat_completeness auto
termination
  by (relation "measure (\<lambda>(T, fd, p, reads, i, st). 4096 - length (heap st p))")
    (auto simp: read_checked_def and_then_Inr simp flip: length_greater_0_conv split: if_splits)

declare readLoop.simps [simp del]

definition readRequest ::
  "'t table_ops \<Rightarrow> int \<Rightarrow> (nat \<Rightarrow> read_event) \<Rightarrow> nat \<Rightarrow> 't bufs \<Rightarrow>
     (error_code + string) \<times> 't bufs \<times> nat" where
  "readRequest T fd reads i st =
     (let (p, st) = getBuffer T fd st in readLoop T fd p reads i st)"

subsection \<open>The abstract reader\<close>

text \<open>
  The specification forgets the pointers: a buffer is the bytes kept for a descriptor.
\<close>

definition kept :: "'t table_ops \<Rightarrow> 't bufs \<Rightarrow> int \<Rightarrow> string option" where
  "kept T st fd = map_option (heap st) (tfind T (table st) fd)"

definition kept_bytes :: "'t table_ops \<Rightarrow> 't bufs \<Rightarrow> int \<Rightarrow> string" where
  "kept_bytes T st fd = (case kept T st fd of None \<Rightarrow> [] | Some s \<Rightarrow> s)"

text \<open>\<open>delivers reads i cs e\<close>: the stream gives the nonempty chunks \<open>cs\<close> and then \<open>e\<close>.\<close>

fun delivers :: "(nat \<Rightarrow> read_event) \<Rightarrow> nat \<Rightarrow> string list \<Rightarrow> read_event \<Rightarrow> bool" where
  "delivers reads i [] e \<longleftrightarrow> reads i = e"
| "delivers reads i (c # cs) e \<longleftrightarrow> reads i = ReadBytes c \<and> c \<noteq> [] \<and> delivers reads (Suc i) cs e"

text \<open>
  No buffer is shared between descriptors, pointers are allocated once, and no buffer is longer than
  the limit.
\<close>

definition bufs_inv :: "'t table_ops \<Rightarrow> 't bufs \<Rightarrow> bool" where
  "bufs_inv T st \<longleftrightarrow>
     tinv T (table st)
     \<and> (\<forall>fd p. tfind T (table st) fd = Some p \<longrightarrow> p < next_ptr st \<and> length (heap st p) \<le> 4096)
     \<and> (\<forall>fd fd' p. tfind T (table st) fd = Some p \<and> tfind T (table st) fd' = Some p \<longrightarrow> fd = fd')"

subsection \<open>The loop\<close>

lemma read_checked_cases:
  "read_checked fd ev msg = Inr bs \<longleftrightarrow>
     0 \<le> fd \<and> ev = ReadBytes bs \<and> bs \<noteq> [] \<and> length bs + length msg \<le> 4096"
  by (cases ev) (auto simp: read_checked_def sock_read_def)

lemma read_checked_error:
  "read_checked fd ev msg = Inl e \<Longrightarrow>
     e = socket_error ReadError \<or> (\<exists>n. ev = ReadFail n \<and> e = generic_error n)
     \<or> e = socket_error EofError \<or> e = http_error BAD_REQUEST"
  by (auto simp: read_checked_def sock_read_def split: read_event.splits if_splits)

lemma readLoop_chunk:
  "read_checked fd (reads i) (heap st p) = Inr bs \<Longrightarrow>
     readLoop T fd p reads i st =
       readLoop T fd p reads (Suc i) (append_buf p bs st)"
  by (subst readLoop.simps) simp

lemma readLoop_chunks:
  "delivers reads i cs ev \<Longrightarrow> 0 \<le> fd \<Longrightarrow> length (heap st p) + length (concat cs) \<le> 4096 \<Longrightarrow>
     readLoop T fd p reads i st =
       readLoop T fd p reads (i + length cs) (append_buf p (concat cs) st)"
proof (induction cs arbitrary: i st)
  case Nil
  then show ?case by simp
next
  case (Cons c cs)
  then have "read_checked fd (reads i) (heap st p) = Inr c"
    by (simp add: read_checked_cases)
  then have "readLoop T fd p reads i st = readLoop T fd p reads (Suc i) (append_buf p c st)"
    by (rule readLoop_chunk)
  with Cons show ?case by simp
qed

lemma delivers_end: "delivers reads i cs ev \<Longrightarrow> reads (i + length cs) = ev"
  by (induction cs arbitrary: i) fastforce+

lemma delivers_append:
  "delivers reads i (cs @ ds) ev \<longleftrightarrow>
     (delivers reads i cs (reads (i + length cs)) \<and> delivers reads (i + length cs) ds ev)"
  by (induction cs arbitrary: i) auto

text \<open>What the loop leaves: it only appends to its own buffer and only touches its own entry.\<close>

definition loop_left :: "'t table_ops \<Rightarrow> int \<Rightarrow> 't bufs \<Rightarrow> error_code + string \<Rightarrow> 't bufs" where
  "loop_left T fd st r =
     (if r = Inl (http_error UNCOMPLETED_REQUEST) then st else eraseBuffer T fd st)"

lemma readLoop_result:
  "readLoop T fd p reads i st = (r, st', j) \<Longrightarrow>
     \<exists>more. st' = loop_left T fd (append_buf p more st) r \<and>
       (length (heap st p) \<le> 4096 \<longrightarrow> length (heap st p @ more) \<le> 4096) \<and>
       (\<forall>msg. r = Inr msg \<longrightarrow> msg = heap st p @ more \<and> sv_ends_with msg crlf2)"
proof (induction T fd p reads i st arbitrary: r st' j rule: readLoop.induct)
  case (1 T fd p reads i st)
  show ?case
  proof (cases "read_checked fd (reads i) (heap st p)")
    case (Inr bs)
    have "readLoop T fd p reads (Suc i) (append_buf p bs st) = (r, st', j)"
      using "1.prems" readLoop_chunk [where st = st and reads = reads and i = i and p = p, OF Inr] by simp
    from "1.IH" [OF Inr this] obtain more where
      more: "st' = loop_left T fd (append_buf p (bs @ more) st) r"
      "length (heap st p @ bs) \<le> 4096 \<longrightarrow> length (heap st p @ bs @ more) \<le> 4096"
      "\<forall>msg. r = Inr msg \<longrightarrow> msg = heap st p @ bs @ more \<and> sv_ends_with msg crlf2"
      by auto
    from Inr have "length (heap st p @ bs) \<le> 4096" by (simp add: read_checked_cases)
    with more show ?thesis by (intro exI [of _ "bs @ more"]) simp
  next
    case (Inl e)
    have "e \<noteq> http_error UNCOMPLETED_REQUEST"
      using read_checked_error [OF Inl] by auto
    with Inl "1.prems" show ?thesis
      by (subst (asm) readLoop.simps)
        (auto simp: loop_left_def split: if_splits intro!: exI [of _ "[]"])
  qed
qed

text \<open>The number of reads: each but the last appends at least one byte, and the limit stops it.\<close>

lemma readLoop_turns:
  "readLoop T fd p reads i st = (r, st', j) \<Longrightarrow> length (heap st p) \<le> 4096 \<Longrightarrow>
     i < j \<and> j + length (heap st p) \<le> i + 4097"
proof (induction T fd p reads i st arbitrary: r st' j rule: readLoop.induct)
  case (1 T fd p reads i st)
  show ?case
  proof (cases "read_checked fd (reads i) (heap st p)")
    case (Inr bs)
    have run: "readLoop T fd p reads (Suc i) (append_buf p bs st) = (r, st', j)"
      using "1.prems"(1) readLoop_chunk [where st = st and reads = reads and i = i and p = p, OF Inr] by simp
    from Inr have bs: "0 < length bs" "length (heap st p @ bs) \<le> 4096" by (auto simp: read_checked_cases)
    from "1.IH" [OF Inr run] bs(2)
    have "Suc i < j \<and> j + (length (heap st p) + length bs) \<le> Suc i + 4097" by simp
    with bs(1) show ?thesis by linarith
  next
    case (Inl e)
    with "1.prems" show ?thesis by (subst (asm) readLoop.simps) (auto split: if_splits)
  qed
qed

subsection \<open>The table and the store\<close>

lemma table_lawsD:
  assumes "table_laws T" and "tinv T t"
  shows "tfind T (templace T k p t) k' = (if k' = k \<and> tfind T t k = None then Some p else tfind T t k')"
    and "tfind T (terase T k t) k' = (if k' = k then None else tfind T t k')"
    and "tinv T (templace T k p t)" and "tinv T (terase T k t)"
proof -
  have e: "erasable_map (templace T) (tfind T) (tinv T) (terase T)"
    using assms(1) by (simp add: table_laws_def)
  then have b: "emplace_base (templace T) (tfind T) (tinv T)" by (rule erasable_map.axioms(1))
  show "tfind T (templace T k p t) k' = (if k' = k \<and> tfind T t k = None then Some p else tfind T t k')"
    and "tinv T (templace T k p t)"
    using assms(2) emplace_base.lookup_emplace [OF b] emplace_base.invar_emplace [OF b] by auto
  show "tfind T (terase T k t) k' = (if k' = k then None else tfind T t k')"
    and "tinv T (terase T k t)"
    using assms(2) erasable_map.lookup_erase [OF e] erasable_map.invar_erase [OF e] by auto
qed

lemma kept_bytes_alt: "kept_bytes T st fd = (case tfind T (table st) fd of None \<Rightarrow> [] | Some p \<Rightarrow> heap st p)"
  by (simp add: kept_bytes_def kept_def split: option.splits)

lemma getBuffer_result:
  assumes "table_laws T" and "bufs_inv T st" and "getBuffer T fd st = (p, st1)"
  shows "tfind T (table st1) fd = Some p" and "heap st1 p = kept_bytes T st fd"
    and "bufs_inv T st1" and "fd' \<noteq> fd \<Longrightarrow> kept T st1 fd' = kept T st fd'"
proof -
  have ti: "tinv T (table st)" using assms(2) by (simp add: bufs_inv_def)
  note laws = table_lawsD [OF assms(1) ti]
  show "tfind T (table st1) fd = Some p" and "heap st1 p = kept_bytes T st fd"
    using assms(3) by (auto simp: getBuffer_def Let_def laws kept_bytes_alt split: option.splits)
  show "bufs_inv T st1"
  proof (cases "tfind T (table st) fd")
    case None
    have "tfind T (table st) k = Some q \<Longrightarrow> q < next_ptr st" for k q
      using assms(2) by (auto simp: bufs_inv_def)
    then have "tfind T (table st) k \<noteq> Some (next_ptr st)" for k by blast
    with None assms(2,3) show ?thesis
      by (auto simp: getBuffer_def Let_def bufs_inv_def laws less_Suc_eq split: if_splits)
  next
    case (Some q)
    with assms(2,3) show ?thesis by (auto simp: getBuffer_def)
  qed
  show "kept T st1 fd' = kept T st fd'" if "fd' \<noteq> fd"
  proof -
    have "tfind T (table st) fd' \<noteq> Some (next_ptr st)"
      using assms(2) by (auto simp: bufs_inv_def)
    with that assms(3) show ?thesis
      by (cases "tfind T (table st) fd'")
        (auto simp: getBuffer_def Let_def kept_def laws split: option.splits)
  qed
qed

lemma append_buf_inv [inv_intros]:
  "bufs_inv T st \<Longrightarrow> length (heap st p @ bs) \<le> 4096 \<Longrightarrow> bufs_inv T (append_buf p bs st)"
  by (auto simp: bufs_inv_def)

lemma append_buf_other:
  "bufs_inv T st \<Longrightarrow> tfind T (table st) fd = Some p \<Longrightarrow> fd' \<noteq> fd \<Longrightarrow>
     kept T (append_buf p bs st) fd' = kept T st fd'"
  by (cases "tfind T (table st) fd'") (auto simp: kept_def bufs_inv_def)

lemma eraseBuffer_inv [inv_intros]:
  "table_laws T \<Longrightarrow> bufs_inv T st \<Longrightarrow> bufs_inv T (eraseBuffer T fd st)"
  by (auto simp: bufs_inv_def eraseBuffer_def table_lawsD split: if_splits)

lemma eraseBuffer_kept:
  "table_laws T \<Longrightarrow> bufs_inv T st \<Longrightarrow>
     kept T (eraseBuffer T fd st) fd' = (if fd' = fd then None else kept T st fd')"
  by (simp add: bufs_inv_def eraseBuffer_def kept_def table_lawsD)

lemma kept_bytes_bound: "bufs_inv T st \<Longrightarrow> length (kept_bytes T st fd) \<le> 4096"
  by (auto simp: kept_bytes_alt bufs_inv_def split: option.splits)

text \<open>Everything one call does, in terms of the bytes kept.\<close>

lemma readRequest_result:
  assumes "table_laws T" and "bufs_inv T st" and "readRequest T fd reads i st = (r, st', j)"
  obtains more where "bufs_inv T st'"
    and "length (kept_bytes T st fd @ more) \<le> 4096"
    and "kept T st' fd = (if r = Inl (http_error UNCOMPLETED_REQUEST)
                          then Some (kept_bytes T st fd @ more) else None)"
    and "\<And>fd'. fd' \<noteq> fd \<Longrightarrow> kept T st' fd' = kept T st fd'"
    and "\<And>msg. r = Inr msg \<Longrightarrow> msg = kept_bytes T st fd @ more \<and> sv_ends_with msg crlf2"
proof -
  obtain p st1 where gb: "getBuffer T fd st = (p, st1)" by fastforce
  note g = getBuffer_result [OF assms(1,2) gb]
  from assms(3) gb have "readLoop T fd p reads i st1 = (r, st', j)" by (simp add: readRequest_def)
  from readLoop_result [OF this] g(2) kept_bytes_bound [OF assms(2)] obtain more where
    st': "st' = loop_left T fd (append_buf p more st1) r"
    and len: "length (kept_bytes T st fd @ more) \<le> 4096"
    and msg: "\<And>msg. r = Inr msg \<Longrightarrow> msg = kept_bytes T st fd @ more \<and> sv_ends_with msg crlf2"
    by metis
  have inv1: "bufs_inv T (append_buf p more st1)"
    using g(2,3) len by (intro append_buf_inv) simp_all
  show thesis
  proof (rule that [of more])
    show "bufs_inv T st'" using inv1 assms(1) by (simp add: st' loop_left_def eraseBuffer_inv)
    show "kept T st' fd = (if r = Inl (http_error UNCOMPLETED_REQUEST)
        then Some (kept_bytes T st fd @ more) else None)"
      using g(1,2) eraseBuffer_kept [OF assms(1) inv1] by (simp add: st' loop_left_def kept_def)
    show "kept T st' fd' = kept T st fd'" if "fd' \<noteq> fd" for fd'
      using that g(1,3,4) append_buf_other [OF g(3) g(1) that] eraseBuffer_kept [OF assms(1) inv1]
      by (simp add: st' loop_left_def)
  qed (use len msg in auto)
qed

text \<open>A call whose chunks fit and that ends with nothing more to read.\<close>

lemma readRequest_chunks:
  assumes "table_laws T" and "bufs_inv T st" and "0 \<le> fd"
    and "delivers reads i cs (ReadFail EAGAIN)"
    and "length (kept_bytes T st fd @ concat cs) \<le> 4096"
    and "readRequest T fd reads i st = (r, st', j)"
  defines "msg \<equiv> kept_bytes T st fd @ concat cs"
  shows "r = (if sv_ends_with msg crlf2 then Inr msg else Inl (http_error UNCOMPLETED_REQUEST))"
    and "kept T st' fd = (if sv_ends_with msg crlf2 then None else Some msg)"
proof -
  obtain p st1 where gb: "getBuffer T fd st = (p, st1)" by fastforce
  note g = getBuffer_result [OF assms(1,2) gb]
  let ?st2 = "append_buf p (concat cs) st1"
  have "readLoop T fd p reads i st1 = readLoop T fd p reads (i + length cs) ?st2"
    using assms(3-5) g(2) by (intro readLoop_chunks) auto
  moreover have "reads (i + length cs) = ReadFail EAGAIN" using assms(4) by (rule delivers_end)
  then have "read_checked fd (reads (i + length cs)) (heap ?st2 p) = Inl (generic_error EAGAIN)"
    using assms(3) by (simp add: read_checked_def sock_read_def)
  then have "readLoop T fd p reads (i + length cs) ?st2 =
    (if sv_ends_with msg crlf2 then (Inr msg, eraseBuffer T fd ?st2, Suc (i + length cs))
     else (Inl (http_error UNCOMPLETED_REQUEST), ?st2, Suc (i + length cs)))"
    using g(2) by (subst readLoop.simps) (simp add: msg_def)
  ultimately have res: "(r, st', j) =
    (if sv_ends_with msg crlf2 then (Inr msg, eraseBuffer T fd ?st2, Suc (i + length cs))
     else (Inl (http_error UNCOMPLETED_REQUEST), ?st2, Suc (i + length cs)))"
    using assms(6) gb by (simp add: readRequest_def)
  have "bufs_inv T ?st2" using g(2,3) assms(5) by (intro append_buf_inv) simp_all
  then have "kept T (eraseBuffer T fd ?st2) fd = None" using assms(1) by (simp add: eraseBuffer_kept)
  moreover have "kept T ?st2 fd = Some msg" using g(1,2) by (simp add: kept_def msg_def)
  ultimately show "r = (if sv_ends_with msg crlf2 then Inr msg else Inl (http_error UNCOMPLETED_REQUEST))"
    and "kept T st' fd = (if sv_ends_with msg crlf2 then None else Some msg)"
    using res by (auto split: if_splits)
qed

subsection \<open>Properties\<close>

text \<open>A table that has the laws: the ascending list of the header maps, with descriptors as keys.\<close>

definition omap_table :: "(int, ptr) omap table_ops" where
  "omap_table = \<lparr>tfind = map_lookup, templace = map_emplace, terase = map_erase, tinv = omap_inv\<rparr>"

definition no_bufs :: "(int, ptr) omap bufs" where
  "no_bufs = \<lparr>table = [], heap = (\<lambda>_. []), next_ptr = 0\<rparr>"

lemma omap_table_laws: "table_laws omap_table"
  by (simp add: table_laws_def omap_table_def em.erasable_map_axioms)

lemma no_bufs_inv: "bufs_inv omap_table no_bufs"
  by (simp add: bufs_inv_def omap_table_def no_bufs_def map_lookup_def)

lemma no_bufs_kept: "kept_bytes omap_table no_bufs fd = []"
  by (simp add: kept_bytes_alt omap_table_def no_bufs_def map_lookup_def)

text \<open>A stream that gives the listed chunks and then nothing more to read.\<close>

definition chunk_stream :: "string list \<Rightarrow> nat \<Rightarrow> read_event" where
  "chunk_stream cs i = (if i < length cs then ReadBytes (cs ! i) else ReadFail EAGAIN)"

lemma chunk_stream_delivers:
  "[] \<notin> set cs \<Longrightarrow> delivers (chunk_stream cs) 0 cs (ReadFail EAGAIN)"
proof -
  assume ne: "[] \<notin> set cs"
  have "i \<le> length cs \<Longrightarrow> delivers (chunk_stream cs) i (drop i cs) (ReadFail EAGAIN)" for i
  proof (induction "length cs - i" arbitrary: i)
    case 0
    then show ?case by (simp add: chunk_stream_def)
  next
    case (Suc n)
    then have "i < length cs" by simp
    moreover from this have "cs ! i \<noteq> []" using ne nth_mem by metis
    ultimately show ?case using Suc
      by (subst Cons_nth_drop_Suc [symmetric]) (auto simp: chunk_stream_def)
  qed
  from this [of 0] show ?thesis by simp
qed

text \<open>
  What a call of \<^verbatim>\<open>readRequest\<close> leaves, whatever the socket delivers.  A message that is
  returned ends with an empty line, is at most 4096 bytes long and is no longer in the table; only the
  result UNCOMPLETED keeps the bytes for the next call; the buffers of all other descriptors are
  untouched and no buffer is ever longer than 4096 bytes.
\<close>

lemma readRequest_contract:
  assumes "table_laws T" and "bufs_inv T st" and "readRequest T fd reads i st = (r, st', j)"
  shows "bufs_inv T st' \<and> (\<forall>fd'. fd' \<noteq> fd \<longrightarrow> kept T st' fd' = kept T st fd') \<and>
    (case r of
       Inr msg \<Rightarrow> sv_ends_with msg crlf2 \<and> length msg \<le> 4096 \<and> kept T st' fd = None
     | Inl e \<Rightarrow> kept T st' fd \<noteq> None \<longleftrightarrow> e = http_error UNCOMPLETED_REQUEST)"
proof -
  obtain more where m: "bufs_inv T st'" "length (kept_bytes T st fd @ more) \<le> 4096"
    "kept T st' fd = (if r = Inl (http_error UNCOMPLETED_REQUEST)
                      then Some (kept_bytes T st fd @ more) else None)"
    "\<And>fd'. fd' \<noteq> fd \<Longrightarrow> kept T st' fd' = kept T st fd'"
    "\<And>msg. r = Inr msg \<Longrightarrow> msg = kept_bytes T st fd @ more \<and> sv_ends_with msg crlf2"
    using readRequest_result [OF assms] by blast
  show ?thesis using m by (cases r) auto
qed

text \<open>
  C34: a call of \<^verbatim>\<open>readRequest\<close> ends, even when the socket never runs out of bytes.  It reads at
  least once and at most 4097 times less the bytes kept from earlier calls: the limit on the message
  ends the loop when the peer does not.
\<close>

theorem readRequest_ends:
  assumes "table_laws T" and "bufs_inv T st"
  shows "\<exists>r st' j. readRequest T fd reads i st = (r, st', j) \<and> bufs_inv T st' \<and>
    i < j \<and> j + length (kept_bytes T st fd) \<le> i + 4097"
proof -
  obtain r st' j where run: "readRequest T fd reads i st = (r, st', j)" by (metis prod.exhaust)
  obtain p st1 where gb: "getBuffer T fd st = (p, st1)" by fastforce
  note g = getBuffer_result [OF assms gb]
  from run gb have "readLoop T fd p reads i st1 = (r, st', j)" by (simp add: readRequest_def)
  from readLoop_turns [OF this] g(2) kept_bytes_bound [OF assms(2)]
  have "i < j \<and> j + length (kept_bytes T st fd) \<le> i + 4097" by simp
  moreover have "bufs_inv T st'" using readRequest_result [OF assms run] by blast
  ultimately show ?thesis using run by blast
qed

theorem readRequest_ends_witness:
  "\<exists>r st' j. readRequest omap_table 3 (\<lambda>_. ReadBytes ''a'') 7 no_bufs = (r, st', j) \<and> j \<le> 4104"
  using readRequest_ends [OF omap_table_laws no_bufs_inv, of 3 "\<lambda>_. ReadBytes ''a''" 7]
  by (auto simp: no_bufs_kept)

text \<open>
  A request that grows beyond 4096 bytes is refused.  When the chunks before it fit and the next
  chunk takes the message over the limit, the result is BAD_REQUEST and nothing is kept.
\<close>

lemma readRequest_overlong:
  assumes "table_laws T" and "bufs_inv T st" and "0 \<le> fd"
    and "delivers reads i cs (ReadBytes c)" and "c \<noteq> []"
    and "length (kept_bytes T st fd @ concat cs) \<le> 4096"
    and "4096 < length (kept_bytes T st fd @ concat cs @ c)"
    and "readRequest T fd reads i st = (r, st', j)"
  shows "r = Inl (http_error BAD_REQUEST) \<and> kept T st' fd = None"
proof -
  obtain p st1 where gb: "getBuffer T fd st = (p, st1)" by fastforce
  note g = getBuffer_result [OF assms(1,2) gb]
  let ?st2 = "append_buf p (concat cs) st1"
  have "readLoop T fd p reads i st1 = readLoop T fd p reads (i + length cs) ?st2"
    using assms(3,4,6) g(2) by (intro readLoop_chunks) auto
  moreover have "reads (i + length cs) = ReadBytes c" using assms(4) by (rule delivers_end)
  then have "read_checked fd (reads (i + length cs)) (heap ?st2 p) = Inl (http_error BAD_REQUEST)"
    using assms(3,5,7) g(2) by (simp add: read_checked_def sock_read_def)
  then have "readLoop T fd p reads (i + length cs) ?st2 =
    (Inl (http_error BAD_REQUEST), eraseBuffer T fd ?st2, Suc (i + length cs))"
    by (subst readLoop.simps) simp
  ultimately have res: "r = Inl (http_error BAD_REQUEST)" "st' = eraseBuffer T fd ?st2"
    using assms(8) gb by (simp_all add: readRequest_def)
  have "bufs_inv T ?st2" using g(2,3) assms(6) by (intro append_buf_inv) simp_all
  with res assms(1) show ?thesis by (simp add: eraseBuffer_kept)
qed

text \<open>
  C22: how the bytes are cut into reads does not matter.  If a first call ends without a complete
  message and a second call delivers the rest, the result and the table are those of one call that
  delivers all the bytes, in whatever pieces.
\<close>

theorem readRequest_segmentation:
  assumes "table_laws T" and "bufs_inv T st" and "0 \<le> fd"
    and "delivers reads1 i1 cs1 (ReadFail EAGAIN)" and "delivers reads2 i2 cs2 (ReadFail EAGAIN)"
    and "delivers reads3 i3 cs3 (ReadFail EAGAIN)" and "concat cs3 = concat cs1 @ concat cs2"
    and "length (kept_bytes T st fd @ concat cs3) \<le> 4096"
    and "\<not> sv_ends_with (kept_bytes T st fd @ concat cs1) crlf2"
    and "readRequest T fd reads1 i1 st = (r1, st1, j1)"
    and "readRequest T fd reads2 i2 st1 = (r2, st2, j2)"
    and "readRequest T fd reads3 i3 st = (r3, st3, j3)"
  shows "r2 = r3 \<and> kept T st2 = kept T st3"
proof -
  have len1: "length (kept_bytes T st fd @ concat cs1) \<le> 4096" using assms(7,8) by simp
  have k1: "kept_bytes T st1 fd = kept_bytes T st fd @ concat cs1"
    using readRequest_chunks(2) [OF assms(1-3,4) len1 assms(10)] assms(9) by (simp add: kept_bytes_def)
  have inv1: "bufs_inv T st1" and o1: "\<And>fd'. fd' \<noteq> fd \<Longrightarrow> kept T st1 fd' = kept T st fd'"
    using readRequest_result [OF assms(1,2,10)] by metis+
  have len2: "length (kept_bytes T st1 fd @ concat cs2) \<le> 4096" using assms(7,8) k1 by simp
  note two = readRequest_chunks [OF assms(1) inv1 assms(3,5) len2 assms(11)]
  note three = readRequest_chunks [OF assms(1-3,6,8,12)]
  have "kept T st2 fd' = kept T st3 fd'" for fd'
  proof (cases "fd' = fd")
    case True
    with two(2) three(2) show ?thesis by (simp add: k1 assms(7))
  next
    case False
    have "kept T st2 fd' = kept T st1 fd'" "kept T st3 fd' = kept T st fd'"
      using False readRequest_result [OF assms(1) inv1 assms(11)]
        readRequest_result [OF assms(1,2,12)] by metis+
    with o1 [OF False] show ?thesis by simp
  qed
  moreover have "r2 = r3" using two(1) three(1) by (simp add: k1 assms(7))
  ultimately show ?thesis by blast
qed

theorem readRequest_segmentation_witness:
  "\<exists>st1 j1 st2 j2.
     readRequest omap_table 3 (chunk_stream [''GET / HTTP/1.1'' @ [cr]]) 0 no_bufs =
       (Inl (http_error UNCOMPLETED_REQUEST), st1, j1) \<and>
     readRequest omap_table 3 (chunk_stream [[lf], crlf]) 0 st1 = (Inr (''GET / HTTP/1.1'' @ crlf2), st2, j2)"
proof -
  let ?cs1 = "[''GET / HTTP/1.1'' @ [cr]]" and ?cs2 = "[[lf], crlf]" and ?cs3 = "[''GET / HTTP/1.1'' @ crlf2]"
  obtain r1 st1 j1 where run1: "readRequest omap_table 3 (chunk_stream ?cs1) 0 no_bufs = (r1, st1, j1)"
    by (metis prod.exhaust)
  obtain r2 st2 j2 where run2: "readRequest omap_table 3 (chunk_stream ?cs2) 0 st1 = (r2, st2, j2)"
    by (metis prod.exhaust)
  obtain r3 st3 j3 where run3: "readRequest omap_table 3 (chunk_stream ?cs3) 0 no_bufs = (r3, st3, j3)"
    by (metis prod.exhaust)
  have d: "delivers (chunk_stream ?cs1) 0 ?cs1 (ReadFail EAGAIN)"
    "delivers (chunk_stream ?cs2) 0 ?cs2 (ReadFail EAGAIN)"
    "delivers (chunk_stream ?cs3) 0 ?cs3 (ReadFail EAGAIN)"
    by (rule chunk_stream_delivers, simp)+
  have ns: "\<not> sv_ends_with (kept_bytes omap_table no_bufs 3 @ concat ?cs1) crlf2"
    by (simp add: no_bufs_kept sv_ends_with_def) code_simp
  have "r1 = Inl (http_error UNCOMPLETED_REQUEST)"
    using readRequest_chunks(1) [OF omap_table_laws no_bufs_inv _ d(1) _ run1] ns
    by (simp add: no_bufs_kept)
  moreover have "r3 = Inr (''GET / HTTP/1.1'' @ crlf2)"
  proof -
    have "sv_ends_with (''GET / HTTP/1.1'' @ crlf2) crlf2" by (simp add: sv_ends_with_def suffix_def)
    then show ?thesis
      using readRequest_chunks(1) [OF omap_table_laws no_bufs_inv _ d(3) _ run3]
      by (simp add: no_bufs_kept)
  qed
  moreover have "r2 = r3"
    using readRequest_segmentation [OF omap_table_laws no_bufs_inv _ d _ _ ns run1 run2 run3]
    by (simp add: no_bufs_kept)
  ultimately show ?thesis using run1 run2 by blast
qed

end
