(* ===== verification/Lru.thy ===== *)
theory Lru
  imports Errors "HOL-Library.Word"
begin

text \<open>
  The least-recently-used cache (\<^verbatim>\<open>include/utils/Lru.hpp\<close>).

  \<^verbatim>\<open>cacheList\<close> is a \<^verbatim>\<open>std::list\<close> whose iterators the map keeps, so its nodes have an
  identity: \<open>cacheList\<close> is the sequence of nodes, \<open>node\<close> what a node holds, and the map goes from keys
  to nodes.  A moved node (\<^verbatim>\<open>splice\<close>) keeps its identity.  The value builder is the template
  parameter \<^verbatim>\<open>ValueBuilder\<close>; it may read and change the outside world \<open>'w\<close>, return a null
  pointer (\<open>None\<close>) or throw.

  Keys are compared with the \<^verbatim>\<open>operator==\<close> of their type, which need not be identity: \<open>cls\<close> gives what
  of a key this comparison (and the hash that goes with it) sees, and the map has the keys in this form.

  The specification (\<open>spec_get\<close>) is a list of values, most recently used first.  The locale
  \<open>value_builder\<close> is the one thing the cache needs of its builder: a value that was built for a key
  reports an equal key as its path.
\<close>

subsection \<open>State\<close>

record ('k, 'v) lruCache =
  capacity :: "64 word"
  cacheList :: "nat list"
  node :: "nat \<Rightarrow> 'v"
  next_node :: nat
  iter_map :: "('k \<times> nat) list"

text \<open>
  The constructor converts the \<^verbatim>\<open>int\<close> capacity to \<^verbatim>\<open>size_t\<close>, \<open>getCapacity\<close> converts it
  back.
\<close>

definition new_lruCache :: "32 word \<Rightarrow> 'v \<Rightarrow> ('k, 'v) lruCache" where
  "new_lruCache cap v0 =
     \<lparr>capacity = scast cap, cacheList = [], node = (\<lambda>_. v0), next_node = 0, iter_map = []\<rparr>"

definition getCapacity :: "('k, 'v) lruCache \<Rightarrow> 32 word" where
  "getCapacity c = ucast (capacity c)"

definition contains :: "('k, 'v) lruCache \<Rightarrow> 'k \<Rightarrow> bool" where
  "contains c k \<longleftrightarrow> map_of (iter_map c) k \<noteq> None"

subsection \<open>Operations\<close>

text \<open>Dropping the last node when the map is full.\<close>

definition make_room :: "('v \<Rightarrow> 'k) \<Rightarrow> ('k, 'v) lruCache \<Rightarrow> ('k, 'v) lruCache outcome" where
  "make_room path c =
     (if length (iter_map c) = unat (capacity c) then
        if cacheList c = [] then Undefined
        else
          let endNode = node c (last (cacheList c))
          in Returns (c\<lparr>iter_map := AList.delete (path endNode) (iter_map c),
                        cacheList := butlast (cacheList c)\<rparr>)
      else Returns c)"

definition push_front :: "'k \<Rightarrow> 'v \<Rightarrow> ('k, 'v) lruCache \<Rightarrow> ('k, 'v) lruCache" where
  "push_front k v c =
     c\<lparr>cacheList := next_node c # cacheList c, node := (node c)(next_node c := v),
       next_node := Suc (next_node c), iter_map := AList.update k (next_node c) (iter_map c)\<rparr>"

definition put ::
  "('p \<Rightarrow> 'w \<Rightarrow> 'v option outcome \<times> 'w) \<Rightarrow> ('p \<Rightarrow> 'k) \<Rightarrow> ('v \<Rightarrow> 'k) \<Rightarrow> 'p \<Rightarrow> ('k, 'v) lruCache \<Rightarrow> 'w \<Rightarrow>
     bool outcome \<times> ('k, 'v) lruCache \<times> 'w" where
  "put build cls path key c w =
     (if contains c (cls key) then (Returns False, c, w)
      else
        case build key w of
          (Undefined, w) \<Rightarrow> (Undefined, c, w)
        | (Throws e, w) \<Rightarrow> (Throws e, c, w)
        | (Returns None, w) \<Rightarrow> (Returns False, c, w)
        | (Returns (Some newNode), w) \<Rightarrow>
            (case make_room path c of
               Undefined \<Rightarrow> (Undefined, c, w)
             | Throws e \<Rightarrow> (Throws e, c, w)
             | Returns c \<Rightarrow> (Returns True, push_front (cls key) newNode c, w)))"

definition splice_front :: "nat \<Rightarrow> ('k, 'v) lruCache \<Rightarrow> ('k, 'v) lruCache" where
  "splice_front n c = c\<lparr>cacheList := n # remove1 n (cacheList c)\<rparr>"

definition cache_get ::
  "('p \<Rightarrow> 'w \<Rightarrow> 'v option outcome \<times> 'w) \<Rightarrow> ('p \<Rightarrow> 'k) \<Rightarrow> ('v \<Rightarrow> 'k) \<Rightarrow> 'p \<Rightarrow> ('k, 'v) lruCache \<Rightarrow> 'w \<Rightarrow>
     'v option outcome \<times> ('k, 'v) lruCache \<times> 'w" where
  "cache_get build cls path key c w =
     (if \<not> contains c (cls key) then
        case put build cls path key c w of
          (Undefined, c, w) \<Rightarrow> (Undefined, c, w)
        | (Throws e, c, w) \<Rightarrow> (Throws e, c, w)
        | (Returns False, c, w) \<Rightarrow> (Returns None, c, w)
        | (Returns True, c, w) \<Rightarrow> (Returns (Some (node c (the (map_of (iter_map c) (cls key))))), c, w)
      else
        let it = the (map_of (iter_map c) (cls key));
            c = (if it \<noteq> hd (cacheList c) then splice_front it c else c)
        in (Returns (Some (node c it)), c, w))"

definition refresh :: "('k, 'v) lruCache \<Rightarrow> ('k, 'v) lruCache" where
  "refresh c = c\<lparr>cacheList := [], iter_map := []\<rparr>"

datatype policy = LRU | LFU | FIFO

definition cacheFactory_create :: "32 word \<Rightarrow> policy \<Rightarrow> 'v \<Rightarrow> ('k, 'v) lruCache outcome" where
  "cacheFactory_create cap p v0 =
     (case p of
        LRU \<Rightarrow> Returns (new_lruCache cap v0)
      | LFU \<Rightarrow> Throws (RuntimeError ''Not implemented yet'')
      | FIFO \<Rightarrow> Throws (RuntimeError ''Not implemented yet''))"

subsection \<open>Specification\<close>

text \<open>The values in the cache, most recently used first.\<close>

definition cached :: "('k, 'v) lruCache \<Rightarrow> 'v list" where
  "cached c = map (node c) (cacheList c)"

definition spec_get ::
  "('p \<Rightarrow> 'w \<Rightarrow> 'v option outcome \<times> 'w) \<Rightarrow> ('p \<Rightarrow> 'k) \<Rightarrow> ('v \<Rightarrow> 'k) \<Rightarrow> nat \<Rightarrow> 'p \<Rightarrow> 'v list \<Rightarrow> 'w \<Rightarrow>
     'v option outcome \<times> 'v list \<times> 'w" where
  "spec_get build cls path cap key vs w =
     (case find (\<lambda>v. path v = cls key) vs of
        Some v \<Rightarrow> (Returns (Some v), v # filter (\<lambda>u. path u \<noteq> cls key) vs, w)
      | None \<Rightarrow>
          (case build key w of
             (Returns (Some v), w) \<Rightarrow> (Returns (Some v), take cap (v # vs), w)
           | (r, w) \<Rightarrow> (r, vs, w)))"

text \<open>
  The representation invariant: the map holds exactly one entry for each node of the list, under the
  path of the value in that node, and there are never more nodes than the capacity.
\<close>

definition lru_inv :: "('v \<Rightarrow> 'k) \<Rightarrow> ('k, 'v) lruCache \<Rightarrow> bool" where
  "lru_inv path c \<longleftrightarrow>
     distinct (cacheList c) \<and> distinct (map fst (iter_map c))
     \<and> set (iter_map c) = (\<lambda>n. (path (node c n), n)) ` set (cacheList c)
     \<and> (\<forall>n \<in> set (cacheList c). n < next_node c)
     \<and> 0 < unat (capacity c) \<and> length (cacheList c) \<le> unat (capacity c)"

locale value_builder =
  fixes build :: "'p \<Rightarrow> 'w \<Rightarrow> 'v option outcome \<times> 'w"
    and cls :: "'p \<Rightarrow> 'k"
    and path :: "'v \<Rightarrow> 'k"
  assumes build_path: "build k w = (Returns (Some v), w') \<Longrightarrow> path v = cls k"

subsection \<open>The invariant\<close>

lemma lru_lookup:
  "lru_inv path c \<Longrightarrow> map_of (iter_map c) k = Some n \<longleftrightarrow> n \<in> set (cacheList c) \<and> path (node c n) = k"
  by (auto simp: lru_inv_def map_of_eq_Some_iff)

lemma lru_contains: "lru_inv path c \<Longrightarrow> contains c k \<longleftrightarrow> (\<exists>v \<in> set (cached c). path v = k)"
  unfolding contains_def cached_def
  by (cases "map_of (iter_map c) k") (auto simp: lru_lookup map_of_eq_None_iff lru_inv_def image_iff)

lemma lru_same_node:
  assumes "lru_inv path c" and "n \<in> set (cacheList c)" and "m \<in> set (cacheList c)"
    and "path (node c n) = path (node c m)"
  shows "n = m"
  using assms(2-4) lru_lookup [OF assms(1), of "path (node c m)"] by (metis option.inject)

lemma lru_length: "lru_inv path c \<Longrightarrow> length (iter_map c) = length (cacheList c)"
proof -
  assume inv: "lru_inv path c"
  have "length (iter_map c) = card (set (iter_map c))"
    using inv unfolding lru_inv_def by (metis distinct_card distinct_map)
  also have "\<dots> = card (set (cacheList c))"
    using inv by (simp add: lru_inv_def card_image inj_on_def)
  also have "\<dots> = length (cacheList c)" using inv by (simp add: lru_inv_def distinct_card)
  finally show ?thesis .
qed

lemma lru_paths_distinct: "lru_inv path c \<Longrightarrow> distinct (map path (cached c))"
proof -
  assume inv: "lru_inv path c"
  then have "distinct (cacheList c)" by (simp add: lru_inv_def)
  moreover have "inj_on (path \<circ> node c) (set (cacheList c))"
    using lru_same_node [OF inv] by (auto simp: inj_on_def)
  ultimately show ?thesis by (simp add: cached_def distinct_map)
qed

lemma lru_inv_refresh [inv_intros]: "lru_inv path c \<Longrightarrow> lru_inv path (refresh c)"
  by (simp add: lru_inv_def refresh_def)

lemma lru_inv_new [inv_intros]: "0 < sint cap \<Longrightarrow> lru_inv path (new_lruCache cap v0)"
proof -
  assume "0 < sint cap"
  moreover have "sint (scast cap :: 64 word) = sint cap" by (rule sint_up_scast) (simp add: is_up)
  ultimately have "(scast cap :: 64 word) \<noteq> 0" by (metis less_irrefl sint_0)
  then show ?thesis by (simp add: lru_inv_def new_lruCache_def unat_gt_0)
qed

lemma make_room_result:
  assumes "lru_inv path c"
  obtains c1 where "make_room path c = Returns c1" and "lru_inv path c1"
    and "length (cacheList c1) < unat (capacity c1)" and "capacity c1 = capacity c"
    and "cached c1 = take (unat (capacity c) - 1) (cached c)"
    and "set (cached c1) \<subseteq> set (cached c)"
proof (cases "length (iter_map c) = unat (capacity c)")
  case False
  then have "make_room path c = Returns c" by (simp add: make_room_def)
  moreover have l: "length (cacheList c) < unat (capacity c)"
    using False assms lru_length [OF assms] by (simp add: lru_inv_def)
  moreover have "cached c = take (unat (capacity c) - 1) (cached c)"
    using l by (simp add: cached_def)
  ultimately show thesis using assms by (intro that [of c]) auto
next
  case True
  let ?xs = "butlast (cacheList c)" and ?x = "last (cacheList c)"
  have len: "length (cacheList c) = unat (capacity c)" "0 < unat (capacity c)"
    using True assms lru_length [OF assms] by (simp_all add: lru_inv_def)
  then have ne: "cacheList c \<noteq> []" by auto
  then have xs: "cacheList c = ?xs @ [?x]" by simp
  define c1 where "c1 = c\<lparr>iter_map := AList.delete (path (node c ?x)) (iter_map c), cacheList := ?xs\<rparr>"
  have r: "make_room path c = Returns c1" using True ne by (simp add: make_room_def c1_def)
  have dx: "distinct ?xs" "?x \<notin> set ?xs"
    using assms xs by (simp_all add: lru_inv_def) (metis distinct_append distinct_butlast not_distinct_conv_prefix)+
  have "set (iter_map c1) = {e \<in> set (iter_map c). fst e \<noteq> path (node c ?x)}"
    by (simp add: c1_def set_AList_delete)
  also have "\<dots> = (\<lambda>n. (path (node c n), n)) ` {n \<in> set (cacheList c). path (node c n) \<noteq> path (node c ?x)}"
    using assms by (auto simp: lru_inv_def)
  also have "{n \<in> set (cacheList c). path (node c n) \<noteq> path (node c ?x)} = set ?xs"
  proof -
    have "n = ?x" if "n \<in> set (cacheList c)" "path (node c n) = path (node c ?x)" for n
      using that ne by (intro lru_same_node [OF assms]) simp_all
    moreover have "set (cacheList c) = insert ?x (set ?xs)" by (subst xs) simp
    ultimately show ?thesis using dx(2) by auto
  qed
  finally have "set (iter_map c1) = (\<lambda>n. (path (node c1 n), n)) ` set (cacheList c1)"
    by (simp add: c1_def)
  moreover have "distinct (map fst (iter_map c1))"
    using assms by (simp add: lru_inv_def c1_def distinct_delete)
  moreover have "\<forall>n \<in> set ?xs. n < next_node c" using assms in_set_butlastD by (fastforce simp: lru_inv_def)
  ultimately have "lru_inv path c1" using dx(1) len by (simp add: lru_inv_def c1_def)
  moreover have "cached c1 = take (unat (capacity c) - 1) (cached c)"
    by (simp add: cached_def c1_def butlast_conv_take len(1) take_map)
  moreover have "set (cached c1) \<subseteq> set (cached c)"
    using in_set_butlastD by (fastforce simp: cached_def c1_def)
  ultimately show thesis using r len by (intro that [of c1]) (simp_all add: c1_def)
qed

lemma push_front_result:
  assumes "lru_inv path c" and "length (cacheList c) < unat (capacity c)"
    and "k \<notin> path ` set (cached c)" and "path v = k"
  shows "lru_inv path (push_front k v c)" and "cached (push_front k v c) = v # cached c"
    and "map_of (iter_map (push_front k v c)) k = Some (next_node c)"
proof -
  have fresh: "\<And>n. n \<in> set (cacheList c) \<Longrightarrow> n < next_node c" using assms(1) by (simp add: lru_inv_def)
  then have nn: "next_node c \<notin> set (cacheList c)" by blast
  have k: "k \<notin> fst ` set (iter_map c)"
    using assms(1,3) by (auto simp: lru_inv_def cached_def)
  have "set (iter_map (push_front k v c)) = insert (k, next_node c) (set (iter_map c))"
    using k by (simp add: push_front_def AList_update_new)
  also have "\<dots> = (\<lambda>n. (path (node (push_front k v c) n), n)) ` set (cacheList (push_front k v c))"
  proof -
    have "(\<lambda>n. (path (((node c)(next_node c := v)) n), n)) ` set (cacheList c) =
      (\<lambda>n. (path (node c n), n)) ` set (cacheList c)"
      using nn by (intro image_cong) auto
    then show ?thesis using assms(1,4) by (simp add: lru_inv_def push_front_def)
  qed
  finally have "set (iter_map (push_front k v c)) =
    (\<lambda>n. (path (node (push_front k v c) n), n)) ` set (cacheList (push_front k v c))" .
  then show inv: "lru_inv path (push_front k v c)"
    using assms(1,2) nn k fresh
    by (auto simp: lru_inv_def push_front_def AList_update_new less_Suc_eq)
  show "cached (push_front k v c) = v # cached c"
    using nn by (auto simp: cached_def push_front_def)
  show "map_of (iter_map (push_front k v c)) k = Some (next_node c)"
    unfolding lru_lookup [OF inv] using assms(4) by (simp add: push_front_def)
qed

lemma splice_result:
  assumes "lru_inv path c" and "n \<in> set (cacheList c)"
  shows "lru_inv path (splice_front n c)"
    and "cached (splice_front n c) = node c n # filter (\<lambda>u. path u \<noteq> path (node c n)) (cached c)"
    and "n = hd (cacheList c) \<Longrightarrow> splice_front n c = c"
proof -
  have d: "distinct (cacheList c)" using assms(1) by (simp add: lru_inv_def)
  have s: "insert n (set (remove1 n (cacheList c))) = set (cacheList c)"
    using d assms(2) by auto
  have l: "Suc (length (remove1 n (cacheList c))) = length (cacheList c)"
    using assms(2) by (simp add: length_remove1) (metis Suc_pred length_pos_if_in_set)
  show "lru_inv path (splice_front n c)"
    using assms(1) d s l by (simp add: lru_inv_def splice_front_def)
  have "remove1 n (cacheList c) = filter (\<lambda>m. m \<noteq> n) (cacheList c)"
    using d by (simp add: distinct_remove1_removeAll removeAll_filter_not_eq) (metis (full_types))
  also have "\<dots> = filter (\<lambda>m. path (node c m) \<noteq> path (node c n)) (cacheList c)"
    using lru_same_node [OF assms(1) _ assms(2)] by (intro filter_cong) auto
  finally show "cached (splice_front n c) = node c n # filter (\<lambda>u. path u \<noteq> path (node c n)) (cached c)"
    by (simp add: cached_def splice_front_def filter_map comp_def)
  show "splice_front n c = c" if "n = hd (cacheList c)"
    using that assms(2) by (cases "cacheList c") (simp_all add: splice_front_def)
qed

subsection \<open>The cache implements its specification\<close>

context value_builder begin

lemma get_hit:
  assumes inv: "lru_inv path c" and "contains c (cls key)"
  shows "\<exists>c' r. cache_get build cls path key c w = (r, c', w) \<and> lru_inv path c' \<and> capacity c' = capacity c \<and>
    spec_get build cls path cap key (cached c) w = (r, cached c', w)"
proof -
  from assms(2) obtain n where n: "map_of (iter_map c) (cls key) = Some n" by (auto simp: contains_def)
  then have m: "n \<in> set (cacheList c)" "path (node c n) = cls key" using lru_lookup [OF inv] by auto
  have "find (\<lambda>v. path v = cls key) (cached c) = Some (node c n)"
  proof (rule find_unique)
    show "node c n \<in> set (cached c)" "path (node c n) = cls key" using m by (simp_all add: cached_def)
    show "\<And>v. v \<in> set (cached c) \<Longrightarrow> path v = cls key \<Longrightarrow> v = node c n"
      using lru_same_node [OF inv _ m(1)] m(2) by (auto simp: cached_def)
  qed
  then have sp: "spec_get build cls path cap key (cached c) w =
    (Returns (Some (node c n)), node c n # filter (\<lambda>u. path u \<noteq> cls key) (cached c), w)"
    by (simp add: spec_get_def)
  have "cache_get build cls path key c w = (Returns (Some (node c n)), splice_front n c, w)"
    using assms(2) n splice_result(3) [OF inv m(1)]
    by (auto simp: cache_get_def Let_def splice_front_def)
  with sp splice_result(1,2) [OF inv m(1)] m(2) show ?thesis
    by (simp add: splice_front_def)
qed

lemma get_miss:
  assumes inv: "lru_inv path c" and "\<not> contains c (cls key)"
    and res: "cache_get build cls path key c w = (r, c', w')"
  shows "lru_inv path c' \<and> capacity c' = capacity c \<and>
    spec_get build cls path (unat (capacity c)) key (cached c) w = (r, cached c', w')"
proof -
  have nk: "cls key \<notin> path ` set (cached c)" using assms(2) lru_contains [OF inv] by auto
  then have fn: "find (\<lambda>v. path v = cls key) (cached c) = None" unfolding find_None_iff by (metis imageI)
  obtain b w1 where b: "build key w = (b, w1)" by fastforce
  show ?thesis
  proof (cases "\<exists>v. b = Returns (Some v)")
    case False
    with assms b fn show ?thesis
      by (cases b) (auto simp: cache_get_def put_def spec_get_def split: option.splits)
  next
    case True
    then obtain v where v: "b = Returns (Some v)" by blast
    with b have pv: "path v = cls key" using build_path by simp
    obtain c1 where c1: "make_room path c = Returns c1" "lru_inv path c1"
      "length (cacheList c1) < unat (capacity c1)" "capacity c1 = capacity c"
      "cached c1 = take (unat (capacity c) - 1) (cached c)" "set (cached c1) \<subseteq> set (cached c)"
      using make_room_result [OF inv] by blast
    have "cls key \<notin> path ` set (cached c1)" using nk c1(6) by blast
    note pf = push_front_result [OF c1(2,3) this pv]
    have "r = Returns (Some v)" "c' = push_front (cls key) v c1" "w' = w1"
      using res assms(2) b v c1(1) pf(3)
      by (auto simp: cache_get_def put_def push_front_def)
    moreover have "capacity (push_front (cls key) v c1) = capacity c" using c1(4) by (simp add: push_front_def)
    moreover have "take (unat (capacity c)) (v # cached c) = v # cached c1"
      using c1(3-5) by (cases "unat (capacity c)") auto
    ultimately show ?thesis using pf(1,2) fn b v by (simp add: spec_get_def)
  qed
qed

lemma get_refines:
  assumes "lru_inv path c" and "cache_get build cls path key c w = (r, c', w')"
  shows "lru_inv path c' \<and> capacity c' = capacity c \<and>
    spec_get build cls path (unat (capacity c)) key (cached c) w = (r, cached c', w')"
proof (cases "contains c (cls key)")
  case True
  from get_hit [OF assms(1) True, of w] assms(2) show ?thesis by auto
next
  case False
  then show ?thesis using get_miss assms by blast
qed

text \<open>The only undefined result is one of the builder's.\<close>

lemma get_defined:
  assumes "lru_inv path c" and "fst (build key w) \<noteq> Undefined"
  shows "fst (cache_get build cls path key c w) \<noteq> Undefined"
proof -
  obtain r c' w' where g: "cache_get build cls path key c w = (r, c', w')" by (metis prod.exhaust)
  from get_refines [OF assms(1) g] assms(2) g show ?thesis
    by (cases "build key w") (auto simp: spec_get_def split: option.splits outcome.splits)
qed

end

subsection \<open>The recently used stay\<close>

text \<open>A sequence of calls of \<^verbatim>\<open>get\<close>, successful or not.\<close>

fun get_all ::
  "('p \<Rightarrow> 'w \<Rightarrow> 'v option outcome \<times> 'w) \<Rightarrow> ('p \<Rightarrow> 'k) \<Rightarrow> ('v \<Rightarrow> 'k) \<Rightarrow> 'p list \<Rightarrow> ('k, 'v) lruCache \<Rightarrow> 'w \<Rightarrow>
     ('k, 'v) lruCache \<times> 'w" where
  "get_all build cls path [] c w = (c, w)"
| "get_all build cls path (k # ks) c w =
     (case cache_get build cls path k c w of (_, c, w) \<Rightarrow> get_all build cls path ks c w)"

text \<open>\<open>v\<close> is in the list with only values of keys from \<open>S\<close> before it.\<close>

definition behind :: "('v \<Rightarrow> 'k) \<Rightarrow> 'k set \<Rightarrow> 'v \<Rightarrow> 'v list \<Rightarrow> bool" where
  "behind path S v vs \<longleftrightarrow> (\<exists>pre post. vs = pre @ v # post \<and> path ` set pre \<subseteq> S)"

lemma behind_length:
  assumes "distinct (map path pre)" and "path ` set pre \<subseteq> S" and "finite S"
  shows "length pre \<le> card S"
  using assms by (metis card_mono distinct_card length_map list.set_map)

context value_builder begin

lemma spec_get_behind:
  assumes "spec_get build cls path cap k vs w = (r, vs', w')" and "behind path S v vs"
    and "distinct (map path vs)" and "finite S" and "card S < cap" and "path v \<notin> S"
    and "cls k \<in> S \<or> cls k = path v" and "distinct (map path vs')"
  shows "behind path S v vs'"
proof -
  obtain pre post where vs: "vs = pre @ v # post" "path ` set pre \<subseteq> S"
    using assms(2) by (auto simp: behind_def)
  show ?thesis
  proof (cases "find (\<lambda>u. path u = cls k) vs")
    case (Some u)
    then have u: "path u = cls k" "u \<in> set vs" by (auto simp: find_Some_iff)
    have vs': "vs' = u # filter (\<lambda>x. path x \<noteq> cls k) vs"
      using assms(1) Some by (simp add: spec_get_def)
    show ?thesis
    proof (cases "cls k = path v")
      case True
      have "u = v" using distinct_key [OF assms(3) u(2)] u(1) True vs(1) by simp
      then show ?thesis unfolding behind_def vs' by (intro exI [of _ "[]"] exI) simp
    next
      case False
      then have "vs' = (u # filter (\<lambda>x. path x \<noteq> cls k) pre) @ v # filter (\<lambda>x. path x \<noteq> cls k) post"
        using vs(1) vs' by simp
      moreover have "path ` set (u # filter (\<lambda>x. path x \<noteq> cls k) pre) \<subseteq> S"
        using vs(2) u(1) False assms(7) by auto
      ultimately show ?thesis unfolding behind_def by blast
    qed
  next
    case None
    then have k: "cls k \<notin> path ` set vs" by (auto simp: find_None_iff)
    with vs(1) assms(7) have kS: "cls k \<in> S" by auto
    show ?thesis
    proof (cases "\<exists>u w1. build k w = (Returns (Some u), w1)")
      case False
      obtain b w1 where b: "build k w = (b, w1)" by fastforce
      with False have "vs' = vs"
        using assms(1) None by (cases b) (auto simp: spec_get_def split: option.splits)
      with assms(2) show ?thesis by simp
    next
      case True
      then obtain u w1 where b: "build k w = (Returns (Some u), w1)" by blast
      then have vs': "vs' = take cap (u # vs)" using assms(1) None by (simp add: spec_get_def)
      have "insert (cls k) (path ` set pre) \<subseteq> S" using vs(2) kS by blast
      then have "card (insert (cls k) (path ` set pre)) \<le> card S" using assms(4) by (simp add: card_mono)
      moreover have "card (path ` set pre) = length pre"
        using assms(3) vs(1) by (simp add: card_image distinct_map distinct_card)
      moreover have "cls k \<notin> path ` set pre" using k vs(1) by auto
      ultimately have "length pre + 1 < cap" using assms(5) by (simp add: card_insert_if)
      then have "vs' = (u # pre) @ v # take (cap - Suc (Suc (length pre))) post"
        using vs(1) vs' by (cases cap) (simp_all add: take_Cons')
      moreover have "path u \<in> S" using build_path [OF b] kS by simp
      ultimately show ?thesis
        unfolding behind_def using vs(2)
        by (intro exI [of _ "u # pre"] exI [of _ "take (cap - Suc (Suc (length pre))) post"]) simp
    qed
  qed
qed

lemma get_all_behind:
  assumes "lru_inv path c" and "behind path S v (cached c)" and "finite S"
    and "card S < unat (capacity c)" and "path v \<notin> S" and "cls ` set ks \<subseteq> insert (path v) S"
    and "get_all build cls path ks c w = (c', w')"
  shows "lru_inv path c' \<and> behind path S v (cached c')"
  using assms(1,2,4,6,7)
proof (induction ks arbitrary: c w)
  case Nil
  then show ?case by simp
next
  case (Cons k ks)
  obtain r c1 w1 where g: "cache_get build cls path k c w = (r, c1, w1)" by (metis prod.exhaust)
  note ref = get_refines [OF Cons.prems(1) g]
  then have inv1: "lru_inv path c1" and cap1: "capacity c1 = capacity c" by auto
  have "behind path S v (cached c1)"
  proof (rule spec_get_behind [OF _ Cons.prems(2) lru_paths_distinct [OF Cons.prems(1)] assms(3)
        Cons.prems(3) assms(5) _ lru_paths_distinct [OF inv1]])
    show "spec_get build cls path (unat (capacity c)) k (cached c) w = (r, cached c1, w1)" using ref by blast
    show "cls k \<in> S \<or> cls k = path v" using Cons.prems(4) by auto
  qed
  from Cons.IH [OF inv1 this] Cons.prems g cap1 show ?case by simp
qed

text \<open>
  A key that was just obtained stays in the cache while fewer other keys than the capacity are asked
  for, however often and in whatever order.
\<close>

lemma recently_used_stays:
  assumes "lru_inv path c" and "cache_get build cls path key c w = (Returns (Some v), c1, w1)"
    and "card (cls ` set ks - {cls key}) < unat (capacity c)" and "get_all build cls path ks c1 w1 = (c2, w2)"
  shows "\<exists>c3. cache_get build cls path key c2 w2 = (Returns (Some v), c3, w2)"
proof -
  let ?S = "cls ` set ks - {cls key}"
  note ref = get_refines [OF assms(1,2)]
  then have inv1: "lru_inv path c1" and cap1: "capacity c1 = capacity c" by auto
  have "path v = cls key \<and> (\<exists>post. cached c1 = v # post)"
  proof (cases "find (\<lambda>u. path u = cls key) (cached c)")
    case None
    with ref obtain w' where "build key w = (Returns (Some v), w')"
      "cached c1 = take (unat (capacity c)) (v # cached c)"
      by (auto simp: spec_get_def split: prod.splits outcome.splits option.splits)
    moreover have "0 < unat (capacity c)" using assms(1) by (simp add: lru_inv_def)
    ultimately show ?thesis using build_path by (auto simp: take_Cons')
  next
    case (Some u)
    then have "path u = cls key" by (auto simp: find_Some_iff)
    moreover have "u = v" "cached c1 = u # filter (\<lambda>x. path x \<noteq> cls key) (cached c)"
      using ref Some by (auto simp: spec_get_def)
    ultimately show ?thesis by blast
  qed
  then have pv: "path v = cls key" and "behind path ?S v (cached c1)"
    by (auto simp: behind_def intro: exI [of _ "[]"])
  with get_all_behind [OF inv1 _ _ _ _ _ assms(4), of ?S v] assms(3) cap1
  have inv2: "lru_inv path c2" and "behind path ?S v (cached c2)" by auto
  then have v: "v \<in> set (cached c2)" by (auto simp: behind_def)
  then have "contains c2 (cls key)" using pv lru_contains [OF inv2] by auto
  moreover have "find (\<lambda>u. path u = cls key) (cached c2) = Some v"
    using v pv lru_paths_distinct [OF inv2]
    by (intro find_unique) (auto intro: distinct_key)
  ultimately show ?thesis
    using get_hit [OF inv2, of key w2 0] by (auto simp: spec_get_def)
qed

end

end
