(* ===== verification/FileCache.thy ===== *)
theory FileCache
  imports Lru FsPath
begin

text \<open>
  Files and the file cache (\<^verbatim>\<open>include/file/File.hpp\<close>, \<^verbatim>\<open>include/file/FileCache.hpp\<close>).

  The system calls (\<^verbatim>\<open>open\<close>, \<^verbatim>\<open>close\<close>, \<^verbatim>\<open>mmap\<close>) and
  \<^verbatim>\<open>std::filesystem::file_size\<close>, which asks the operating system, are the parameter \<open>os\<close>:
  functions of the outside world \<open>'w\<close>.  A path is handed over as a C string, so it ends at the first
  null character.  \<^verbatim>\<open>file_size\<close> either gives a size or throws.
\<close>

record 'w os =
  os_open :: "string \<Rightarrow> 'w \<Rightarrow> sysret \<times> 'w"
  os_close :: "int \<Rightarrow> 'w \<Rightarrow> 'w"
  os_file_size :: "string \<Rightarrow> 'w \<Rightarrow> int + 64 word"
  os_mmap :: "64 word \<Rightarrow> int \<Rightarrow> 'w \<Rightarrow> nat option \<times> 'w"
  os_munmap :: "nat \<Rightarrow> 64 word \<Rightarrow> 'w \<Rightarrow> 'w"

definition c_str :: "string \<Rightarrow> string" where
  "c_str s = takeWhile (\<lambda>c. c \<noteq> CHR 0x00) s"

subsection \<open>regularFile\<close>

record regularFile =
  rf_fd :: int
  rf_size :: "64 word"

definition new_regularFile :: regularFile where
  "new_regularFile = \<lparr>rf_fd = -1, rf_size = 0\<rparr>"

text \<open>
  The result of \<open>open\<close> is an outcome: \<^verbatim>\<open>file_size\<close> throws.  The test \<^verbatim>\<open>size < 0\<close> of an
  unsigned number never holds; it is kept as the code has it.
\<close>

definition regularFile_open ::
  "'w os \<Rightarrow> path \<Rightarrow> regularFile \<Rightarrow> 'w \<Rightarrow> (error_code + unit) outcome \<times> regularFile \<times> 'w" where
  "regularFile_open os p f w =
     (let w = (if rf_fd f \<ge> 0 then os_close os (rf_fd f) w else w);
          (r, w) = os_open os (c_str p) w;
          f = f\<lparr>rf_fd := ret r\<rparr>
      in if ret r < 0 then (Returns (Inl (system_error_code (errno r))), f, w)
         else case os_file_size os (c_str p) w of
                Inl e \<Rightarrow> (Throws (FilesystemError e), f, w)
              | Inr n \<Rightarrow>
                  let f = f\<lparr>rf_size := n\<rparr>
                  in if rf_size f < 0 then (Returns (Inl (system_error_code (errno r))), f, w)
                     else (Returns (Inr ()), f, w))"

text \<open>The move constructor leaves the source without a descriptor; the destructor closes.\<close>

definition regularFile_move :: "regularFile \<Rightarrow> regularFile \<times> regularFile" where
  "regularFile_move other = (other, other\<lparr>rf_fd := -1, rf_size := 0\<rparr>)"

definition regularFile_destroy :: "'w os \<Rightarrow> regularFile \<Rightarrow> 'w \<Rightarrow> 'w" where
  "regularFile_destroy os f w = (if rf_fd f \<ge> 0 then os_close os (rf_fd f) w else w)"

subsection \<open>fileCache and fileCacheBuilder\<close>

text \<open>\<open>mLoc\<close> is the span of the mapping: address and length, \<open>None\<close> for the empty span.\<close>

record fileCache =
  mLoc :: "(nat \<times> 64 word) option"
  mFile :: regularFile
  mPath :: path

definition new_fileCache :: fileCache where
  "new_fileCache = \<lparr>mLoc = None, mFile = new_regularFile, mPath = []\<rparr>"

definition fc_data :: "fileCache \<Rightarrow> nat option" where
  "fc_data fc = map_option fst (mLoc fc)"

definition fc_size :: "fileCache \<Rightarrow> 64 word" where
  "fc_size fc = (case mLoc fc of None \<Rightarrow> 0 | Some (_, n) \<Rightarrow> n)"

definition fc_path :: "fileCache \<Rightarrow> path" where
  "fc_path fc = mPath fc"

text \<open>The key of a file, as the map of the cache compares it.\<close>

definition fc_key :: "fileCache \<Rightarrow> string list" where
  "fc_key fc = path_key (fc_path fc)"

definition fc_map :: "'w os \<Rightarrow> fileCache \<Rightarrow> 'w \<Rightarrow> bool \<times> fileCache \<times> 'w" where
  "fc_map os fc w =
     (case os_mmap os (rf_size (mFile fc)) (rf_fd (mFile fc)) w of
        (None, w) \<Rightarrow> (False, fc, w)
      | (Some ptr, w) \<Rightarrow> (True, fc\<lparr>mLoc := Some (ptr, rf_size (mFile fc))\<rparr>, w))"

text \<open>The destructor unmaps what was mapped; then the file is destroyed as a member.\<close>

definition fileCache_destroy :: "'w os \<Rightarrow> fileCache \<Rightarrow> 'w \<Rightarrow> 'w" where
  "fileCache_destroy os fc w =
     regularFile_destroy os (mFile fc)
       (case fc_data fc of None \<Rightarrow> w | Some ptr \<Rightarrow> os_munmap os ptr (fc_size fc) w)"

text \<open>
  The builder: a null pointer when the file cannot be opened; the result of \<open>map\<close> is not looked at.
  When it does not return the new object, that object is destroyed and closes its descriptor.
\<close>

definition fileCacheBuilder_build :: "'w os \<Rightarrow> path \<Rightarrow> 'w \<Rightarrow> fileCache option outcome \<times> 'w" where
  "fileCacheBuilder_build os p w =
     (case regularFile_open os p (mFile new_fileCache) w of
        (Undefined, _, w) \<Rightarrow> (Undefined, w)
      | (Throws e, f, w) \<Rightarrow> (Throws e, regularFile_destroy os f w)
      | (Returns (Inl _), f, w) \<Rightarrow> (Returns None, regularFile_destroy os f w)
      | (Returns (Inr _), f, w) \<Rightarrow>
          let fc = new_fileCache\<lparr>mFile := f, mPath := p\<rparr>;
              (_, fc, w) = fc_map os fc w
          in (Returns (Some fc), w))"

text \<open>The cache the server uses: paths are compared with their \<^verbatim>\<open>operator==\<close>.\<close>

type_synonym file_cache = "(string list, fileCache) lruCache"

definition fileCache_get ::
  "'w os \<Rightarrow> path \<Rightarrow> file_cache \<Rightarrow> 'w \<Rightarrow> fileCache option outcome \<times> file_cache \<times> 'w" where
  "fileCache_get os = cache_get (fileCacheBuilder_build os) path_key fc_key"

lemma fileCacheBuilder_path:
  "fileCacheBuilder_build os p w = (Returns (Some fc), w') \<Longrightarrow> fc_path fc = p"
  by (auto simp: fileCacheBuilder_build_def fc_map_def fc_path_def Let_def
      split: prod.splits outcome.splits sum.splits option.splits)

interpretation fcb: value_builder "fileCacheBuilder_build os" path_key fc_key
  by unfold_locales (simp add: fc_key_def fileCacheBuilder_path)

subsection \<open>Descriptors\<close>

text \<open>
  What the descriptor table of a process does: \<open>fds w\<close> is the set of open descriptors.  A successful
  \<^verbatim>\<open>open\<close> gives a descriptor that was free, \<^verbatim>\<open>close\<close> frees one, \<^verbatim>\<open>mmap\<close>
  changes none.
\<close>

definition os_fd_laws :: "'w os \<Rightarrow> ('w \<Rightarrow> int set) \<Rightarrow> bool" where
  "os_fd_laws os fds \<longleftrightarrow>
     (\<forall>s w. let (r, w') = os_open os s w in
        if ret r < 0 then fds w' = fds w
        else ret r \<notin> fds w \<and> fds w' = insert (ret r) (fds w))
     \<and> (\<forall>fd w. fds (os_close os fd w) = fds w - {fd})
     \<and> (\<forall>n fd w. fds (snd (os_mmap os n fd w)) = fds w)
     \<and> (\<forall>a n w. fds (os_munmap os a n w) = fds w)"

lemma os_fd_lawsD:
  assumes "os_fd_laws os fds"
  shows "os_open os s w = (r, w') \<Longrightarrow> ret r < 0 \<Longrightarrow> fds w' = fds w"
    and "os_open os s w = (r, w') \<Longrightarrow> \<not> ret r < 0 \<Longrightarrow> ret r \<notin> fds w \<and> fds w' = insert (ret r) (fds w)"
    and "fds (os_close os fd w) = fds w - {fd}"
    and "os_mmap os n fd w = (q, w') \<Longrightarrow> fds w' = fds w"
    and "fds (os_munmap os a n w) = fds w"
proof -
  note l = assms [unfolded os_fd_laws_def]
  note o = l [THEN conjunct1, rule_format, of s w]
  note c = l [THEN conjunct2, THEN conjunct1, rule_format, of fd w]
  note m = l [THEN conjunct2, THEN conjunct2, THEN conjunct1, rule_format, of n fd w]
  show "fds (os_munmap os a n w) = fds w"
    by (rule l [THEN conjunct2, THEN conjunct2, THEN conjunct2, rule_format])
  show "os_open os s w = (r, w') \<Longrightarrow> ret r < 0 \<Longrightarrow> fds w' = fds w"
    and "os_open os s w = (r, w') \<Longrightarrow> \<not> ret r < 0 \<Longrightarrow> ret r \<notin> fds w \<and> fds w' = insert (ret r) (fds w)"
    using o by simp_all
  show "fds (os_close os fd w) = fds w - {fd}" by (rule c)
  show "os_mmap os n fd w = (q, w') \<Longrightarrow> fds w' = fds w" using m by simp
qed

lemma regularFile_open_fresh:
  assumes "regularFile_open os p new_regularFile w = (r, f, w')"
  shows "\<exists>q w1. os_open os (c_str p) w = (q, w1) \<and> w' = w1 \<and> rf_fd f = ret q \<and>
    (if ret q < 0 then r = Returns (Inl (system_error_code (errno q)))
     else r = Returns (Inr ()) \<or> (\<exists>e. r = Throws (FilesystemError e)))"
proof -
  obtain q w1 where q: "os_open os (c_str p) w = (q, w1)" by fastforce
  show ?thesis
  proof (cases "ret q < 0")
    case True
    with assms q show ?thesis by (auto simp: regularFile_open_def new_regularFile_def)
  next
    case False
    with assms q show ?thesis
      by (cases "os_file_size os (c_str p) w1") (auto simp: regularFile_open_def new_regularFile_def)
  qed
qed

lemma fc_map_file: "fc_map os fc w = (b, fc', w') \<Longrightarrow> mFile fc' = mFile fc \<and> mPath fc' = mPath fc"
  by (auto simp: fc_map_def split: prod.splits option.splits)

lemma fc_map_fds: "os_fd_laws os fds \<Longrightarrow> fc_map os fc w = (b, fc', w') \<Longrightarrow> fds w' = fds w"
  by (auto simp: fc_map_def dest: os_fd_lawsD(4) split: prod.splits option.splits)

subsection \<open>Properties\<close>

text \<open>
  C15: the cache implements a bounded most-recently-used list.  Every call of \<^verbatim>\<open>get\<close> returns
  what the specification returns, builds exactly when the specification does (the outside world ends
  up the same), keeps the representation invariant and the capacity.  A path is found if it is equal to one in the
  cache, however the separators are repeated.
\<close>

theorem fileCache_get_refines:
  assumes "lru_inv fc_key c" and "fileCache_get os p c w = (r, c', w')"
  shows "lru_inv fc_key c' \<and> capacity c' = capacity c \<and>
    spec_get (fileCacheBuilder_build os) path_key fc_key (unat (capacity c)) p (cached c) w = (r, cached c', w')"
  using assms unfolding fileCache_get_def by (rule fcb.get_refines)

text \<open>A system in which every file is there: for the concrete instances below.\<close>

definition demo_os :: "int list os" where
  "demo_os =
     \<lparr>os_open = (\<lambda>s w. let fd = fold max w (-1) + 1 in
                   if s = ''/gone'' then (\<lparr>ret = -1, errno = 2\<rparr>, w)
                   else (\<lparr>ret = fd, errno = 0\<rparr>, fd # w)),
      os_close = (\<lambda>fd w. removeAll fd w),
      os_file_size = (\<lambda>s w. if s = ''/dir.d'' then Inl 21 else Inr 10),
      os_mmap = (\<lambda>n fd w. (if n = 0 then None else Some 4096, w)),
      os_munmap = (\<lambda>a n w. w)\<rparr>"

lemma demo_build:
  "fileCacheBuilder_build demo_os ''/a.txt'' [] =
     (Returns (Some \<lparr>mLoc = Some (4096, 10), mFile = \<lparr>rf_fd = 0, rf_size = 10\<rparr>, mPath = ''/a.txt''\<rparr>), [0])"
  by (simp add: fileCacheBuilder_build_def regularFile_open_def demo_os_def new_fileCache_def
      new_regularFile_def fc_map_def c_str_def)

lemma demo_get:
  "\<exists>c'. fileCache_get demo_os ''/a.txt'' (new_lruCache 2 new_fileCache) [] =
     (Returns (Some \<lparr>mLoc = Some (4096, 10), mFile = \<lparr>rf_fd = 0, rf_size = 10\<rparr>, mPath = ''/a.txt''\<rparr>), c', [0])"
proof -
  let ?c = "new_lruCache 2 new_fileCache :: file_cache"
  have inv: "lru_inv fc_key ?c" by (rule lru_inv_new) simp
  obtain r c1 w1 where g: "fileCache_get demo_os ''/a.txt'' ?c [] = (r, c1, w1)" by (metis prod.exhaust)
  with fcb.get_refines [OF inv, of demo_os "''/a.txt''" "[]"] show ?thesis
    by (auto simp: fileCache_get_def spec_get_def demo_build cached_def new_lruCache_def)
qed

theorem fileCache_get_refines_witness:
  "\<exists>f c' w' c2. fileCache_get demo_os ''/a.txt'' (new_lruCache 2 new_fileCache) [] = (Returns (Some f), c', w') \<and>
     fileCache_get demo_os ''//a.txt'' c' w' = (Returns (Some f), c2, w')"
proof -
  let ?f = "\<lparr>mLoc = Some (4096, 10), mFile = \<lparr>rf_fd = 0, rf_size = 10\<rparr>, mPath = ''/a.txt''\<rparr>"
  obtain c' where g: "fileCache_get demo_os ''/a.txt'' (new_lruCache 2 new_fileCache) [] = (Returns (Some ?f), c', [0])"
    using demo_get by blast
  have "lru_inv fc_key (new_lruCache 2 new_fileCache)" by (rule lru_inv_new) simp
  from fileCache_get_refines [OF this g] have c: "lru_inv fc_key c'" "cached c' = [?f]"
    by (auto simp: spec_get_def demo_build cached_def new_lruCache_def)
  obtain r c2 w2 where g2: "fileCache_get demo_os ''//a.txt'' c' [0] = (r, c2, w2)" by (metis prod.exhaust)
  have "path_key ''//a.txt'' = fc_key ?f" by code_simp
  then have "(r, w2) = (Returns (Some ?f), [0])"
    using fileCache_get_refines [OF c(1) g2] by (simp add: c(2) spec_get_def)
  with g g2 show ?thesis by blast
qed

text \<open>
  The recently used stay.  A file that was just obtained is given out again, unchanged and without
  any access to the file system, as long as fewer other paths than the capacity were asked for since,
  however often and in whatever order, found or not.
\<close>

lemma fileCache_recently_used_stays:
  assumes "lru_inv fc_key c" and "fileCache_get os p c w = (Returns (Some fc), c1, w1)"
    and "card (path_key ` set ps - {path_key p}) < unat (capacity c)"
    and "get_all (fileCacheBuilder_build os) path_key fc_key ps c1 w1 = (c2, w2)"
  shows "\<exists>c3. fileCache_get os p c2 w2 = (Returns (Some fc), c3, w2)"
  using assms unfolding fileCache_get_def by (rule fcb.recently_used_stays)

text \<open>
  The builder leaks no descriptor.  Whether the file cannot be opened, \<^verbatim>\<open>file_size\<close> throws,
  or the build succeeds, afterwards exactly the descriptors that were open before are open, and in
  addition, only on success, the one the new object owns; its destructor closes it.
\<close>

lemma fileCache_destroy_fds:
  "os_fd_laws os fds \<Longrightarrow> 0 \<le> rf_fd (mFile fc) \<Longrightarrow> fds (fileCache_destroy os fc w) = fds w - {rf_fd (mFile fc)}"
  by (cases "fc_data fc") (simp_all add: fileCache_destroy_def regularFile_destroy_def os_fd_lawsD)

lemma build_fds:
  assumes "os_fd_laws os fds" and "fileCacheBuilder_build os p w = (r, w')"
  shows "case r of
      Returns (Some fc) \<Rightarrow> fds w' = insert (rf_fd (mFile fc)) (fds w) \<and> rf_fd (mFile fc) \<notin> fds w \<and> 0 \<le> rf_fd (mFile fc)
    | Undefined \<Rightarrow> False
    | _ \<Rightarrow> fds w' = fds w"
proof -
  obtain r1 f w1 where o: "regularFile_open os p new_regularFile w = (r1, f, w1)" by (metis prod.exhaust)
  obtain q where q: "os_open os (c_str p) w = (q, w1)" "rf_fd f = ret q"
    and r1: "if ret q < 0 then r1 = Returns (Inl (system_error_code (errno q)))
      else r1 = Returns (Inr ()) \<or> (\<exists>e. r1 = Throws (FilesystemError e))"
    using regularFile_open_fresh [OF o] by blast
  note laws = os_fd_lawsD [OF assms(1)]
  have b: "(r, w') =
    (case r1 of
       Undefined \<Rightarrow> (Undefined, w1)
     | Throws e \<Rightarrow> (Throws e, regularFile_destroy os f w1)
     | Returns (Inl _) \<Rightarrow> (Returns None, regularFile_destroy os f w1)
     | Returns (Inr _) \<Rightarrow>
         (case fc_map os (new_fileCache\<lparr>mFile := f, mPath := p\<rparr>) w1 of
            (_, fc, w) \<Rightarrow> (Returns (Some fc), w)))"
    using assms(2) o by (simp add: fileCacheBuilder_build_def new_fileCache_def split: outcome.splits sum.splits)
  show ?thesis
  proof (cases "ret q < 0")
    case True
    then have "r = Returns None" "w' = w1" using b r1 q(2) by (simp_all add: regularFile_destroy_def)
    with laws(1) [OF q(1) True] show ?thesis by simp
  next
    case False
    note op = laws(2) [OF q(1) False]
    from r1 False consider "r1 = Returns (Inr ())" | e where "r1 = Throws (FilesystemError e)" by auto
    then show ?thesis
    proof cases
      case 1
      obtain d fc w2 where m: "fc_map os (new_fileCache\<lparr>mFile := f, mPath := p\<rparr>) w1 = (d, fc, w2)"
        by (metis prod.exhaust)
      then have "fds w2 = fds w1" "mFile fc = f"
        using fc_map_fds [OF assms(1) m] fc_map_file [OF m] by simp_all
      then show ?thesis using b 1 m op q(2) False by simp
    next
      case 2
      then have "fds w' = fds w1 - {ret q}" using b q(2) False by (simp add: regularFile_destroy_def laws(3))
      with b 2 op show ?thesis by simp
    qed
  qed
qed

lemma fold_max_start: "m \<le> fold max xs (m::int)"
proof (induction xs arbitrary: m)
  case (Cons x xs)
  from Cons.IH [of "max x m"] show ?case by simp
qed simp

lemma fold_max_bound: "x \<in> set xs \<Longrightarrow> x \<le> fold max xs (m::int)"
proof (induction xs arbitrary: m)
  case (Cons y ys)
  have "y \<le> fold max ys (max y m)" using fold_max_start [of "max y m" ys] by simp
  with Cons show ?case by auto
qed simp

lemma demo_os_laws: "os_fd_laws demo_os set"
proof -
  have "fold max w (-1) + 1 \<notin> set w" for w :: "int list"
    using fold_max_bound [of "fold max w (-1) + 1" w "-1"] by auto
  moreover have "\<not> fold max w (-1) + 1 < (0::int)" for w using fold_max_start [of "-1" w] by simp
  ultimately show ?thesis by (auto simp: os_fd_laws_def demo_os_def Let_def)
qed

text \<open>
  A file that cannot be mapped is served as an empty one.  When \<^verbatim>\<open>open\<close> and
  \<^verbatim>\<open>file_size\<close> succeed and \<^verbatim>\<open>mmap\<close> fails, the builder still returns an object, with no
  data and size 0 whatever the size of the file is, because the result of \<^verbatim>\<open>map()\<close> is dropped.
\<close>

lemma mmap_failure_gives_empty_file:
  assumes "os_open os (c_str p) w = (q, w1)" and "0 \<le> ret q" and "os_file_size os (c_str p) w1 = Inr n"
    and "os_mmap os n (ret q) w1 = (None, w2)"
  shows "\<exists>fc. fileCacheBuilder_build os p w = (Returns (Some fc), w2) \<and> fc_data fc = None \<and>
    fc_size fc = 0 \<and> rf_size (mFile fc) = n"
  using assms
  by (simp add: fileCacheBuilder_build_def regularFile_open_def new_fileCache_def new_regularFile_def
      fc_map_def fc_data_def fc_size_def)

text \<open>An error of \<open>open\<close> carries the system category.\<close>

lemma open_error_category:
  assumes "regularFile_open os p f w = (Returns (Inl e), f', w')"
  shows "ec_category e = SystemCategory"
proof -
  define w0 where "w0 = (if rf_fd f \<ge> 0 then os_close os (rf_fd f) w else w)"
  obtain q w1 where q: "os_open os (c_str p) w0 = (q, w1)" by fastforce
  have "\<exists>k. e = system_error_code k"
  proof (cases "ret q < 0")
    case True
    with assms q show ?thesis by (auto simp: regularFile_open_def w0_def Let_def)
  next
    case False
    with assms q show ?thesis
      by (cases "os_file_size os (c_str p) w1") (auto simp: regularFile_open_def w0_def Let_def)
  qed
  then show ?thesis by (auto simp: error_defs)
qed

text \<open>
  The capacity survives the conversions \<^verbatim>\<open>int\<close> to \<^verbatim>\<open>size_t\<close> and back, also a
  negative one.
\<close>

lemma getCapacity_new: "getCapacity (new_lruCache cap v0 :: ('k, 'v) lruCache) = cap"
proof -
  have "ucast (scast cap :: 64 word) = cap"
    by (rule bit_word_eqI) (simp add: bit_simps)
  then show ?thesis by (simp add: getCapacity_def new_lruCache_def)
qed

end
