(* ===== verification/CacheRun.thy ===== *)
theory CacheRun
  imports FileCache
begin

text \<open>
  The file cache over its whole life: any sequence of its operations, together with the descriptors of the
  process (\<^verbatim>\<open>include/utils/Lru.hpp\<close>, \<^verbatim>\<open>include/file/FileCache.hpp\<close>).

  The cache holds its files by shared pointers.  Here nobody else holds one when the operation ends, so
  a file that leaves the list is destroyed.
\<close>

datatype cache_op = Get path | Put path | Refresh

text \<open>The files that were in the list and no longer are.\<close>

definition dropped :: "file_cache \<Rightarrow> file_cache \<Rightarrow> fileCache list" where
  "dropped c c' = filter (\<lambda>v. v \<notin> set (cached c')) (cached c)"

definition destroy_all :: "'w os \<Rightarrow> fileCache list \<Rightarrow> 'w \<Rightarrow> 'w" where
  "destroy_all os vs w = fold (fileCache_destroy os) vs w"

text \<open>One operation; \<open>None\<close> when its behaviour is undefined.  An exception leaves the cache in order.\<close>

fun cache_op_step :: "'w os \<Rightarrow> cache_op \<Rightarrow> file_cache \<Rightarrow> 'w \<Rightarrow> (file_cache \<times> 'w) option" where
  "cache_op_step os (Get p) c w =
     (case fileCache_get os p c w of
        (Undefined, _, _) \<Rightarrow> None
      | (_, c', w) \<Rightarrow> Some (c', destroy_all os (dropped c c') w))"
| "cache_op_step os (Put p) c w =
     (case put (fileCacheBuilder_build os) path_key fc_key p c w of
        (Undefined, _, _) \<Rightarrow> None
      | (_, c', w) \<Rightarrow> Some (c', destroy_all os (dropped c c') w))"
| "cache_op_step os Refresh c w = Some (refresh c, destroy_all os (dropped c (refresh c)) w)"

fun run_cache :: "'w os \<Rightarrow> cache_op list \<Rightarrow> file_cache \<Rightarrow> 'w \<Rightarrow> (file_cache \<times> 'w) option" where
  "run_cache os [] c w = Some (c, w)"
| "run_cache os (x # xs) c w =
     (case cache_op_step os x c w of None \<Rightarrow> None | Some (c, w) \<Rightarrow> run_cache os xs c w)"

subsection \<open>The invariant\<close>

text \<open>
  Besides those open before, the open descriptors are those of the cached files, each with one of its
  own.
\<close>

definition cache_inv :: "('w \<Rightarrow> int set) \<Rightarrow> int set \<Rightarrow> file_cache \<Rightarrow> 'w \<Rightarrow> bool" where
  "cache_inv fds base c w \<longleftrightarrow>
     lru_inv fc_key c
     \<and> (\<forall>v \<in> set (cached c). 0 \<le> rf_fd (mFile v) \<and> rf_fd (mFile v) \<notin> base)
     \<and> inj_on (\<lambda>v. rf_fd (mFile v)) (set (cached c))
     \<and> fds w = base \<union> (\<lambda>v. rf_fd (mFile v)) ` set (cached c)"

lemma distinct_mapD: "distinct (map f xs) \<Longrightarrow> distinct xs"
  by (simp add: distinct_map)

lemma destroy_all_fds:
  "os_fd_laws os fds \<Longrightarrow> \<forall>v \<in> set vs. 0 \<le> rf_fd (mFile v) \<Longrightarrow>
     fds (destroy_all os vs w) = fds w - (\<lambda>v. rf_fd (mFile v)) ` set vs"
proof (induction vs arbitrary: w)
  case (Cons v vs)
  then show ?case using fileCache_destroy_fds [OF Cons.prems(1), of v w] by (auto simp: destroy_all_def)
qed (simp add: destroy_all_def)

text \<open>
  An operation that keeps some of the files and adds those in \<open>new\<close> keeps the invariant.
\<close>

lemma cache_inv_change:
  assumes "os_fd_laws os fds" and "cache_inv fds base c w" and "lru_inv fc_key c'"
    and "set (cached c') \<subseteq> set (cached c) \<union> set new" and "set new \<subseteq> set (cached c')"
    and "new = [] \<and> fds w1 = fds w \<or>
      (\<exists>v. new = [v] \<and> fds w1 = insert (rf_fd (mFile v)) (fds w) \<and> rf_fd (mFile v) \<notin> fds w \<and> 0 \<le> rf_fd (mFile v))"
  shows "cache_inv fds base c' (destroy_all os (dropped c c') w1)"
proof -
  let ?f = "\<lambda>v. rf_fd (mFile v)"
  have c: "\<forall>v \<in> set (cached c). 0 \<le> ?f v \<and> ?f v \<notin> base" "inj_on ?f (set (cached c))"
    "fds w = base \<union> ?f ` set (cached c)"
    using assms(2) by (simp_all add: cache_inv_def)
  have new: "fds w1 = fds w \<union> ?f ` set new" "\<forall>v \<in> set new. 0 \<le> ?f v \<and> ?f v \<notin> fds w" "inj_on ?f (set new)"
    using assms(6) by (elim disjE exE conjE; simp)+
  have "?f ` set new \<inter> ?f ` set (cached c) = {}" using c(3) new(2) by blast
  then have inj: "inj_on ?f (set (cached c) \<union> set new)"
    unfolding inj_on_Un using c(2) new(3) by blast
  have d: "set (dropped c c') = set (cached c) - set (cached c')" by (auto simp: dropped_def)
  have "fds (destroy_all os (dropped c c') w1) = fds w1 - ?f ` (set (cached c) - set (cached c'))"
    using destroy_all_fds [OF assms(1), of "dropped c c'" w1] c(1) by (simp add: d)
  also have "\<dots> = base \<union> (?f ` (set (cached c) \<union> set new) - ?f ` (set (cached c) - set (cached c')))"
    using c(1,3) new(1) by auto
  also have "?f ` (set (cached c) \<union> set new) - ?f ` (set (cached c) - set (cached c')) =
      ?f ` ((set (cached c) \<union> set new) - (set (cached c) - set (cached c')))"
    using inj by (rule inj_on_image_set_diff [symmetric]) auto
  also have "(set (cached c) \<union> set new) - (set (cached c) - set (cached c')) = set (cached c')"
    using assms(4,5) by auto
  finally have "fds (destroy_all os (dropped c c') w1) = base \<union> ?f ` set (cached c')" .
  moreover have "inj_on ?f (set (cached c'))" using inj assms(4) by (rule inj_on_subset)
  moreover have "\<forall>v \<in> set (cached c'). 0 \<le> ?f v \<and> ?f v \<notin> base"
    using assms(4) c(1,3) new(2) by fastforce
  ultimately show ?thesis using assms(3) by (simp add: cache_inv_def)
qed

subsection \<open>Each operation\<close>

text \<open>The list after a call of \<^verbatim>\<open>get\<close>, by the specification.\<close>

lemma spec_get_cached:
  assumes "spec_get build cls path cap p vs w = (r, vs', w')" and "0 < cap"
  shows "set vs' \<subseteq> set vs \<and> w' = w \<and> r \<noteq> Undefined \<or>
    (\<exists>v. build p w = (Returns (Some v), w') \<and> r = Returns (Some v) \<and> set vs' \<subseteq> insert v (set vs) \<and> v \<in> set vs') \<or>
    (vs' = vs \<and> build p w = (r, w') \<and> (\<forall>v. r \<noteq> Returns (Some v)))"
proof (cases "find (\<lambda>v. path v = cls p) vs")
  case (Some v)
  then have "v \<in> set vs" by (auto simp: find_Some_iff)
  with assms Some show ?thesis by (auto simp: spec_get_def)
next
  case None
  obtain b w1 where b: "build p w = (b, w1)" by fastforce
  show ?thesis
  proof (cases "\<exists>v. b = Returns (Some v)")
    case True
    then obtain v where "b = Returns (Some v)" by blast
    moreover from this have "vs' = take cap (v # vs)" "w' = w1" "r = b"
      using assms(1) None b by (simp_all add: spec_get_def)
    moreover have "set (take cap (v # vs)) \<subseteq> insert v (set vs)" using set_take_subset [of cap "v # vs"] by simp
    moreover have "v \<in> set (take cap (v # vs))" using assms(2) by (simp add: take_Cons')
    ultimately show ?thesis using b by blast
  next
    case False
    with assms None b show ?thesis by (auto simp: spec_get_def split: outcome.splits option.splits)
  qed
qed

lemma cache_get_inv:
  assumes "os_fd_laws os fds" and "cache_inv fds base c w" and "fileCache_get os p c w = (r, c', w1)"
  shows "r \<noteq> Undefined \<and> capacity c' = capacity c \<and> cache_inv fds base c' (destroy_all os (dropped c c') w1)"
proof -
  have inv: "lru_inv fc_key c" using assms(2) by (simp add: cache_inv_def)
  have ref: "lru_inv fc_key c'" "capacity c' = capacity c"
    "spec_get (fileCacheBuilder_build os) path_key fc_key (unat (capacity c)) p (cached c) w = (r, cached c', w1)"
    using fcb.get_refines [OF inv assms(3) [unfolded fileCache_get_def]] by blast+
  have cap: "0 < unat (capacity c)" using inv by (simp add: lru_inv_def)
  note change = cache_inv_change [OF assms(1,2) ref(1)]
  from spec_get_cached [OF ref(3) cap] show ?thesis
  proof (elim disjE exE conjE)
    assume "set (cached c') \<subseteq> set (cached c)" "w1 = w" "r \<noteq> Undefined"
    then show ?thesis using change [of "[]" w1] ref(2) by simp
  next
    fix v assume v: "fileCacheBuilder_build os p w = (Returns (Some v), w1)" "r = Returns (Some v)"
      "set (cached c') \<subseteq> insert v (set (cached c))" "v \<in> set (cached c')"
    then show ?thesis using change [of "[v]" w1] build_fds [OF assms(1) v(1)] ref(2) by simp
  next
    assume b: "cached c' = cached c" "fileCacheBuilder_build os p w = (r, w1)" "\<forall>v. r \<noteq> Returns (Some v)"
    then have "r \<noteq> Undefined \<and> fds w1 = fds w"
      using build_fds [OF assms(1) b(2)] by (cases r) (auto split: option.splits)
    then show ?thesis using b(1) change [of "[]" w1] ref(2) by simp
  qed
qed

text \<open>\<^verbatim>\<open>put\<close> of a new key does what \<^verbatim>\<open>get\<close> does with the cache.\<close>

lemma put_as_get:
  assumes "put build cls path p c w = (r, c', w1)"
  shows "contains c (cls p) \<and> c' = c \<and> w1 = w \<and> r = Returns False \<or>
    (\<exists>q. cache_get build cls path p c w = (q, c', w1) \<and> (r = Undefined \<longrightarrow> q = Undefined))"
proof (cases "contains c (cls p)")
  case True
  with assms show ?thesis by (simp add: put_def)
next
  case False
  with assms show ?thesis by (cases r) (auto simp: cache_get_def split: bool.splits)
qed

lemma cache_op_inv:
  assumes "os_fd_laws os fds" and "cache_inv fds base c w"
  shows "\<exists>c' w'. cache_op_step os x c w = Some (c', w') \<and> capacity c' = capacity c \<and> cache_inv fds base c' w'"
proof (cases x)
  case (Get p)
  obtain r c' w1 where g: "fileCache_get os p c w = (r, c', w1)" by (metis prod.exhaust)
  from cache_get_inv [OF assms g] show ?thesis by (cases r) (auto simp: Get g)
next
  case (Put p)
  obtain r c' w1 where g: "put (fileCacheBuilder_build os) path_key fc_key p c w = (r, c', w1)" by (metis prod.exhaust)
  have none: "dropped c c = []" by (simp add: dropped_def)
  from put_as_get [OF g] show ?thesis
  proof (elim disjE exE conjE)
    assume "c' = c" "w1 = w" "r = Returns False"
    then show ?thesis using g none assms(2) by (simp add: Put destroy_all_def)
  next
    fix q assume "cache_get (fileCacheBuilder_build os) path_key fc_key p c w = (q, c', w1)" "r = Undefined \<longrightarrow> q = Undefined"
    then show ?thesis using cache_get_inv [OF assms, of p q c' w1] g
      by (cases r) (auto simp: Put fileCache_get_def)
  qed
next
  case Refresh
  have "lru_inv fc_key c" using assms(2) by (simp add: cache_inv_def)
  then have "lru_inv fc_key (refresh c)" by (rule lru_inv_refresh)
  from cache_inv_change [OF assms this, of "[]" w] show ?thesis
    by (simp add: Refresh refresh_def cached_def)
qed

lemma run_cache_inv:
  assumes "os_fd_laws os fds" and "cache_inv fds base c w"
  shows "\<exists>c' w'. run_cache os xs c w = Some (c', w') \<and> capacity c' = capacity c \<and> cache_inv fds base c' w'"
  using assms(2)
proof (induction xs arbitrary: c w)
  case (Cons x xs)
  obtain c1 w1 where s: "cache_op_step os x c w = Some (c1, w1)" "capacity c1 = capacity c" "cache_inv fds base c1 w1"
    using cache_op_inv [OF assms(1) Cons.prems] by blast
  from Cons.IH [OF s(3)] s(1,2) show ?case by auto
qed simp

text \<open>
  C18: the cache through its life.  For every sequence of \<^verbatim>\<open>get\<close>, \<^verbatim>\<open>put\<close> and
  \<^verbatim>\<open>refresh\<close>, whatever files are there and whatever exceptions the builds throw, no operation is
  undefined, list and map agree, there are never more files than the capacity, and the process has
  exactly one open descriptor more for each file in the list than before the cache was made.
\<close>

theorem cache_life:
  assumes "os_fd_laws os fds" and "0 < sint cap"
  shows "\<exists>c w'. run_cache os xs (new_lruCache cap new_fileCache) w = Some (c, w') \<and> lru_inv fc_key c \<and>
    length (cacheList c) \<le> nat (sint cap) \<and> fds w \<subseteq> fds w' \<and> card (fds w' - fds w) = length (cacheList c)"
proof -
  let ?f = "\<lambda>v. rf_fd (mFile v)"
  let ?c = "new_lruCache cap new_fileCache :: file_cache"
  have inv: "cache_inv fds (fds w) ?c w"
    using lru_inv_new [OF assms(2)] by (simp add: cache_inv_def cached_def new_lruCache_def)
  have cap: "unat (capacity ?c) = nat (sint cap)"
  proof -
    have "uint (scast cap :: 64 word) = sint cap mod 2 ^ LENGTH(64)" by (simp only: scast_eq uint_word_of_int)
    also have "\<dots> = sint cap" using assms(2) sint_lt [of cap] by (intro mod_pos_pos_trivial) simp_all
    finally have "nat (uint (scast cap :: 64 word)) = nat (sint cap)" by (rule arg_cong)
    then show ?thesis by (simp only: new_lruCache_def lruCache.simps unat_eq_nat_uint)
  qed
  obtain c w' where r: "run_cache os xs ?c w = Some (c, w')" "capacity c = capacity ?c" "cache_inv fds (fds w) c w'"
    using run_cache_inv [OF assms(1) inv] by blast
  then have i: "lru_inv fc_key c" "inj_on ?f (set (cached c))" "fds w' = fds w \<union> ?f ` set (cached c)"
    "?f ` set (cached c) \<inter> fds w = {}"
    by (auto simp: cache_inv_def)
  have "card (fds w' - fds w) = card (set (cached c))"
    using i(2-4) by (simp add: Un_Diff Diff_triv card_image)
  also have "\<dots> = length (cacheList c)"
    using distinct_card [OF distinct_mapD [OF lru_paths_distinct [OF i(1)]]] by (simp add: cached_def)
  finally show ?thesis
    using r i cap by (intro exI [of _ c] exI [of _ w']) (auto simp: lru_inv_def)
qed

theorem cache_life_witness:
  "\<exists>c w'. run_cache demo_os [Get ''/a.txt'', Get ''/b'', Get ''/dir.d'', Put ''/c'', Get ''/gone'', Get ''/b'']
       (new_lruCache 2 new_fileCache) [7] = Some (c, w') \<and> length (cacheList c) \<le> 2 \<and> 7 \<in> set w' \<and>
     card (set w' - {7}) = length (cacheList c)"
proof -
  have "0 < sint (2 :: 32 word)" "nat (sint (2 :: 32 word)) = 2" by simp_all
  with cache_life [OF demo_os_laws, of 2 "[Get ''/a.txt'', Get ''/b'', Get ''/dir.d'', Put ''/c'', Get ''/gone'', Get ''/b'']" "[7]"]
  show ?thesis by auto
qed

end
