(* ===== verification/Loop.thy ===== *)
theory Loop
  imports Errors "HOL-Library.Multiset"
begin

text \<open>
  The thread pool (\<^verbatim>\<open>threadPool\<close> in \<^verbatim>\<open>include/async/Loop.hpp\<close>).

  A coroutine handle is an address.  The pool has one queue of handles per worker thread;
  \<^verbatim>\<open>queueList\<close> is a \<^verbatim>\<open>std::list\<close>, and an iterator into it is a node or the end iterator,
  whose use is undefined.  \<^verbatim>\<open>taskBinding\<close> fixes the queue of a task when it is first added.

  The first part models each operation by itself, the second the pool shared by threads: a step
  relation whose steps are the critical sections of the code, with the reader-writer lock
  \<^verbatim>\<open>cleanWorkMutex\<close> as part of the state.
\<close>

type_synonym hnd = nat

datatype iter = Node nat | End

record threadPool =
  queueList :: "hnd list list"
  currentQueue :: iter
  taskBinding :: "(hnd \<times> iter) list"

definition list_begin :: "'a list \<Rightarrow> iter" where
  "list_begin xs = (if xs = [] then End else Node 0)"

definition iter_next :: "'a list \<Rightarrow> nat \<Rightarrow> iter" where
  "iter_next xs i = (if Suc i < length xs then Node (Suc i) else End)"

subsection \<open>addTask\<close>

text \<open>The critical section under \<^verbatim>\<open>bindingMutex\<close>: the queue of the task.\<close>

definition bindTask :: "hnd \<Rightarrow> threadPool \<Rightarrow> (iter \<times> threadPool) outcome" where
  "bindTask task p =
     (case map_of (taskBinding p) task of
        Some targetQueue \<Rightarrow> Returns (targetQueue, p)
      | None \<Rightarrow>
          (case currentQueue p of
             End \<Rightarrow> Undefined
           | Node i \<Rightarrow>
               let nxt = iter_next (queueList p) i;
                   nxt = (if nxt = End then list_begin (queueList p) else nxt)
               in Returns (Node i, p\<lparr>currentQueue := nxt,
                             taskBinding := AList.update task (Node i) (taskBinding p)\<rparr>)))"

text \<open>The critical section under the queue's mutex.\<close>

definition pushTask :: "hnd \<Rightarrow> iter \<Rightarrow> threadPool \<Rightarrow> threadPool outcome" where
  "pushTask task targetQueue p =
     (case targetQueue of
        End \<Rightarrow> Undefined
      | Node i \<Rightarrow>
          if i < length (queueList p)
          then Returns (p\<lparr>queueList := (queueList p)[i := queueList p ! i @ [task]]\<rparr>)
          else Undefined)"

definition addTask :: "hnd \<Rightarrow> threadPool \<Rightarrow> threadPool outcome" where
  "addTask task p =
     (case bindTask task p of
        Returns (targetQueue, p) \<Rightarrow> pushTask task targetQueue p
      | Throws e \<Rightarrow> Throws e
      | Undefined \<Rightarrow> Undefined)"

fun addTasks :: "hnd list \<Rightarrow> threadPool \<Rightarrow> threadPool outcome" where
  "addTasks [] p = Returns p"
| "addTasks (h # hs) p = outcome_bind (addTask h p) (addTasks hs)"

subsection \<open>runTasks and cleanTasks\<close>

text \<open>Taking the front task of worker \<open>i\<close>; \<open>None\<close> when the worker has to wait.\<close>

definition popTask :: "nat \<Rightarrow> threadPool \<Rightarrow> (hnd \<times> threadPool) option" where
  "popTask i p =
     (case queueList p ! i of
        [] \<Rightarrow> None
      | h # hs \<Rightarrow> Some (h, p\<lparr>queueList := (queueList p)[i := hs]\<rparr>))"

text \<open>
  The clean-up: the tasks that are done leave the binding map, then each queue one of them is bound
  to, and are destroyed.
\<close>

definition cleanWork :: "(hnd \<Rightarrow> bool) \<Rightarrow> threadPool \<Rightarrow> (threadPool \<times> hnd list) outcome" where
  "cleanWork is_done p =
     (let doneTasks = filter (\<lambda>(h, q). is_done h) (taskBinding p)
      in if End \<in> snd ` set doneTasks then Undefined
         else Returns
           (p\<lparr>taskBinding := filter (\<lambda>(h, q). \<not> is_done h) (taskBinding p),
              queueList := map (\<lambda>(i, ts). filter (\<lambda>h. (h, Node i) \<notin> set doneTasks) ts)
                             (enumerate 0 (queueList p))\<rparr>,
            map fst doneTasks))"

definition clean_threshold :: nat where "clean_threshold = 10000"

text \<open>One turn of the loop of \<^verbatim>\<open>cleanTasks\<close>.\<close>

definition cleanTasks_turn :: "(hnd \<Rightarrow> bool) \<Rightarrow> threadPool \<Rightarrow> (threadPool \<times> hnd list) outcome" where
  "cleanTasks_turn is_done p =
     (if length (taskBinding p) < clean_threshold then Returns (p, []) else cleanWork is_done p)"

text \<open>
  The loop itself, which \<^verbatim>\<open>enter\<close> runs in the main thread and which never returns: what its turns
  do, given which coroutines are done at each of them, and the coroutines they destroy.
\<close>

fun cleanTasks :: "(hnd \<Rightarrow> bool) list \<Rightarrow> threadPool \<Rightarrow> (threadPool \<times> hnd list) outcome" where
  "cleanTasks [] p = Returns (p, [])"
| "cleanTasks (is_done # turns) p =
     outcome_bind (cleanTasks_turn is_done p) (\<lambda>(p, destroyed).
       outcome_bind (cleanTasks turns p) (\<lambda>(p, more). Returns (p, destroyed @ more)))"

definition enter :: "(hnd \<Rightarrow> bool) list \<Rightarrow> threadPool \<Rightarrow> (threadPool \<times> hnd list) outcome" where
  "enter = cleanTasks"

subsection \<open>co_await scheduler\<close>

text \<open>
  \<^verbatim>\<open>scheduleAwaiter\<close>: the awaiting coroutine always suspends and is added to the pool again.
\<close>

definition schedule_ready :: bool where "schedule_ready = False"

definition schedule_suspend :: "hnd \<Rightarrow> threadPool \<Rightarrow> threadPool outcome" where
  "schedule_suspend handle p = addTask handle p"

definition await_scheduler :: "hnd \<Rightarrow> threadPool \<Rightarrow> threadPool outcome" where
  "await_scheduler handle p = (if schedule_ready then Returns p else schedule_suspend handle p)"

subsection \<open>The invariant of the pool\<close>

text \<open>
  The next queue is a real one, every binding is to a real queue, and a task waits only in the queue
  it is bound to.
\<close>

definition pool_inv :: "threadPool \<Rightarrow> bool" where
  "pool_inv p \<longleftrightarrow>
     (\<exists>c < length (queueList p). currentQueue p = Node c)
     \<and> distinct (map fst (taskBinding p))
     \<and> (\<forall>(h, q) \<in> set (taskBinding p). \<exists>i < length (queueList p). q = Node i)
     \<and> (\<forall>i < length (queueList p). \<forall>h \<in> set (queueList p ! i). map_of (taskBinding p) h = Some (Node i))"

definition new_pool :: "nat \<Rightarrow> threadPool" where
  "new_pool n = \<lparr>queueList = replicate n [], currentQueue = Node 0, taskBinding = []\<rparr>"

definition waiting :: "threadPool \<Rightarrow> hnd multiset" where
  "waiting p = mset (concat (queueList p))"

lemma pool_inv_new: "0 < n \<Longrightarrow> pool_inv (new_pool n)"
  by (auto simp: pool_inv_def new_pool_def)

lemma pool_inv_bound: "pool_inv p \<Longrightarrow> map_of (taskBinding p) h = Some q \<Longrightarrow> \<exists>i < length (queueList p). q = Node i"
  by (auto simp: pool_inv_def dest!: map_of_SomeD)

lemma pool_inv_queue:
  "pool_inv p \<Longrightarrow> i < length (queueList p) \<Longrightarrow> h \<in> set (queueList p ! i) \<Longrightarrow>
     map_of (taskBinding p) h = Some (Node i)"
  by (simp add: pool_inv_def)

lemma next_queue:
  assumes "c < length xs"
  shows "(if iter_next xs c = End then list_begin xs else iter_next xs c) = Node (Suc c mod length xs)"
  using assms by (auto simp: iter_next_def list_begin_def) (metis Suc_lessI mod_self)

text \<open>The first critical section.\<close>

lemma bindTask_bound: "map_of (taskBinding p) h = Some q \<Longrightarrow> bindTask h p = Returns (q, p)"
  by (simp add: bindTask_def)

lemma bindTask_new:
  assumes "map_of (taskBinding p) h = None" and "currentQueue p = Node c" and "c < length (queueList p)"
  shows "bindTask h p = Returns (Node c, p\<lparr>currentQueue := Node (Suc c mod length (queueList p)),
    taskBinding := AList.update h (Node c) (taskBinding p)\<rparr>)"
  using assms next_queue [OF assms(3)] by (simp add: bindTask_def Let_def)

lemma bindTask_inv:
  assumes "pool_inv p" and "bindTask h p = Returns (q, p')"
  shows "pool_inv p' \<and> map_of (taskBinding p') h = Some q \<and> queueList p' = queueList p \<and>
    (\<forall>g x. map_of (taskBinding p) g = Some x \<longrightarrow> map_of (taskBinding p') g = Some x) \<and>
    fst ` set (taskBinding p') = insert h (fst ` set (taskBinding p))"
proof (cases "map_of (taskBinding p) h")
  case (Some x)
  then have "h \<in> fst ` set (taskBinding p)" by (metis map_of_eq_None_iff option.distinct(1))
  with assms Some bindTask_bound [OF Some] show ?thesis by auto
next
  case None
  obtain c where c: "c < length (queueList p)" "currentQueue p = Node c"
    using assms(1) by (auto simp: pool_inv_def)
  let ?b = "AList.update h (Node c) (taskBinding p)"
  from bindTask_new [OF None c(2,1)] assms(2)
  have p': "q = Node c" "p' = p\<lparr>currentQueue := Node (Suc c mod length (queueList p)), taskBinding := ?b\<rparr>"
    by auto
  have dom: "h \<notin> fst ` set (taskBinding p)" using None by (simp add: map_of_eq_None_iff)
  have keep: "map_of (taskBinding p) g = Some x \<Longrightarrow> map_of ?b g = Some x" for g x
    using None by (auto simp: update_conv')
  have "set ?b = insert (h, Node c) (set (taskBinding p))"
    using dom by (simp add: AList_update_new)
  moreover have "distinct (map fst ?b)" using assms(1) by (simp add: pool_inv_def distinct_update)
  moreover have "Suc c mod length (queueList p) < length (queueList p)"
    using c(1) by (intro mod_less_divisor) linarith
  ultimately have "pool_inv p'"
    using assms(1) keep c(1) by (auto simp: pool_inv_def p')
  then show ?thesis using keep by (auto simp: p' update_conv' dom_update)
qed

lemma bindTask_total:
  assumes "pool_inv p"
  shows "\<exists>i p'. i < length (queueList p) \<and> bindTask h p = Returns (Node i, p')"
proof (cases "map_of (taskBinding p) h")
  case (Some q)
  with bindTask_bound [OF Some] pool_inv_bound [OF assms Some] show ?thesis by auto
next
  case None
  obtain c where "c < length (queueList p)" "currentQueue p = Node c"
    using assms by (auto simp: pool_inv_def)
  with bindTask_new [OF None] show ?thesis by blast
qed

text \<open>The second critical section.\<close>

lemma pushTask_inv:
  assumes "pool_inv p" and "map_of (taskBinding p) h = Some q" and "pushTask h q p = Returns p'"
  shows "pool_inv p' \<and> taskBinding p' = taskBinding p \<and> waiting p' = add_mset h (waiting p)"
proof -
  from assms(3) obtain i where i: "q = Node i" "i < length (queueList p)"
    "p' = p\<lparr>queueList := (queueList p)[i := queueList p ! i @ [h]]\<rparr>"
    by (auto simp: pushTask_def split: iter.splits if_splits)
  have "pool_inv p'" using assms(1,2) i by (auto simp: pool_inv_def nth_list_update)
  moreover have "mset (concat ((queueList p)[i := queueList p ! i @ [h]])) =
      add_mset h (mset (concat (queueList p)))"
    using i(2) by (simp add: upd_conv_take_nth_drop) (metis concat.simps(2) concat_append id_take_nth_drop mset_append union_commute)
  ultimately show ?thesis by (simp add: waiting_def i(3))
qed

lemma pushTask_total: "i < length (queueList p) \<Longrightarrow> \<exists>p'. pushTask h (Node i) p = Returns p'"
  by (simp add: pushTask_def)

text \<open>The whole operation.\<close>

lemma addTask_result:
  assumes "pool_inv p"
  obtains i p' where "addTask h p = Returns p'" and "pool_inv p'"
    and "waiting p' = add_mset h (waiting p)" and "map_of (taskBinding p') h = Some (Node i)"
    and "i < length (queueList p)" and "queueList p' = (queueList p)[i := queueList p ! i @ [h]]"
    and "\<And>g x. map_of (taskBinding p) g = Some x \<Longrightarrow> map_of (taskBinding p') g = Some x"
    and "fst ` set (taskBinding p') = insert h (fst ` set (taskBinding p))"
proof -
  obtain i p1 where b: "i < length (queueList p)" "bindTask h p = Returns (Node i, p1)"
    using bindTask_total [OF assms] by blast
  note inv1 = bindTask_inv [OF assms b(2)]
  then obtain p' where r: "pushTask h (Node i) p1 = Returns p'"
    using pushTask_total b(1) by fastforce
  note inv2 = pushTask_inv [OF conjunct1 [OF inv1] _ r]
  have "queueList p' = (queueList p)[i := queueList p ! i @ [h]]"
    using r b(1) inv1 by (auto simp: pushTask_def split: if_splits)
  moreover have "waiting p1 = waiting p" using inv1 by (simp add: waiting_def)
  ultimately show thesis using b r inv1 inv2 by (intro that [of p' i]) (auto simp: addTask_def)
qed

subsection \<open>The interface of a scheduler\<close>

text \<open>
  What the event loops rely on when they hand coroutines over: the call returns, the coroutine is then
  waiting to be run once more than before, and no other one is lost or added.
\<close>

locale scheduler =
  fixes add :: "hnd \<Rightarrow> 'p \<Rightarrow> 'p outcome"
    and pending :: "'p \<Rightarrow> hnd multiset"
    and invar :: "'p \<Rightarrow> bool"
  assumes add_returns: "invar p \<Longrightarrow> \<exists>p'. add h p = Returns p'"
    and add_invar: "invar p \<Longrightarrow> add h p = Returns p' \<Longrightarrow> invar p'"
    and add_pending: "invar p \<Longrightarrow> add h p = Returns p' \<Longrightarrow> pending p' = add_mset h (pending p)"
begin

lemma add_step: "invar p \<Longrightarrow> \<exists>p'. add h p = Returns p' \<and> invar p' \<and> pending p' = add_mset h (pending p)"
  using add_returns add_invar add_pending by metis

text \<open>Handing over a list of coroutines in order.\<close>

lemma add_list:
  assumes "invar p" and "\<And>q. run [] q = Returns q"
    and "\<And>h hs q. run (h # hs) q = outcome_bind (add h q) (run hs)"
  shows "\<exists>p'. run hs p = Returns p' \<and> invar p' \<and> pending p' = pending p + mset hs"
  using assms(1)
proof (induction hs arbitrary: p)
  case Nil
  then show ?case by (simp add: assms(2))
next
  case (Cons h hs)
  obtain q where q: "add h p = Returns q" "invar q" "pending q = add_mset h (pending p)"
    using add_step [OF Cons.prems] by blast
  from Cons.IH [OF q(2)] q show ?case by (auto simp: assms(3))
qed

end

interpretation tp: scheduler addTask waiting pool_inv
proof
  fix p h assume "pool_inv p"
  then show "\<exists>p'. addTask h p = Returns p'" by (metis addTask_result)
next
  fix p h p' assume "pool_inv p" and "addTask h p = Returns p'"
  then show "pool_inv p'" by (metis addTask_result outcome.inject(1))
next
  fix p h p' assume "pool_inv p" and "addTask h p = Returns p'"
  then show "waiting p' = add_mset h (waiting p)" by (metis addTask_result outcome.inject(1))
qed

lemma addTasks_result:
  "pool_inv p \<Longrightarrow> \<exists>p'. addTasks hs p = Returns p' \<and> pool_inv p' \<and> waiting p' = waiting p + mset hs"
  by (rule tp.add_list) simp_all

subsection \<open>The other operations and the invariant\<close>

lemma concat_upd: "i < length qs \<Longrightarrow> mset (concat qs) = mset (concat (qs[i := []])) + mset (qs ! i)"
  by (induction qs arbitrary: i) (auto split: nat.splits simp: nth_Cons')

lemma popTask_inv:
  assumes "pool_inv p" and "i < length (queueList p)" and "popTask i p = Some (h, p')"
  shows "pool_inv p' \<and> taskBinding p' = taskBinding p \<and> length (queueList p') = length (queueList p) \<and>
    map_of (taskBinding p) h = Some (Node i) \<and> waiting p = add_mset h (waiting p')"
proof -
  from assms(3) obtain hs where q: "queueList p ! i = h # hs" "p' = p\<lparr>queueList := (queueList p)[i := hs]\<rparr>"
    by (auto simp: popTask_def split: list.splits)
  have b: "map_of (taskBinding p) h = Some (Node i)"
    using pool_inv_queue [OF assms(1,2)] q(1) by simp
  have "pool_inv p'"
    using assms(1,2) q pool_inv_queue [OF assms(1)] by (auto simp: pool_inv_def nth_list_update)
  moreover have "mset (concat (queueList p)) = add_mset h (mset (concat ((queueList p)[i := hs])))"
    using concat_upd [OF assms(2)] concat_upd [of i "(queueList p)[i := hs]"] assms(2) q(1) by simp
  ultimately show ?thesis using q(2) b by (simp add: waiting_def)
qed

text \<open>
  The clean-up keeps the invariant; exactly the bound tasks that are done leave the map and the
  queues.
\<close>

lemma cleanWork_queue:
  assumes "pool_inv p" and "i < length (queueList p)"
  shows "filter (\<lambda>h. (h, Node i) \<notin> set (filter (\<lambda>(h, q). d h) (taskBinding p))) (queueList p ! i) =
    filter (\<lambda>h. \<not> d h) (queueList p ! i)"
proof (rule filter_cong [OF refl])
  fix h assume "h \<in> set (queueList p ! i)"
  then have "(h, Node i) \<in> set (taskBinding p)"
    using pool_inv_queue [OF assms] map_of_SomeD by fastforce
  then show "((h, Node i) \<notin> set (filter (\<lambda>(h, q). d h) (taskBinding p))) = (\<not> d h)" by simp
qed

lemma map_of_filter_key: "map_of (filter (\<lambda>(h, q). P h) xs) h = (if P h then map_of xs h else None)"
  by (induction xs) auto

lemma cleanWork_result:
  assumes "pool_inv p"
  shows "\<exists>p' ds. cleanWork d p = Returns (p', ds) \<and> pool_inv p' \<and> currentQueue p' = currentQueue p \<and>
    queueList p' = map (filter (\<lambda>h. \<not> d h)) (queueList p) \<and>
    (\<forall>h. map_of (taskBinding p') h = (if d h then None else map_of (taskBinding p) h)) \<and>
    distinct ds \<and> set ds = {h \<in> fst ` set (taskBinding p). d h}"
proof -
  let ?done = "filter (\<lambda>(h, q). d h) (taskBinding p)"
  let ?b = "filter (\<lambda>(h, q). \<not> d h) (taskBinding p)"
  let ?p = "p\<lparr>taskBinding := ?b, queueList := map (filter (\<lambda>h. \<not> d h)) (queueList p)\<rparr>"
  have "End \<notin> snd ` set ?done" using assms by (auto simp: pool_inv_def)
  moreover have "map (\<lambda>(i, ts). filter (\<lambda>h. (h, Node i) \<notin> set ?done) ts) (enumerate 0 (queueList p)) =
      map (filter (\<lambda>h. \<not> d h)) (queueList p)"
    by (rule nth_equalityI) (simp_all add: nth_enumerate_eq cleanWork_queue [OF assms] del: set_filter)
  ultimately have r: "cleanWork d p = Returns (?p, map fst ?done)" by (simp add: cleanWork_def Let_def)
  have "map_of ?b h = (if d h then None else map_of (taskBinding p) h)" for h
    using map_of_filter_key [of "\<lambda>h. \<not> d h" "taskBinding p" h] by simp
  moreover have "distinct (map fst (filter P (taskBinding p)))" for P
    using assms distinct_map_filter by (auto simp: pool_inv_def)
  ultimately show ?thesis
    using assms by (intro exI [of _ ?p] exI [of _ "map fst ?done"] conjI) (use r in \<open>auto simp: pool_inv_def\<close>)
qed

subsection \<open>Round robin\<close>

lemma addTask_fresh:
  assumes "pool_inv p" and "currentQueue p = Node (c mod n)" and "n = length (queueList p)"
    and "h \<notin> fst ` set (taskBinding p)"
  shows "\<exists>p'. addTask h p = Returns p' \<and> pool_inv p' \<and> currentQueue p' = Node (Suc c mod n) \<and>
    length (queueList p') = n \<and> map_of (taskBinding p') h = Some (Node (c mod n)) \<and>
    (\<forall>g x. map_of (taskBinding p) g = Some x \<longrightarrow> map_of (taskBinding p') g = Some x) \<and>
    fst ` set (taskBinding p') = insert h (fst ` set (taskBinding p)) \<and>
    queueList p' = (queueList p)[c mod n := queueList p ! (c mod n) @ [h]]"
proof -
  have n: "0 < n" using assms(1,3) by (auto simp: pool_inv_def)
  have none: "map_of (taskBinding p) h = None" using assms(4) by (simp add: map_of_eq_None_iff)
  have c: "c mod n < length (queueList p)" using n assms(3) by simp
  let ?p = "p\<lparr>currentQueue := Node (Suc c mod n), taskBinding := AList.update h (Node (c mod n)) (taskBinding p)\<rparr>"
  have b: "bindTask h p = Returns (Node (c mod n), ?p)"
    using bindTask_new [OF none assms(2) c] assms(3) by (simp add: mod_Suc_eq)
  have a: "addTask h p = Returns (?p\<lparr>queueList := (queueList p)[c mod n := queueList p ! (c mod n) @ [h]]\<rparr>)"
    using c by (simp add: addTask_def b pushTask_def)
  note i = bindTask_inv [OF assms(1) b]
  have "pool_inv (?p\<lparr>queueList := (queueList p)[c mod n := queueList p ! (c mod n) @ [h]]\<rparr>)"
    using tp.add_invar [OF assms(1) a] .
  then show ?thesis using a i assms(3) by simp
qed

text \<open>
  New tasks go round the queues.  Handing over distinct coroutines that are not bound yet puts the
  \<open>k\<close>-th of them at the end of queue \<open>(c + k) mod n\<close>, where \<open>c\<close> is the next queue and \<open>n\<close> the number
  of workers, in the order they were handed over; each is bound to that queue from then on, old
  bindings stay, and the next queue is \<open>(c + length hs) mod n\<close>.
\<close>

lemma round_robin:
  assumes "pool_inv p" and "currentQueue p = Node (c mod n)" and "n = length (queueList p)"
    and "distinct hs" and "set hs \<inter> fst ` set (taskBinding p) = {}"
  shows "\<exists>p'. addTasks hs p = Returns p' \<and> currentQueue p' = Node ((c + length hs) mod n) \<and>
    (\<forall>(k, h) \<in> set (enumerate c hs). map_of (taskBinding p') h = Some (Node (k mod n))) \<and>
    (\<forall>g x. map_of (taskBinding p) g = Some x \<longrightarrow> map_of (taskBinding p') g = Some x) \<and>
    length (queueList p') = n \<and>
    (\<forall>i < n. queueList p' ! i =
       queueList p ! i @ map snd (filter (\<lambda>(k, h). k mod n = i) (enumerate c hs)))"
  using assms
proof (induction hs arbitrary: p c)
  case Nil
  then show ?case by simp
next
  case (Cons h hs)
  have "h \<notin> fst ` set (taskBinding p)" using Cons.prems(5) by simp
  from addTask_fresh [OF Cons.prems(1,2,3) this] obtain p1 where
    a: "addTask h p = Returns p1" "pool_inv p1" "currentQueue p1 = Node (Suc c mod n)"
      "n = length (queueList p1)" "map_of (taskBinding p1) h = Some (Node (c mod n))"
      "\<forall>g x. map_of (taskBinding p) g = Some x \<longrightarrow> map_of (taskBinding p1) g = Some x"
      "fst ` set (taskBinding p1) = insert h (fst ` set (taskBinding p))"
      "queueList p1 = (queueList p)[c mod n := queueList p ! (c mod n) @ [h]]"
    using Cons.prems(3) by (elim exE conjE) (rule that, auto)
  have "distinct hs" and "set hs \<inter> fst ` set (taskBinding p1) = {}"
    using Cons.prems(4,5) a(7) by auto
  from Cons.IH [OF a(2,3,4) this] obtain p' where
    r: "addTasks hs p1 = Returns p'" "currentQueue p' = Node ((Suc c + length hs) mod n)"
      "\<forall>(k, h) \<in> set (enumerate (Suc c) hs). map_of (taskBinding p') h = Some (Node (k mod n))"
      "\<forall>g x. map_of (taskBinding p1) g = Some x \<longrightarrow> map_of (taskBinding p') g = Some x"
      "length (queueList p') = n"
      "\<forall>i < n. queueList p' ! i =
         queueList p1 ! i @ map snd (filter (\<lambda>(k, h). k mod n = i) (enumerate (Suc c) hs))"
    by (elim exE conjE) (rule that)
  have q: "queueList p1 ! i = queueList p ! i @ (if c mod n = i then [h] else [])" if "i < n" for i
    using that a(8) Cons.prems(3) by (auto simp: nth_list_update)
  show ?case
  proof (intro exI [of _ p'] conjI)
    show "addTasks (h # hs) p = Returns p'" using a(1) r(1) by simp
    show "\<forall>(k, h) \<in> set (enumerate c (h # hs)). map_of (taskBinding p') h = Some (Node (k mod n))"
      using r(3,4) a(5) by simp
    show "\<forall>i < n. queueList p' ! i =
        queueList p ! i @ map snd (filter (\<lambda>(k, h). k mod n = i) (enumerate c (h # hs)))"
      using r(6) q by simp
    show "currentQueue p' = Node ((c + length (h # hs)) mod n)" using r(2) by simp
    show "\<forall>g x. map_of (taskBinding p) g = Some x \<longrightarrow> map_of (taskBinding p') g = Some x"
      using r(4) a(6) by blast
  qed (rule r(5))
qed

text \<open>A worker that takes several tasks one after the other.\<close>

fun popTasks :: "nat \<Rightarrow> nat \<Rightarrow> threadPool \<Rightarrow> (hnd list \<times> threadPool) option" where
  "popTasks 0 i p = Some ([], p)"
| "popTasks (Suc k) i p =
     (case popTask i p of
        None \<Rightarrow> None
      | Some (h, p) \<Rightarrow> map_option (\<lambda>(hs, p). (h # hs, p)) (popTasks k i p))"

lemma popTasks_front:
  "i < length (queueList p) \<Longrightarrow> k \<le> length (queueList p ! i) \<Longrightarrow>
     popTasks k i p = Some (take k (queueList p ! i), p\<lparr>queueList := (queueList p)[i := drop k (queueList p ! i)]\<rparr>)"
proof (induction k arbitrary: p)
  case (Suc k)
  then obtain h hs where q: "queueList p ! i = h # hs" by (cases "queueList p ! i") auto
  let ?p = "p\<lparr>queueList := (queueList p)[i := hs]\<rparr>"
  have "popTasks k i ?p = Some (take k hs, ?p\<lparr>queueList := (queueList ?p)[i := drop k hs]\<rparr>)"
    using Suc.IH [of ?p] Suc.prems q by simp
  then show ?case using q by (simp add: popTask_def)
qed simp

text \<open>
  Giving way is fair.  A coroutine that runs on worker \<open>i\<close> and awaits the scheduler goes to the end
  of the queue of the same worker, behind everything that waits there, and no other queue changes.  So
  after as many further tasks as were waiting that worker takes it again: taking the front task
  \<open>length (queueList p ! i)\<close> times gives exactly those that waited, in order, and then the coroutine.
\<close>

lemma scheduling_is_fair:
  assumes "pool_inv p" and "i < length (queueList p)" and "map_of (taskBinding p) h = Some (Node i)"
  shows "\<exists>p'. await_scheduler h p = Returns p' \<and> pool_inv p' \<and>
    (\<forall>j. j \<noteq> i \<longrightarrow> queueList p' ! j = queueList p ! j) \<and>
    map_option fst (popTasks (Suc (length (queueList p ! i))) i p') = Some (queueList p ! i @ [h])"
proof -
  let ?p = "p\<lparr>queueList := (queueList p)[i := queueList p ! i @ [h]]\<rparr>"
  have a: "addTask h p = Returns ?p"
    using assms(2) by (simp add: addTask_def bindTask_bound [OF assms(3)] pushTask_def)
  have "popTasks (Suc (length (queueList p ! i))) i ?p =
      Some (queueList p ! i @ [h], ?p\<lparr>queueList := (queueList ?p)[i := []]\<rparr>)"
    using assms(2) by (subst popTasks_front) simp_all
  then show ?thesis using a tp.add_invar [OF assms(1) a]
    by (simp add: await_scheduler_def schedule_ready_def schedule_suspend_def del: popTasks.simps)
qed

subsection \<open>The constructor\<close>

text \<open>
  The constructor starts the threads, each of which appends its queue, and then sets
  \<^verbatim>\<open>currentQueue\<close> to \<^verbatim>\<open>queueList.begin()\<close> without waiting for them (the latch is only
  waited for in the threads), so the two kinds of events come in any order.
\<close>

datatype ctor_event = EmplaceQueue | SetCurrent

fun ctor_step :: "ctor_event \<Rightarrow> threadPool \<Rightarrow> threadPool" where
  "ctor_step EmplaceQueue p = p\<lparr>queueList := queueList p @ [[]]\<rparr>"
| "ctor_step SetCurrent p = p\<lparr>currentQueue := list_begin (queueList p)\<rparr>"

definition threadPool_ctor :: "nat \<Rightarrow> ctor_event list \<Rightarrow> threadPool outcome" where
  "threadPool_ctor threadCnt schedule =
     (if \<not> 1 \<le> threadCnt then Throws (InvalidArgument ''Thread count cannot be greater than 0'')
      else Returns (fold ctor_step schedule \<lparr>queueList = [], currentQueue = End, taskBinding = []\<rparr>))"

definition ctor_schedules :: "nat \<Rightarrow> ctor_event list set" where
  "ctor_schedules n = {es. count (mset es) EmplaceQueue = n \<and> count (mset es) SetCurrent = 1}"

lemma emplace_queues: "fold ctor_step (replicate k EmplaceQueue) p = p\<lparr>queueList := queueList p @ replicate k []\<rparr>"
  by (induction k arbitrary: p) (simp_all add: replicate_append_same del: fold_replicate)

lemma no_set_current: "count (mset es) SetCurrent = 0 \<Longrightarrow> es = replicate (count (mset es) EmplaceQueue) EmplaceQueue"
proof (induction es)
  case (Cons e es)
  then show ?case by (cases e) auto
qed simp

lemma schedule_form:
  "es \<in> ctor_schedules n \<Longrightarrow> \<exists>k \<le> n. es = replicate k EmplaceQueue @ SetCurrent # replicate (n - k) EmplaceQueue"
proof (induction es arbitrary: n)
  case (Cons e es)
  show ?case
  proof (cases e)
    case SetCurrent
    with Cons.prems have "es = replicate n EmplaceQueue"
      using no_set_current [of es] by (simp add: ctor_schedules_def)
    with SetCurrent show ?thesis by (intro exI [of _ 0]) simp
  next
    case EmplaceQueue
    with Cons.prems obtain m where m: "n = Suc m" "es \<in> ctor_schedules m"
      by (cases n) (auto simp: ctor_schedules_def)
    from Cons.IH [OF m(2)] obtain k where
      "k \<le> m" "es = replicate k EmplaceQueue @ SetCurrent # replicate (m - k) EmplaceQueue" by blast
    with EmplaceQueue m(1) show ?thesis by (intro exI [of _ "Suc k"]) simp
  qed
qed (simp add: ctor_schedules_def)

text \<open>
  C38: the race of the constructor.  For \<open>n\<close> threads and any order of the events the constructor
  returns; if a thread was fast enough to append its queue before \<^verbatim>\<open>currentQueue\<close> is set, the
  pool is the proper new pool with \<open>n\<close> queues, and otherwise the first \<^verbatim>\<open>addTask\<close> of any task
  dereferences the end iterator.
\<close>

theorem ctor_race:
  assumes "1 \<le> n" and "es \<in> ctor_schedules n"
  shows "\<exists>p. threadPool_ctor n es = Returns p \<and>
    (if hd es = EmplaceQueue then p = new_pool n \<and> pool_inv p else addTask h p = Undefined)"
proof -
  from schedule_form [OF assms(2)] obtain k where
    k: "k \<le> n" "es = replicate k EmplaceQueue @ SetCurrent # replicate (n - k) EmplaceQueue" by blast
  let ?p = "\<lparr>queueList = replicate n [], currentQueue = (if k = 0 then End else Node 0), taskBinding = []\<rparr>"
  have "threadPool_ctor n es = Returns ?p"
    using assms(1) k by (simp add: threadPool_ctor_def emplace_queues list_begin_def replicate_add [symmetric] del: fold_replicate)
  moreover have "addTask h ?p = Undefined" if "k = 0"
    using that by (simp add: addTask_def bindTask_def)
  moreover have "?p = new_pool n" if "k \<noteq> 0" using that by (simp add: new_pool_def)
  ultimately show ?thesis using k assms(1) pool_inv_new [of n] by (cases k) auto
qed

theorem ctor_race_witness:
  "(\<exists>p. threadPool_ctor 2 [SetCurrent, EmplaceQueue, EmplaceQueue] = Returns p \<and> addTask 5 p = Undefined) \<and>
   threadPool_ctor 2 [EmplaceQueue, SetCurrent, EmplaceQueue] = Returns (new_pool 2)"
  using ctor_race [of 2 "[SetCurrent, EmplaceQueue, EmplaceQueue]" 5]
    ctor_race [of 2 "[EmplaceQueue, SetCurrent, EmplaceQueue]" 5]
  by (auto simp: ctor_schedules_def)

end
