(* ===== verification/LoopSystem.thy ===== *)
theory LoopSystem
  imports Loop
begin

text \<open>
  The thread pool shared by its threads (\<^verbatim>\<open>include/async/Loop.hpp\<close>).

  The steps are the critical sections of \<^verbatim>\<open>addTask\<close>, \<^verbatim>\<open>runTasks\<close> and
  \<^verbatim>\<open>cleanTasks\<close>, in any interleaving.  The reader-writer lock \<^verbatim>\<open>cleanWorkMutex\<close> is part
  of the state (number of readers, writer or not) with its documented rule: a shared lock is given
  when there is no writer, the exclusive one when there is nobody, and \<^verbatim>\<open>try_lock\<close> may fail.  A running coroutine can make any
  coroutines finish; the address of a destroyed coroutine can be used again by a new one.

  A thread in \<^verbatim>\<open>cv.wait\<close> may wake whenever its queue is not empty: notified or not, as the standard
  allows.  That it is notified in time is shown in \<open>Wakeup\<close>, where the notifications are steps.

  \<^verbatim>\<open>addTask\<close> takes any address and does not look at the coroutine, also not whether it still exists; the
  set \<open>late\<close> records the destroyed ones that were handed over after they had been destroyed.  What a worker does
  with such a one is undefined in C++; here it is like a coroutine that returns at once.
\<close>

subsection \<open>State\<close>

text \<open>Where a worker is in \<^verbatim>\<open>runTasks\<close>.\<close>

datatype worker =
    Idle          \<comment> \<open>between two calls\<close>
  | Holding       \<comment> \<open>has the shared lock, not yet a task\<close>
  | Waiting       \<comment> \<open>in \<^verbatim>\<open>cv.wait\<close>, without the shared lock\<close>
  | Running hnd   \<comment> \<open>has taken this task from its queue, has the shared lock\<close>

record psys =
  pool :: threadPool
  readers :: nat
  writer :: bool
  workers :: "worker list"
  adding :: "(hnd \<times> iter) list"   \<comment> \<open>calls of addTask between their two critical sections\<close>
  dones :: "hnd set"
  destroyed :: "hnd set"
  late :: "hnd set"                \<comment> \<open>handed over again after they were destroyed\<close>

definition new_psys :: "nat \<Rightarrow> psys" where
  "new_psys n = \<lparr>pool = new_pool n, readers = 0, writer = False, workers = replicate n Idle,
                 adding = [], dones = {}, destroyed = {}, late = {}\<rparr>"

subsection \<open>Steps\<close>

inductive pool_step :: "psys \<Rightarrow> psys \<Rightarrow> bool" where
  add_bind:
    "\<lbrakk>\<not> writer s; bindTask h (pool s) = Returns (q, p)\<rbrakk> \<Longrightarrow>
     pool_step s (s\<lparr>readers := Suc (readers s), pool := p, adding := (h, q) # adding s,
                    late := late s \<union> ({h} \<inter> destroyed s)\<rparr>)"
| add_push:
    "\<lbrakk>(h, q) \<in> set (adding s); pushTask h q (pool s) = Returns p\<rbrakk> \<Longrightarrow>
     pool_step s (s\<lparr>readers := readers s - 1, pool := p, adding := remove1 (h, q) (adding s)\<rparr>)"
| run_lock:
    "\<lbrakk>i < length (workers s); workers s ! i = Idle; \<not> writer s\<rbrakk> \<Longrightarrow>
     pool_step s (s\<lparr>readers := Suc (readers s), workers := (workers s)[i := Holding]\<rparr>)"
| run_pop:
    "\<lbrakk>i < length (workers s); workers s ! i = Holding; popTask i (pool s) = Some (h, p)\<rbrakk> \<Longrightarrow>
     pool_step s (s\<lparr>pool := p, workers := (workers s)[i := Running h]\<rparr>)"
| run_wait:
    "\<lbrakk>i < length (workers s); workers s ! i = Holding; popTask i (pool s) = None\<rbrakk> \<Longrightarrow>
     pool_step s (s\<lparr>readers := readers s - 1, workers := (workers s)[i := Waiting]\<rparr>)"
| run_wake:
    "\<lbrakk>i < length (workers s); workers s ! i = Waiting; popTask i (pool s) = Some (h, p); \<not> writer s\<rbrakk> \<Longrightarrow>
     pool_step s (s\<lparr>readers := Suc (readers s), pool := p, workers := (workers s)[i := Running h]\<rparr>)"
| run_give_up:
    "\<lbrakk>i < length (workers s); workers s ! i = Waiting; popTask i (pool s) \<noteq> None\<rbrakk> \<Longrightarrow>
     pool_step s (s\<lparr>workers := (workers s)[i := Idle]\<rparr>)"
| run_finish:
    "\<lbrakk>i < length (workers s); workers s ! i = Running h; D \<inter> destroyed s = {}; h \<in> dones s \<longrightarrow> D = {}\<rbrakk> \<Longrightarrow>
     pool_step s (s\<lparr>readers := readers s - 1, workers := (workers s)[i := Idle], dones := dones s \<union> D\<rparr>)"
| clean_lock:
    "\<lbrakk>\<not> writer s; readers s = 0\<rbrakk> \<Longrightarrow> pool_step s (s\<lparr>writer := True\<rparr>)"
| clean_work:
    "\<lbrakk>writer s; cleanTasks_turn (\<lambda>h. h \<in> dones s) (pool s) = Returns (p, ds)\<rbrakk> \<Longrightarrow>
     pool_step s (s\<lparr>pool := p, destroyed := destroyed s \<union> set ds, late := late s - set ds\<rparr>)"
| clean_unlock:
    "writer s \<Longrightarrow> pool_step s (s\<lparr>writer := False\<rparr>)"
| reuse_address:
    "h \<in> destroyed s \<Longrightarrow>
     pool_step s (s\<lparr>destroyed := destroyed s - {h}, dones := dones s - {h}, late := late s - {h}\<rparr>)"

inductive_cases pool_stepE: "pool_step s s'"

definition reachable :: "nat \<Rightarrow> psys \<Rightarrow> bool" where
  "reachable n s \<longleftrightarrow> pool_step\<^sup>*\<^sup>* (new_psys n) s"

subsection \<open>Invariant\<close>

fun has_lock :: "worker \<Rightarrow> bool" where
  "has_lock Holding = True"
| "has_lock (Running h) = True"
| "has_lock _ = False"

text \<open>
  The lock counts those that use the pool; whoever is adding or running a task knows it bound; a
  bound task is not destroyed, unless it was handed over too late.
\<close>

definition sys_inv :: "psys \<Rightarrow> bool" where
  "sys_inv s \<longleftrightarrow>
     pool_inv (pool s)
     \<and> length (workers s) = length (queueList (pool s))
     \<and> readers s = length (filter has_lock (workers s)) + length (adding s)
     \<and> (writer s \<longrightarrow> readers s = 0)
     \<and> (\<forall>(h, q) \<in> set (adding s). map_of (taskBinding (pool s)) h = Some q)
     \<and> (\<forall>i < length (workers s). \<forall>h. workers s ! i = Running h \<longrightarrow>
          map_of (taskBinding (pool s)) h = Some (Node i))
     \<and> (\<forall>h. h \<in> destroyed s \<longrightarrow> h \<notin> late s \<longrightarrow> map_of (taskBinding (pool s)) h = None)"

lemma sys_inv_new: "0 < n \<Longrightarrow> sys_inv (new_psys n)"
  by (simp add: sys_inv_def new_psys_def pool_inv_new) (simp add: new_pool_def)

lemma holders_update:
  "i < length ws \<Longrightarrow> length (filter has_lock (ws[i := w])) + (if has_lock (ws ! i) then 1 else 0) =
     length (filter has_lock ws) + (if has_lock w then 1 else 0)"
proof (induction ws arbitrary: i)
  case (Cons v ws)
  then show ?case by (cases i) fastforce+
qed simp

lemma holder_counts: "i < length ws \<Longrightarrow> has_lock (ws ! i) \<Longrightarrow> 0 < length (filter has_lock ws)"
  by (metis filter_empty_conv length_greater_0_conv nth_mem)

text \<open>The invariant holds before and after every step.\<close>

lemma inv_bind:
  assumes "sys_inv s" and "\<not> writer s" and "bindTask h (pool s) = Returns (q, p)"
  shows "sys_inv (s\<lparr>readers := Suc (readers s), pool := p, adding := (h, q) # adding s,
    late := late s \<union> ({h} \<inter> destroyed s)\<rparr>)"
proof -
  from assms(1) have p: "pool_inv (pool s)" by (simp add: sys_inv_def)
  note b = bindTask_inv [OF p assms(3)]
  have "map_of (taskBinding p) g = None" if "g \<in> destroyed s" "g \<notin> late s" "g \<noteq> h" for g
  proof -
    have "g \<notin> fst ` set (taskBinding (pool s))"
      using assms(1) that by (simp add: sys_inv_def map_of_eq_None_iff)
    then show ?thesis using b that by (auto simp: map_of_eq_None_iff)
  qed
  with b assms(1,2) show ?thesis by (fastforce simp: sys_inv_def)
qed

lemma inv_push:
  assumes "sys_inv s" and "(h, q) \<in> set (adding s)" and "pushTask h q (pool s) = Returns p"
  shows "sys_inv (s\<lparr>readers := readers s - 1, pool := p, adding := remove1 (h, q) (adding s)\<rparr>)"
proof -
  from assms(1) have p: "pool_inv (pool s)" by (simp add: sys_inv_def)
  have "map_of (taskBinding (pool s)) h = Some q" using assms(1,2) by (auto simp: sys_inv_def)
  note b = pushTask_inv [OF p this assms(3)]
  have "length (queueList p) = length (queueList (pool s))"
    using assms(3) by (auto simp: pushTask_def split: iter.splits if_splits)
  moreover obtain n where "length (adding s) = Suc n" using assms(2) by (cases "adding s") auto
  ultimately show ?thesis
    using b assms(1,2) by (auto simp: sys_inv_def length_remove1 dest: notin_set_remove1 [rotated] set_remove1_subset [THEN subsetD])
qed

lemma inv_worker:
  assumes "sys_inv s" and "i < length (workers s)" and "has_lock (workers s ! i) \<or> \<not> writer s \<or> \<not> has_lock w"
    and "pool_inv p" and "taskBinding p = taskBinding (pool s)"
    and "length (queueList p) = length (queueList (pool s))"
    and "\<And>h. w = Running h \<Longrightarrow> map_of (taskBinding (pool s)) h = Some (Node i)"
    and "r + (if has_lock (workers s ! i) then 1 else 0) = readers s + (if has_lock w then 1 else 0)"
  shows "sys_inv (s\<lparr>readers := r, pool := p, workers := (workers s)[i := w], dones := D\<rparr>)"
proof -
  note u = holders_update [OF assms(2), of w]
  have "writer s \<Longrightarrow> \<not> has_lock (workers s ! i)"
    using assms(1) holder_counts [OF assms(2)] by (auto simp: sys_inv_def)
  then have "writer s \<Longrightarrow> r = 0" using assms(1,3,8) by (auto simp: sys_inv_def split: if_splits)
  moreover have "r = length (filter has_lock ((workers s)[i := w])) + length (adding s)"
    using u assms(1,8) by (auto simp: sys_inv_def split: if_splits)
  moreover have "map_of (taskBinding p) h = Some (Node j)"
    if "j < length (workers s)" and "(workers s)[i := w] ! j = Running h" for j h
    using that assms(1,2,5,7) by (cases "j = i") (auto simp: sys_inv_def)
  ultimately show ?thesis
    using assms(1,4,5,6) by (simp add: sys_inv_def)
qed

lemma inv_clean:
  assumes "sys_inv s" and "writer s" and "cleanTasks_turn (\<lambda>h. h \<in> dones s) (pool s) = Returns (p, ds)"
  shows "sys_inv (s\<lparr>pool := p, destroyed := destroyed s \<union> set ds, late := late s - set ds\<rparr>)"
proof (cases "length (taskBinding (pool s)) < clean_threshold")
  case True
  with assms(3) have "s\<lparr>pool := p, destroyed := destroyed s \<union> set ds, late := late s - set ds\<rparr> = s"
    by (auto simp: cleanTasks_turn_def)
  with assms(1) show ?thesis by simp
next
  case False
  from assms(1) have "pool_inv (pool s)" by (simp add: sys_inv_def)
  from cleanWork_result [OF this, of "\<lambda>h. h \<in> dones s"] assms(3) False
  have c: "pool_inv p" "length (queueList p) = length (queueList (pool s))"
    "\<And>h. map_of (taskBinding p) h = (if h \<in> dones s then None else map_of (taskBinding (pool s)) h)"
    "set ds \<subseteq> dones s"
    by (auto simp: cleanTasks_turn_def)
  have "length (filter has_lock (workers s)) + length (adding s) = 0"
    using assms(1,2) unfolding sys_inv_def by metis
  then have none: "adding s = []" "\<And>i. i < length (workers s) \<Longrightarrow> \<not> has_lock (workers s ! i)"
    using holder_counts [of _ "workers s"] by force+
  have "\<And>i h. i < length (workers s) \<Longrightarrow> workers s ! i \<noteq> Running h" using none(2) by force
  then show ?thesis using assms(1) c none(1) by (auto simp: sys_inv_def)
qed

lemma popTask_step:
  assumes "sys_inv s" and "i < length (workers s)" and "popTask i (pool s) = Some (h, p)"
  shows "pool_inv p \<and> taskBinding p = taskBinding (pool s) \<and> length (queueList p) = length (queueList (pool s)) \<and>
    map_of (taskBinding (pool s)) h = Some (Node i)"
  using popTask_inv [OF _ _ assms(3)] assms(1,2) by (simp add: sys_inv_def)

lemma sys_inv_step: "pool_step s s' \<Longrightarrow> sys_inv s \<Longrightarrow> sys_inv s'"
proof (induction rule: pool_step.induct)
  case (add_bind s h q p)
  then show ?case using inv_bind by blast
next
  case (add_push h q s p)
  then show ?case using inv_push by blast
next
  case (run_lock i s)
  then have "sys_inv (s\<lparr>readers := Suc (readers s), pool := pool s, workers := (workers s)[i := Holding], dones := dones s\<rparr>)"
    by (intro inv_worker) (auto simp: sys_inv_def)
  then show ?case by simp
next
  case (run_pop i s h p)
  note q = popTask_step [OF run_pop.prems run_pop.hyps(1,3)]
  have "sys_inv (s\<lparr>readers := readers s, pool := p, workers := (workers s)[i := Running h], dones := dones s\<rparr>)"
    using run_pop q by (intro inv_worker) auto
  then show ?case by simp
next
  case (run_wait i s)
  then have "0 < length (filter has_lock (workers s))" using holder_counts by simp
  then have "0 < readers s" using run_wait.prems by (simp add: sys_inv_def)
  then have "sys_inv (s\<lparr>readers := readers s - 1, pool := pool s, workers := (workers s)[i := Waiting], dones := dones s\<rparr>)"
    using run_wait by (intro inv_worker) (auto simp: sys_inv_def)
  then show ?case by simp
next
  case (run_wake i s h p)
  note q = popTask_step [OF run_wake.prems run_wake.hyps(1,3)]
  have "sys_inv (s\<lparr>readers := Suc (readers s), pool := p, workers := (workers s)[i := Running h], dones := dones s\<rparr>)"
    using run_wake q by (intro inv_worker) auto
  then show ?case by simp
next
  case (run_give_up i s)
  then have "sys_inv (s\<lparr>readers := readers s, pool := pool s, workers := (workers s)[i := Idle], dones := dones s\<rparr>)"
    by (intro inv_worker) (auto simp: sys_inv_def)
  then show ?case by simp
next
  case (run_finish i s h D)
  then have "0 < length (filter has_lock (workers s))" using holder_counts by simp
  then have "0 < readers s" using run_finish.prems by (simp add: sys_inv_def)
  then have "sys_inv (s\<lparr>readers := readers s - 1, pool := pool s, workers := (workers s)[i := Idle], dones := dones s \<union> D\<rparr>)"
    using run_finish by (intro inv_worker) (auto simp: sys_inv_def)
  then show ?case by simp
next
  case (clean_work s p ds)
  then show ?case using inv_clean by blast
qed (auto simp: sys_inv_def)

lemma reachable_workers: "reachable n s \<Longrightarrow> length (workers s) = n"
  unfolding reachable_def
  by (induction rule: rtranclp_induct) (auto simp: new_psys_def elim!: pool_stepE)

lemma sys_inv_reachable: "reachable n s \<Longrightarrow> 0 < n \<Longrightarrow> sys_inv s"
  unfolding reachable_def
  by (induction rule: rtranclp_induct) (use sys_inv_new sys_inv_step in blast)+

subsection \<open>Some reachable states\<close>

lemma count_concat_filter: "\<not> P h \<Longrightarrow> count (mset (concat (map (filter (\<lambda>x. \<not> P x)) qs))) h = count (mset (concat qs)) h"
  by (induction qs) (simp_all add: count_mset count_list_0_iff)

lemma reachable_step: "reachable n s \<Longrightarrow> pool_step s s' \<Longrightarrow> reachable n s'"
  by (simp add: reachable_def rtranclp.rtrancl_into_rtrancl)

lemma reachable_add:
  assumes "reachable n s" and "\<not> writer s" and "h \<notin> destroyed s" and "addTask h (pool s) = Returns p"
  shows "reachable n (s\<lparr>pool := p\<rparr>)"
proof -
  from assms(4) obtain q p1 where b: "bindTask h (pool s) = Returns (q, p1)" "pushTask h q p1 = Returns p"
    by (auto simp: addTask_def split: outcome.splits prod.splits)
  let ?s = "s\<lparr>readers := Suc (readers s), pool := p1, adding := (h, q) # adding s\<rparr>"
  have "s\<lparr>readers := Suc (readers s), pool := p1, adding := (h, q) # adding s,
      late := late s \<union> ({h} \<inter> destroyed s)\<rparr> = ?s"
    using assms(3) by simp
  then have "reachable n ?s"
    using reachable_step [OF assms(1) pool_step.add_bind [OF assms(2) b(1)]] by simp
  moreover have "pool_step ?s (?s\<lparr>readers := readers ?s - 1, pool := p, adding := remove1 (h, q) (adding ?s)\<rparr>)"
    using b(2) by (intro pool_step.add_push) simp_all
  ultimately show ?thesis using reachable_step by fastforce
qed

lemma reachable_adds:
  "reachable n s \<Longrightarrow> \<not> writer s \<Longrightarrow> set hs \<inter> destroyed s = {} \<Longrightarrow> addTasks hs (pool s) = Returns p \<Longrightarrow>
     reachable n (s\<lparr>pool := p\<rparr>)"
proof (induction hs arbitrary: s)
  case Nil
  then show ?case by (cases s) auto
next
  case (Cons h hs)
  from Cons.prems(4) obtain p1 where a: "addTask h (pool s) = Returns p1" "addTasks hs p1 = Returns p"
    by (cases "addTask h (pool s)") auto
  have "reachable n (s\<lparr>pool := p1\<rparr>)" using reachable_add [OF Cons.prems(1,2) _ a(1)] Cons.prems(3) by simp
  from Cons.IH [OF this] Cons.prems(2,3) a(2) show ?case by simp
qed

definition demo_waiting :: psys where
  "demo_waiting = (new_psys 2)\<lparr>pool := \<lparr>queueList = [[5], []], currentQueue = Node 1, taskBinding = [(5, Node 0)]\<rparr>\<rparr>"

definition demo_running :: psys where
  "demo_running = demo_waiting\<lparr>readers := 1,
     pool := \<lparr>queueList = [[], []], currentQueue = Node 1, taskBinding = [(5, Node 0)]\<rparr>,
     workers := [Running 5, Idle]\<rparr>"

lemma demo_waiting: "reachable 2 demo_waiting"
proof -
  have "addTask 5 (pool (new_psys 2)) =
      Returns \<lparr>queueList = [[5], []], currentQueue = Node 1, taskBinding = [(5, Node 0)]\<rparr>"
    by (simp add: new_psys_def new_pool_def addTask_def bindTask_def pushTask_def iter_next_def numeral_2_eq_2)
  then show ?thesis unfolding demo_waiting_def
    by (intro reachable_add [of 2 "new_psys 2" 5]) (simp_all add: reachable_def new_psys_def)
qed

lemma demo_running: "reachable 2 demo_running"
proof -
  let ?s = "demo_waiting\<lparr>readers := Suc 0, workers := [Holding, Idle]\<rparr>"
  have "pool_step demo_waiting ?s"
    using pool_step.run_lock [of 0 demo_waiting] by (simp add: demo_waiting_def new_psys_def numeral_2_eq_2)
  moreover have "pool_step ?s demo_running"
    using pool_step.run_pop [of 0 ?s 5]
    by (simp add: demo_running_def demo_waiting_def new_psys_def popTask_def)
  ultimately show ?thesis using demo_waiting reachable_step by blast
qed

lemma pool_inv_length: "pool_inv p \<Longrightarrow> length (taskBinding p) = card (fst ` set (taskBinding p))"
  unfolding pool_inv_def using distinct_card [of "map fst (taskBinding p)"] by simp

lemma addTasks_bound:
  "pool_inv p \<Longrightarrow> addTasks hs p = Returns p' \<Longrightarrow>
     pool_inv p' \<and> fst ` set (taskBinding p') = set hs \<union> fst ` set (taskBinding p)"
proof (induction hs arbitrary: p)
  case Nil
  then show ?case by simp
next
  case (Cons h hs)
  obtain p1 where a: "addTask h p = Returns p1" "pool_inv p1"
    "fst ` set (taskBinding p1) = insert h (fst ` set (taskBinding p))"
    using addTask_result [OF Cons.prems(1)] by metis
  from Cons.IH [OF a(2)] Cons.prems(2) a show ?case by auto
qed

text \<open>The cleaner has destroyed a coroutine: 10000 tasks are bound, and task 5 has finished.\<close>

lemma demo_cleaned: "\<exists>s. reachable 2 s \<and> writer s \<and> 5 \<in> destroyed s \<and> late s = {} \<and> waiting (pool s) \<noteq> {#}"
proof -
  let ?f = "demo_running\<lparr>readers := 0, workers := [Idle, Idle], dones := {5}\<rparr>"
  have "pool_step demo_running ?f"
    using pool_step.run_finish [of 0 demo_running 5 "{5}"]
    by (simp add: demo_running_def demo_waiting_def new_psys_def)
  then have f: "reachable 2 ?f" using demo_running reachable_step by blast
  have inv: "pool_inv (pool ?f)" using sys_inv_reachable [OF f] by (simp add: sys_inv_def)
  obtain p where p: "addTasks [0..<10000] (pool ?f) = Returns p" "waiting p = waiting (pool ?f) + mset [0..<10000]"
    using addTasks_result [OF inv] by blast
  note b = addTasks_bound [OF inv p(1)]
  have bound: "fst ` set (taskBinding p) = {0..<10000}"
    using b by (auto simp: demo_running_def)
  let ?a = "?f\<lparr>pool := p\<rparr>"
  have "reachable 2 ?a"
    using reachable_adds [OF f _ _ p(1)] by (simp add: demo_running_def demo_waiting_def new_psys_def)
  then have l: "reachable 2 (?a\<lparr>writer := True\<rparr>)"
    by (rule reachable_step) (intro pool_step.clean_lock, simp_all add: demo_running_def demo_waiting_def new_psys_def)
  obtain p' ds where c: "cleanWork (\<lambda>h. h \<in> {5}) p = Returns (p', ds)" "5 \<in> set ds" "pool_inv p'"
    "queueList p' = map (filter (\<lambda>h. \<not> h \<in> {5})) (queueList p)"
    using cleanWork_result [of p "\<lambda>h. h \<in> {5}"] b bound by force
  have "cleanTasks_turn (\<lambda>h. h \<in> dones (?a\<lparr>writer := True\<rparr>)) (pool (?a\<lparr>writer := True\<rparr>)) = Returns (p', ds)"
    using c(1) b pool_inv_length [of p] bound by (simp add: cleanTasks_turn_def clean_threshold_def)
  from reachable_step [OF l pool_step.clean_work [OF _ this]]
  have "reachable 2 (?a\<lparr>writer := True, pool := p', destroyed := destroyed ?a \<union> set ds, late := late ?a - set ds\<rparr>)" by simp
  moreover have "count (waiting p') 0 = count (waiting p) 0"
    using count_concat_filter [of "\<lambda>h. h \<in> {5}" 0 "queueList p"] c(4) by (simp add: waiting_def)
  moreover have "0 < count (waiting p) 0" by (simp add: p(2) del: mset_upt)
  then have "waiting p' \<noteq> {#}" using calculation(2) by (metis count_empty less_irrefl)
  moreover have "late ?f = {}" by (simp add: demo_running_def demo_waiting_def new_psys_def)
  ultimately show ?thesis using c(2)
    by (intro exI [of _ "?a\<lparr>writer := True, pool := p', destroyed := destroyed ?a \<union> set ds, late := late ?a - set ds\<rparr>"]) auto
qed

subsection \<open>What it means for the program\<close>

text \<open>
  C4: a coroutine never runs on two workers at a time, whatever the interleaving, however often and by
  however many threads it was handed over.
\<close>

theorem never_runs_twice:
  assumes "0 < n" and "reachable n s"
    and "i < n" and "j < n" and "workers s ! i = Running h" and "workers s ! j = Running h"
  shows "i = j"
proof -
  have "length (workers s) = n" by (rule reachable_workers [OF assms(2)])
  then have "Some (Node i) = Some (Node j)"
    using sys_inv_reachable [OF assms(2,1)] assms(3-6) unfolding sys_inv_def by metis
  then show ?thesis by simp
qed

theorem never_runs_twice_witness:
  "reachable 2 demo_running \<and> workers demo_running ! 0 = Running 5 \<and>
     workers demo_running ! 1 \<noteq> Running 5"
  using never_runs_twice [of 2 demo_running 0 1 5] demo_running by (auto simp: demo_running_def)

text \<open>
  C5: the pool itself never uses a coroutine after it was destroyed.  In every reachable state a destroyed
  coroutine is in no queue, on no worker, in no call of \<^verbatim>\<open>addTask\<close> and not bound, unless somebody handed its
  address to \<^verbatim>\<open>addTask\<close> after it was destroyed for the last time; that is checked nowhere.
\<close>

theorem no_use_after_destroy:
  assumes "0 < n" and "reachable n s" and "h \<in> destroyed s" and "h \<notin> late s"
  shows "h \<notin># waiting (pool s) \<and> Running h \<notin> set (workers s) \<and> h \<notin> fst ` set (adding s) \<and>
    map_of (taskBinding (pool s)) h = None"
proof -
  note i = sys_inv_reachable [OF assms(2,1)]
  then have p: "pool_inv (pool s)" and none: "map_of (taskBinding (pool s)) h = None"
    using assms(3,4) by (simp_all add: sys_inv_def)
  have "h \<notin> set (queueList (pool s) ! k)" if "k < length (queueList (pool s))" for k
    using pool_inv_queue [OF p that] none by auto
  then have "\<forall>ts \<in> set (queueList (pool s)). h \<notin> set ts" by (metis in_set_conv_nth)
  then have "h \<notin># waiting (pool s)" by (auto simp: waiting_def)
  moreover have "Running h \<notin> set (workers s)"
    using i none by (auto simp: sys_inv_def in_set_conv_nth)
  moreover have "h \<notin> fst ` set (adding s)" using i none by (auto simp: sys_inv_def)
  ultimately show ?thesis using none by blast
qed

theorem no_use_after_destroy_witness:
  "\<exists>s. reachable 2 s \<and> 5 \<in> destroyed s \<and> waiting (pool s) \<noteq> {#} \<and> 5 \<notin># waiting (pool s)"
proof -
  obtain s where "reachable 2 s" "5 \<in> destroyed s" "late s = {}" "waiting (pool s) \<noteq> {#}" using demo_cleaned by blast
  then show ?thesis using no_use_after_destroy [of 2 s 5] by auto
qed

text \<open>Nothing keeps a destroyed coroutine from being queued again: \<^verbatim>\<open>addTask\<close> does it for any address.\<close>

lemma late_add_is_queued:
  assumes "0 < n" and "reachable n s" and "\<not> writer s" and "h \<in> destroyed s"
  shows "\<exists>t. pool_step\<^sup>*\<^sup>* s t \<and> h \<in> destroyed t \<and> h \<in># waiting (pool t)"
proof -
  have p: "pool_inv (pool s)" using sys_inv_reachable [OF assms(2,1)] by (simp add: sys_inv_def)
  obtain q p1 where b: "bindTask h (pool s) = Returns (q, p1)" using bindTask_total [OF p] by blast
  note i = bindTask_inv [OF p b]
  obtain k where "k < length (queueList p1)" "q = Node k" using i pool_inv_bound [of p1 h q] by blast
  then obtain p2 where p2: "pushTask h q p1 = Returns p2" using pushTask_total [of k p1 h] by blast
  let ?s = "s\<lparr>readers := Suc (readers s), pool := p1, adding := (h, q) # adding s, late := late s \<union> ({h} \<inter> destroyed s)\<rparr>"
  let ?t = "?s\<lparr>readers := readers ?s - 1, pool := p2, adding := remove1 (h, q) (adding ?s)\<rparr>"
  have "pool_step s ?s" using b assms(3) by (intro pool_step.add_bind)
  moreover have "pool_step ?s ?t" using p2 by (intro pool_step.add_push) simp_all
  ultimately have "pool_step\<^sup>*\<^sup>* s ?t" by (meson converse_rtranclp_into_rtranclp r_into_rtranclp)
  moreover have "h \<in># waiting (pool ?t)" using pushTask_inv [OF _ _ p2] i by simp
  ultimately show ?thesis using assms(4) by (intro exI [of _ ?t]) simp
qed

text \<open>
  C32: the shared pool never uses a wrong iterator.  In every reachable state \<^verbatim>\<open>addTask\<close> finds a
  queue for any task, every thread that has found one can push its task there, and the cleaner can
  clean, whatever coroutines are done: none of them is undefined and none throws.
\<close>

theorem pool_stays_defined:
  assumes "0 < n" and "reachable n s"
  shows "(\<exists>i p. i < n \<and> bindTask h (pool s) = Returns (Node i, p)) \<and>
    (\<forall>(g, q) \<in> set (adding s). \<exists>p. pushTask g q (pool s) = Returns p) \<and>
    (\<exists>p ds. cleanTasks_turn d (pool s) = Returns (p, ds))"
proof (intro conjI ballI)
  note i = sys_inv_reachable [OF assms(2,1)]
  then have p: "pool_inv (pool s)" and l: "length (queueList (pool s)) = n"
    using reachable_workers [OF assms(2)] by (simp_all add: sys_inv_def)
  show "\<exists>i p. i < n \<and> bindTask h (pool s) = Returns (Node i, p)" using bindTask_total [OF p] l by auto
  show "case x of (g, q) \<Rightarrow> \<exists>p. pushTask g q (pool s) = Returns p" if "x \<in> set (adding s)" for x
  proof -
    obtain g q where x: "x = (g, q)" by (metis prod.exhaust)
    then have "map_of (taskBinding (pool s)) g = Some q" using that i by (auto simp: sys_inv_def)
    from pool_inv_bound [OF p this] show ?thesis by (auto simp: x pushTask_def)
  qed
  show "\<exists>p ds. cleanTasks_turn d (pool s) = Returns (p, ds)"
    using cleanWork_result [OF p, of d] by (auto simp: cleanTasks_turn_def)
qed

theorem pool_stays_defined_witness:
  "\<exists>i p. i < 2 \<and> bindTask 7 (pool demo_running) = Returns (Node i, p)"
  using pool_stays_defined [of 2 demo_running 7] demo_running by simp

text \<open>
  The clean-up runs alone.  While the cleaner has the lock no worker runs a task or is about to,
  and nobody is inside \<^verbatim>\<open>addTask\<close>.
\<close>

lemma clean_runs_alone:
  assumes "0 < n" and "reachable n s" and "writer s"
  shows "adding s = [] \<and> (\<forall>w \<in> set (workers s). \<not> has_lock w)"
proof -
  have "length (filter has_lock (workers s)) + length (adding s) = 0"
    using sys_inv_reachable [OF assms(2,1)] assms(3) unfolding sys_inv_def by metis
  then show ?thesis by (simp add: filter_empty_conv)
qed

text \<open>How often a coroutine is handed over and not yet taken by a worker.\<close>

definition pending :: "psys \<Rightarrow> hnd \<Rightarrow> nat" where
  "pending s h = count (waiting (pool s)) h + count (mset (map fst (adding s))) h"

lemma clean_keeps_waiting:
  assumes "pool_inv p" and "cleanTasks_turn d p = Returns (p', ds)" and "\<not> d h"
  shows "count (waiting p') h = count (waiting p) h"
proof (cases "length (taskBinding p) < clean_threshold")
  case False
  with cleanWork_result [OF assms(1), of d] assms(2)
  have "queueList p' = map (filter (\<lambda>h. \<not> d h)) (queueList p)" by (auto simp: cleanTasks_turn_def)
  then show ?thesis using count_concat_filter [of d h, OF assms(3)] by (simp add: waiting_def)
qed (use assms(2) in \<open>auto simp: cleanTasks_turn_def\<close>)

lemma count_remove1_fst:
  "(h, q) \<in> set xs \<Longrightarrow> add_mset h (mset (map fst (remove1 (h, q) xs))) = mset (map fst xs)"
  by (induction xs) auto

text \<open>
  C25: no handed-over task is lost.  A step of any thread keeps all the pending runs of a coroutine,
  unless it is the step with which a worker takes one of them to run it, or the coroutine is done
  and is cleaned up.
\<close>

theorem no_task_lost:
  assumes "0 < n" and "reachable n s" and "pool_step s s'"
  shows "pending s h \<le> pending s' h \<or>
    pending s h = Suc (pending s' h) \<and> (\<exists>i. workers s' = (workers s)[i := Running h]) \<or> h \<in> dones s"
proof -
  note inv = sys_inv_reachable [OF assms(2,1)]
  then have p: "pool_inv (pool s)" by (simp add: sys_inv_def)
  from assms(3) show ?thesis
  proof cases
    case (add_bind g q r)
    have "waiting r = waiting (pool s)"
      using bindTask_inv [OF p add_bind(3)] by (simp add: waiting_def)
    with add_bind(1) show ?thesis by (simp add: pending_def)
  next
    case (add_push g q r)
    have "map_of (taskBinding (pool s)) g = Some q" using inv add_push(2) by (auto simp: sys_inv_def)
    with pushTask_inv [OF p _ add_push(3)] have w: "waiting r = add_mset g (waiting (pool s))" by simp
    have "pending s' h = pending s h"
      unfolding pending_def count_remove1_fst [OF add_push(2), symmetric] by (simp add: add_push(1) w)
    then show ?thesis by simp
  next
    case (run_pop i g r)
    have "waiting (pool s) = add_mset g (waiting r)"
      using popTask_inv [OF p _ run_pop(4)] run_pop(2) inv by (simp add: sys_inv_def)
    with run_pop(1) show ?thesis by (auto simp: pending_def)
  next
    case (run_wake i g r)
    have "waiting (pool s) = add_mset g (waiting r)"
      using popTask_inv [OF p _ run_wake(4)] run_wake(2) inv by (simp add: sys_inv_def)
    with run_wake(1) show ?thesis by (auto simp: pending_def)
  next
    case (clean_work r ds)
    then show ?thesis
      using clean_keeps_waiting [OF p clean_work(3), of h] by (auto simp: pending_def)
  qed (auto simp: pending_def)
qed

theorem no_task_lost_witness:
  "\<exists>s'. pool_step demo_waiting s' \<and> pending demo_waiting 5 \<le> pending s' 5"
proof -
  let ?s = "demo_waiting\<lparr>readers := Suc 0, workers := [Holding, Idle]\<rparr>"
  have s: "pool_step demo_waiting ?s"
    using pool_step.run_lock [of 0 demo_waiting] by (simp add: demo_waiting_def new_psys_def numeral_2_eq_2)
  have "\<not> (\<exists>i. workers ?s = (workers demo_waiting)[i := Running 5])"
  proof
    assume "\<exists>i. workers ?s = (workers demo_waiting)[i := Running 5]"
    then obtain i where "[Holding, Idle] = [Idle, Idle][i := Running 5]"
      by (auto simp: demo_waiting_def new_psys_def numeral_2_eq_2)
    then show False by (cases i) auto
  qed
  then show ?thesis
    using no_task_lost [OF _ demo_waiting s, of 5] s by (auto simp: demo_waiting_def new_psys_def)
qed

lemma reachable_path: "reachable n s \<Longrightarrow> pool_step\<^sup>*\<^sup>* s t \<Longrightarrow> reachable n t"
  unfolding reachable_def by (rule rtranclp_trans)

end
