(* ===== verification/Locks.thy ===== *)
theory Locks
  imports LoopSystem
begin

text \<open>
  The locks of the thread pool (\<^verbatim>\<open>include/async/Loop.hpp\<close>): \<^verbatim>\<open>addTask\<close>,
  \<^verbatim>\<open>runTasks\<close> and \<^verbatim>\<open>cleanTasks\<close> with every acquisition and release of
  \<^verbatim>\<open>cleanWorkMutex\<close>, \<^verbatim>\<open>bindingMutex\<close>, \<^verbatim>\<open>queueCounterMutex\<close> and the mutexes of
  the queues as a step of its own.

  Who holds a lock is read off the program counters.  A step of a thread that has to wait for a lock is possible
  only when the lock is free for it.  \<^verbatim>\<open>std::shared_mutex\<close> leaves open whether a waiting writer keeps
  new readers out; this is the parameter \<open>pref\<close> of the steps.

  The first results are that shared data are changed by the holder of their lock only, and that the steps of
  \<open>LoopSystem\<close>, each a whole critical section, are a correct view of these.  The others, in \<open>Deadlock\<close> and
  \<open>Wakeup\<close>, are that the locks are always released again and that no worker sleeps through a notification.
\<close>

subsection \<open>Program counters\<close>

text \<open>A call of \<^verbatim>\<open>addTask\<close>: what it waits for or has got.\<close>

datatype apc =
    ALock hnd           \<comment> \<open>waits for the shared lock\<close>
  | ABind hnd           \<comment> \<open>has it, waits for \<^verbatim>\<open>bindingMutex\<close>\<close>
  | AHave hnd           \<comment> \<open>has it\<close>
  | ACount hnd          \<comment> \<open>waits for \<^verbatim>\<open>queueCounterMutex\<close> besides\<close>
  | ACounted hnd        \<comment> \<open>has both\<close>
  | AQueue hnd iter     \<comment> \<open>has only the shared lock, waits for the queue\<close>
  | APush hnd iter      \<comment> \<open>has the queue's mutex\<close>
  | ANotify hnd iter    \<comment> \<open>has only the shared lock, is about to call \<^verbatim>\<open>notify_all\<close>\<close>

text \<open>A worker in \<^verbatim>\<open>runTasks\<close>; a running coroutine may be inside \<^verbatim>\<open>addTask\<close>.\<close>

datatype wpc =
    WLock               \<comment> \<open>waits for the shared lock\<close>
  | WQueue              \<comment> \<open>has it, waits for the mutex of its queue\<close>
  | WCheck              \<comment> \<open>has both\<close>
  | WWait               \<comment> \<open>sleeps in \<^verbatim>\<open>cv.wait\<close>, has none\<close>
  | WWoken              \<comment> \<open>woken up, waits for the mutex of its queue to test the predicate again\<close>
  | WTry                \<comment> \<open>has the mutex and returned from \<^verbatim>\<open>cv.wait\<close>, tries the shared lock\<close>
  | WTake               \<comment> \<open>has both\<close>
  | WRun hnd "apc option"

text \<open>The main thread: it adds the first coroutines, and then it is the cleaner.\<close>

datatype cpc =
    MIdle
  | MAdd apc
  | CLock               \<comment> \<open>waits for the exclusive lock\<close>
  | CCheck              \<comment> \<open>has it\<close>
  | CQueues "(hnd \<times> iter) list" "nat list"     \<comment> \<open>waits for the mutex of the next queue\<close>
  | CHeld "(hnd \<times> iter) list" nat "nat list"   \<comment> \<open>has it\<close>
  | CSleep

record lsys =
  lpool :: threadPool
  lworkers :: "wpc list"
  cleaner :: cpc
  ldones :: "hnd set"
  ldestroyed :: "hnd set"

definition new_lsys :: "nat \<Rightarrow> lsys" where
  "new_lsys n = \<lparr>lpool = new_pool n, lworkers = replicate n WLock, cleaner = MIdle, ldones = {}, ldestroyed = {}\<rparr>"

subsection \<open>Who holds what\<close>

fun call_of :: "wpc \<Rightarrow> apc list" where
  "call_of (WRun h (Some a)) = [a]"
| "call_of _ = []"

fun main_call :: "cpc \<Rightarrow> apc list" where
  "main_call (MAdd a) = [a]"
| "main_call _ = []"

definition calls :: "lsys \<Rightarrow> apc list" where
  "calls s = concat (map call_of (lworkers s)) @ main_call (cleaner s)"

fun wshared :: "wpc \<Rightarrow> bool" where
  "wshared WLock = False"
| "wshared WWait = False"
| "wshared WWoken = False"
| "wshared WTry = False"
| "wshared _ = True"

fun ashared :: "apc \<Rightarrow> bool" where
  "ashared (ALock g) = False"
| "ashared _ = True"

definition shared_held :: "lsys \<Rightarrow> bool" where
  "shared_held s \<longleftrightarrow> (\<exists>w \<in> set (lworkers s). wshared w) \<or> (\<exists>a \<in> set (main_call (cleaner s)). ashared a)"

fun writing :: "cpc \<Rightarrow> bool" where
  "writing CCheck = True"
| "writing (CQueues dt qs) = True"
| "writing (CHeld dt i qs) = True"
| "writing _ = False"

definition can_share :: "bool \<Rightarrow> lsys \<Rightarrow> bool" where
  "can_share pref s \<longleftrightarrow> \<not> writing (cleaner s) \<and> (pref \<longrightarrow> cleaner s \<noteq> CLock)"

fun abinding :: "apc \<Rightarrow> bool" where
  "abinding (AHave g) = True"
| "abinding (ACount g) = True"
| "abinding (ACounted g) = True"
| "abinding _ = False"

definition binding_held :: "lsys \<Rightarrow> bool" where
  "binding_held s \<longleftrightarrow> (\<exists>a \<in> set (calls s). abinding a)"

definition counter_held :: "lsys \<Rightarrow> bool" where
  "counter_held s \<longleftrightarrow> (\<exists>g. ACounted g \<in> set (calls s))"

fun wqueue :: "wpc \<Rightarrow> bool" where
  "wqueue WCheck = True"
| "wqueue WTry = True"
| "wqueue WTake = True"
| "wqueue _ = False"

fun cqueue :: "cpc \<Rightarrow> nat \<Rightarrow> bool" where
  "cqueue (CHeld dt j qs) i \<longleftrightarrow> i = j"
| "cqueue _ i \<longleftrightarrow> False"

definition queue_held :: "nat \<Rightarrow> lsys \<Rightarrow> bool" where
  "queue_held i s \<longleftrightarrow>
     (i < length (lworkers s) \<and> wqueue (lworkers s ! i)) \<or> (\<exists>g. APush g (Node i) \<in> set (calls s)) \<or> cqueue (cleaner s) i"

subsection \<open>Steps\<close>

text \<open>The branch for a task that is not bound: what is done under \<^verbatim>\<open>queueCounterMutex\<close>.\<close>

definition bindNext :: "hnd \<Rightarrow> threadPool \<Rightarrow> (iter \<times> threadPool) outcome" where
  "bindNext task p =
     (case currentQueue p of
        End \<Rightarrow> Undefined
      | Node i \<Rightarrow>
          let nxt = iter_next (queueList p) i;
              nxt = (if nxt = End then list_begin (queueList p) else nxt)
          in Returns (Node i, p\<lparr>currentQueue := nxt,
                        taskBinding := AList.update task (Node i) (taskBinding p)\<rparr>))"

text \<open>A step of a call of \<^verbatim>\<open>addTask\<close>, up to the notification.\<close>

inductive add_step :: "bool \<Rightarrow> lsys \<Rightarrow> apc \<Rightarrow> apc option \<Rightarrow> threadPool \<Rightarrow> bool" for pref s where
  a_lock: "can_share pref s \<Longrightarrow> add_step pref s (ALock g) (Some (ABind g)) (lpool s)"
| a_bind: "\<not> binding_held s \<Longrightarrow> add_step pref s (ABind g) (Some (AHave g)) (lpool s)"
| a_known:
    "map_of (taskBinding (lpool s)) g = Some q \<Longrightarrow> add_step pref s (AHave g) (Some (AQueue g q)) (lpool s)"
| a_new: "map_of (taskBinding (lpool s)) g = None \<Longrightarrow> add_step pref s (AHave g) (Some (ACount g)) (lpool s)"
| a_count: "\<not> counter_held s \<Longrightarrow> add_step pref s (ACount g) (Some (ACounted g)) (lpool s)"
| a_next: "bindNext g (lpool s) = Returns (q, p) \<Longrightarrow> add_step pref s (ACounted g) (Some (AQueue g q)) p"
| a_queue: "\<not> queue_held i s \<Longrightarrow> add_step pref s (AQueue g (Node i)) (Some (APush g (Node i))) (lpool s)"
| a_push: "pushTask g q (lpool s) = Returns p \<Longrightarrow> add_step pref s (APush g q) (Some (ANotify g q)) p"

inductive_cases add_stepE: "add_step pref s a a' p"

text \<open>The last step, \<^verbatim>\<open>notify_all\<close>: the worker of the queue is woken if it sleeps.\<close>

definition notified :: "iter \<Rightarrow> wpc list \<Rightarrow> wpc list" where
  "notified q ws =
     (case q of
        Node i \<Rightarrow> if i < length ws \<and> ws ! i = WWait then ws[i := WWoken] else ws
      | End \<Rightarrow> ws)"

fun main_after :: "apc option \<Rightarrow> cpc" where
  "main_after None = MIdle"
| "main_after (Some a) = MAdd a"

definition done_tasks :: "lsys \<Rightarrow> (hnd \<times> iter) list" where
  "done_tasks s = filter (\<lambda>(h, q). h \<in> ldones s) (taskBinding (lpool s))"

text \<open>
  Coroutines are created by running ones or by the main thread before it cleans, so no address is used again
  while the cleaner works.  A sleeping worker may also wake without a notification.
\<close>

inductive lock_step :: "bool \<Rightarrow> lsys \<Rightarrow> lsys \<Rightarrow> bool" for pref where
  main_calls:
    "cleaner s = MIdle \<Longrightarrow> lock_step pref s (s\<lparr>cleaner := MAdd (ALock g)\<rparr>)"
| main_adds:
    "\<lbrakk>cleaner s = MAdd a; add_step pref s a a' p\<rbrakk> \<Longrightarrow>
     lock_step pref s (s\<lparr>cleaner := main_after a', lpool := p\<rparr>)"
| main_notifies:
    "cleaner s = MAdd (ANotify g q) \<Longrightarrow>
     lock_step pref s (s\<lparr>cleaner := MIdle, lworkers := notified q (lworkers s)\<rparr>)"
| main_enters: "cleaner s = MIdle \<Longrightarrow> lock_step pref s (s\<lparr>cleaner := CLock\<rparr>)"
| w_lock:
    "\<lbrakk>i < length (lworkers s); lworkers s ! i = WLock; can_share pref s\<rbrakk> \<Longrightarrow>
     lock_step pref s (s\<lparr>lworkers := (lworkers s)[i := WQueue]\<rparr>)"
| w_queue:
    "\<lbrakk>i < length (lworkers s); lworkers s ! i = WQueue; \<not> queue_held i s\<rbrakk> \<Longrightarrow>
     lock_step pref s (s\<lparr>lworkers := (lworkers s)[i := WCheck]\<rparr>)"
| w_pop:
    "\<lbrakk>i < length (lworkers s); lworkers s ! i = WCheck; popTask i (lpool s) = Some (h, p)\<rbrakk> \<Longrightarrow>
     lock_step pref s (s\<lparr>lworkers := (lworkers s)[i := WRun h None], lpool := p\<rparr>)"
| w_wait:
    "\<lbrakk>i < length (lworkers s); lworkers s ! i = WCheck; popTask i (lpool s) = None\<rbrakk> \<Longrightarrow>
     lock_step pref s (s\<lparr>lworkers := (lworkers s)[i := WWait]\<rparr>)"
| w_spurious:
    "\<lbrakk>i < length (lworkers s); lworkers s ! i = WWait\<rbrakk> \<Longrightarrow>
     lock_step pref s (s\<lparr>lworkers := (lworkers s)[i := WWoken]\<rparr>)"
| w_sleep:
    "\<lbrakk>i < length (lworkers s); lworkers s ! i = WWoken; \<not> queue_held i s; popTask i (lpool s) = None\<rbrakk> \<Longrightarrow>
     lock_step pref s (s\<lparr>lworkers := (lworkers s)[i := WWait]\<rparr>)"
| w_wake:
    "\<lbrakk>i < length (lworkers s); lworkers s ! i = WWoken; \<not> queue_held i s; popTask i (lpool s) \<noteq> None\<rbrakk> \<Longrightarrow>
     lock_step pref s (s\<lparr>lworkers := (lworkers s)[i := WTry]\<rparr>)"
| w_give_up:
    "\<lbrakk>i < length (lworkers s); lworkers s ! i = WTry\<rbrakk> \<Longrightarrow>
     lock_step pref s (s\<lparr>lworkers := (lworkers s)[i := WLock]\<rparr>)"
| w_try:
    "\<lbrakk>i < length (lworkers s); lworkers s ! i = WTry; can_share pref s\<rbrakk> \<Longrightarrow>
     lock_step pref s (s\<lparr>lworkers := (lworkers s)[i := WTake]\<rparr>)"
| w_take:
    "\<lbrakk>i < length (lworkers s); lworkers s ! i = WTake; popTask i (lpool s) = Some (h, p)\<rbrakk> \<Longrightarrow>
     lock_step pref s (s\<lparr>lworkers := (lworkers s)[i := WRun h None], lpool := p\<rparr>)"
| w_calls:
    "\<lbrakk>i < length (lworkers s); lworkers s ! i = WRun h None; h \<notin> ldones s\<rbrakk> \<Longrightarrow>
     lock_step pref s (s\<lparr>lworkers := (lworkers s)[i := WRun h (Some (ALock g))]\<rparr>)"
| w_adds:
    "\<lbrakk>i < length (lworkers s); lworkers s ! i = WRun h (Some a); add_step pref s a a' p\<rbrakk> \<Longrightarrow>
     lock_step pref s (s\<lparr>lworkers := (lworkers s)[i := WRun h a'], lpool := p\<rparr>)"
| w_notifies:
    "\<lbrakk>i < length (lworkers s); lworkers s ! i = WRun h (Some (ANotify g q))\<rbrakk> \<Longrightarrow>
     lock_step pref s (s\<lparr>lworkers := notified q ((lworkers s)[i := WRun h None])\<rparr>)"
| w_finish:
    "\<lbrakk>i < length (lworkers s); lworkers s ! i = WRun h None; D \<inter> ldestroyed s = {}; h \<in> ldones s \<longrightarrow> D = {}\<rbrakk> \<Longrightarrow>
     lock_step pref s (s\<lparr>lworkers := (lworkers s)[i := WLock], ldones := ldones s \<union> D\<rparr>)"
| c_lock:
    "\<lbrakk>cleaner s = CLock; \<not> shared_held s\<rbrakk> \<Longrightarrow> lock_step pref s (s\<lparr>cleaner := CCheck\<rparr>)"
| c_small:
    "\<lbrakk>cleaner s = CCheck; length (taskBinding (lpool s)) < clean_threshold\<rbrakk> \<Longrightarrow>
     lock_step pref s (s\<lparr>cleaner := CSleep\<rparr>)"
| c_collect:
    "\<lbrakk>cleaner s = CCheck; clean_threshold \<le> length (taskBinding (lpool s));
      distinct qs; Node ` set qs = snd ` set (done_tasks s)\<rbrakk> \<Longrightarrow>
     lock_step pref s (s\<lparr>cleaner := CQueues (done_tasks s) qs,
       lpool := (lpool s)\<lparr>taskBinding := filter (\<lambda>(h, q). h \<notin> ldones s) (taskBinding (lpool s))\<rparr>\<rparr>)"
| c_queue:
    "\<lbrakk>cleaner s = CQueues dt (i # qs); \<not> queue_held i s\<rbrakk> \<Longrightarrow> lock_step pref s (s\<lparr>cleaner := CHeld dt i qs\<rparr>)"
| c_erase:
    "cleaner s = CHeld dt i qs \<Longrightarrow>
     lock_step pref s (s\<lparr>cleaner := CQueues dt qs,
       lpool := (lpool s)\<lparr>queueList := (queueList (lpool s))
         [i := filter (\<lambda>h. (h, Node i) \<notin> set dt) (queueList (lpool s) ! i)]\<rparr>,
       ldestroyed := ldestroyed s \<union> {h. (h, Node i) \<in> set dt}\<rparr>)"
| c_unlock: "cleaner s = CQueues dt [] \<Longrightarrow> lock_step pref s (s\<lparr>cleaner := CSleep\<rparr>)"
| c_again: "cleaner s = CSleep \<Longrightarrow> lock_step pref s (s\<lparr>cleaner := CLock\<rparr>)"
| reuse:
    "\<lbrakk>h \<in> ldestroyed s; \<not> writing (cleaner s)\<rbrakk> \<Longrightarrow>
     lock_step pref s (s\<lparr>ldestroyed := ldestroyed s - {h}, ldones := ldones s - {h}\<rparr>)"

inductive_cases lock_stepE: "lock_step pref s s'"

definition lreachable :: "bool \<Rightarrow> nat \<Rightarrow> lsys \<Rightarrow> bool" where
  "lreachable pref n s \<longleftrightarrow> (lock_step pref)\<^sup>*\<^sup>* (new_lsys n) s"

subsection \<open>Mutual exclusion\<close>

fun pushes :: "nat \<Rightarrow> apc \<Rightarrow> bool" where
  "pushes i (APush g q) \<longleftrightarrow> q = Node i"
| "pushes i _ \<longleftrightarrow> False"

text \<open>How many threads have the mutex of a queue.\<close>

definition queue_holders :: "nat \<Rightarrow> lsys \<Rightarrow> nat" where
  "queue_holders i s =
     (if i < length (lworkers s) \<and> wqueue (lworkers s ! i) then 1 else 0)
     + length (filter (pushes i) (calls s)) + (if cqueue (cleaner s) i then 1 else 0)"

fun counting :: "apc \<Rightarrow> hnd option" where
  "counting (ACount g) = Some g"
| "counting (ACounted g) = Some g"
| "counting _ = None"

definition lock_inv :: "nat \<Rightarrow> lsys \<Rightarrow> bool" where
  "lock_inv n s \<longleftrightarrow>
     length (lworkers s) = n \<and> length (queueList (lpool s)) = n
     \<and> (writing (cleaner s) \<longrightarrow> \<not> shared_held s)
     \<and> length (filter abinding (calls s)) \<le> 1
     \<and> (\<forall>i < n. queue_holders i s \<le> 1)
     \<and> (\<forall>i < n. lworkers s ! i \<in> {WTry, WTake} \<longrightarrow> queueList (lpool s) ! i \<noteq> [])
     \<and> (\<forall>a \<in> set (calls s). \<forall>g. counting a = Some g \<longrightarrow> map_of (taskBinding (lpool s)) g = None)"

lemma lock_invD:
  assumes "lock_inv n s"
  shows "length (lworkers s) = n" and "length (queueList (lpool s)) = n"
    and "writing (cleaner s) \<Longrightarrow> \<not> shared_held s"
    and "length (filter abinding (calls s)) \<le> 1"
    and "i < n \<Longrightarrow> queue_holders i s \<le> 1"
    and "i < n \<Longrightarrow> lworkers s ! i \<in> {WTry, WTake} \<Longrightarrow> queueList (lpool s) ! i \<noteq> []"
    and "a \<in> set (calls s) \<Longrightarrow> counting a = Some g \<Longrightarrow> map_of (taskBinding (lpool s)) g = None"
  using assms unfolding lock_inv_def by blast+

lemma queue_held_iff: "queue_held i s \<longleftrightarrow> queue_holders i s \<noteq> 0"
proof -
  have "(\<exists>g. APush g (Node i) \<in> set (calls s)) \<longleftrightarrow> (\<exists>a \<in> set (calls s). pushes i a)"
    by (metis pushes.elims(2) pushes.simps(1))
  then show ?thesis by (auto simp: queue_held_def queue_holders_def filter_empty_conv)
qed

lemma bindTask_next: "map_of (taskBinding p) g = None \<Longrightarrow> bindTask g p = bindNext g p"
  by (simp add: bindTask_def bindNext_def)

lemma bindNext_keeps:
  "bindNext g p = Returns (q, p') \<Longrightarrow> queueList p' = queueList p"
  by (auto simp: bindNext_def Let_def split: iter.splits)

lemma pushTask_keeps:
  "pushTask g q p = Returns p' \<Longrightarrow>
     taskBinding p' = taskBinding p \<and> length (queueList p') = length (queueList p) \<and>
     (\<forall>i < length (queueList p). queueList p ! i \<noteq> [] \<longrightarrow> queueList p' ! i \<noteq> [])"
  by (auto simp: pushTask_def nth_list_update split: iter.splits if_splits)

lemma popTask_keeps:
  "popTask i p = Some (h, p') \<Longrightarrow>
     taskBinding p' = taskBinding p \<and> length (queueList p') = length (queueList p) \<and>
     (\<forall>j. j \<noteq> i \<longrightarrow> queueList p' ! j = queueList p ! j)"
  by (auto simp: popTask_def split: list.splits)

text \<open>The calls when a worker changes.\<close>

lemma concat_map_update:
  "i < length xs \<Longrightarrow> mset (concat (map f (xs[i := x]))) + mset (f (xs ! i)) = mset (concat (map f xs)) + mset (f x)"
proof (induction xs arbitrary: i)
  case (Cons y xs)
  then show ?case by (cases i) (auto simp: ac_simps)
qed simp

lemma calls_worker:
  "i < length (lworkers s) \<Longrightarrow> lworkers s' = (lworkers s)[i := w] \<Longrightarrow> cleaner s' = cleaner s \<Longrightarrow>
     mset (calls s') + mset (call_of (lworkers s ! i)) = mset (calls s) + mset (call_of w)"
  using concat_map_update [of i "lworkers s" call_of w] by (simp add: calls_def ac_simps)

lemma filter_mset_eq: "mset xs = mset ys \<Longrightarrow> length (filter P xs) = length (filter P ys)"
  by (metis mset_filter size_mset)

lemma calls_same:
  "mset (calls s') = mset (calls s) \<Longrightarrow>
     set (calls s') = set (calls s) \<and> length (filter P (calls s')) = length (filter P (calls s))"
  using filter_mset_eq mset_eq_setD by blast

lemma call_shared: "x \<in> set (call_of w) \<Longrightarrow> wshared w"
  by (cases w rule: call_of.cases) auto

lemma inv_worker_lock:
  assumes "lock_inv n s" and "i < n" and "call_of (lworkers s ! i) = []" and "call_of w = []"
    and "length (queueList p) = n" and "taskBinding p = taskBinding (lpool s)"
    and "\<And>j. j \<noteq> i \<Longrightarrow> queueList p ! j = queueList (lpool s) ! j"
    and "wshared w \<Longrightarrow> wshared (lworkers s ! i) \<or> \<not> writing (cleaner s)"
    and "wqueue w \<Longrightarrow> wqueue (lworkers s ! i) \<or> \<not> queue_held i s"
    and "w \<in> {WTry, WTake} \<Longrightarrow> queueList p ! i \<noteq> []"
  shows "lock_inv n (s\<lparr>lworkers := (lworkers s)[i := w], lpool := p, ldones := D\<rparr>)" (is "lock_inv n ?t")
proof -
  note inv = lock_invD [OF assms(1)]
  have "mset (calls ?t) = mset (calls s)"
    using calls_worker [of i s ?t w] assms(2-4) inv(1) by simp
  note c = calls_same [OF this]
  have h: "queue_holders j ?t \<le> 1" if "j < n" for j
  proof (cases "j = i")
    case True
    then show ?thesis
      using inv(5) [OF that] c [of "pushes i"] assms(2,9) inv(1)
      by (auto simp: queue_holders_def queue_held_iff split: if_splits)
  next
    case False
    then show ?thesis using inv(5) [OF that] c [of "pushes j"] by (simp add: queue_holders_def)
  qed
  have sh: "\<not> shared_held ?t" if "writing (cleaner ?t)"
  proof -
    have n: "\<not> shared_held s" using that inv(3) by simp
    then have "\<not> wshared w" using assms(2,8) inv(1) that by (auto simp: shared_held_def)
    then have "\<forall>v \<in> set ((lworkers s)[i := w]). \<not> wshared v"
      using n set_update_subset_insert [of "lworkers s" i w] by (auto simp: shared_held_def)
    then show ?thesis using n by (simp add: shared_held_def)
  qed
  have ne: "queueList p ! j \<noteq> []" if "j < n" "(lworkers s)[i := w] ! j \<in> {WTry, WTake}" for j
    using that assms(7,10) inv(1,6) by (cases "j = i") auto
  show ?thesis unfolding lock_inv_def
    using inv(1,4,7) assms(5,6) h sh ne c by simp
qed

text \<open>A call of \<^verbatim>\<open>addTask\<close> changes to another place, begins or ends; nobody cleans meanwhile.\<close>

lemma inv_call_lock:
  assumes "lock_inv n s" and "mset (calls s) = C + mset a" and "mset (calls t) = C + mset a'"
    and "length (lworkers t) = n" and "length (queueList (lpool t)) = n" and "\<not> writing (cleaner t)"
    and "\<And>i. i < n \<Longrightarrow> wqueue (lworkers t ! i) = wqueue (lworkers s ! i)"
    and "\<And>i. i < n \<Longrightarrow> lworkers t ! i \<in> {WTry, WTake} \<Longrightarrow> lworkers s ! i \<in> {WTry, WTake}"
    and "\<And>i. i < n \<Longrightarrow> queueList (lpool s) ! i \<noteq> [] \<Longrightarrow> queueList (lpool t) ! i \<noteq> []"
    and "filter abinding a' = [] \<or> filter abinding a \<noteq> [] \<and> length a' \<le> 1 \<or> \<not> binding_held s \<and> length a' \<le> 1"
    and "\<And>i. filter (pushes i) a' = [] \<or> \<not> queue_held i s \<and> length a' \<le> 1"
    and "\<And>x g. x \<in> set a' \<Longrightarrow> counting x = Some g \<Longrightarrow> map_of (taskBinding (lpool t)) g = None"
    and "taskBinding (lpool t) = taskBinding (lpool s) \<or> filter abinding a \<noteq> []"
  shows "lock_inv n t"
proof -
  note inv = lock_invD [OF assms(1)]
  have f: "length (filter P (calls s)) = size (filter_mset P C) + length (filter P a)"
    "length (filter P (calls t)) = size (filter_mset P C) + length (filter P a')" for P
    using assms(2,3) by (metis filter_union_mset mset_filter size_mset size_union)+
  have s: "set (calls s) = set_mset C \<union> set a" "set (calls t) = set_mset C \<union> set a'"
    using assms(2,3) by (metis set_mset_mset set_mset_union)+
  have le: "length (filter P a') \<le> 1" if "length a' \<le> 1" for P
    using that le_trans [OF length_filter_le] by blast
  have none: "filter_mset abinding C = {#}" if "filter abinding a \<noteq> [] \<or> \<not> binding_held s"
  proof (cases "filter abinding a = []")
    case True
    then have "filter abinding (calls s) = []" using that by (auto simp: binding_held_def filter_empty_conv)
    then have "size (filter_mset abinding C) = 0" using f(1) [of abinding] by simp
    then show ?thesis by simp
  next
    case False
    then have "0 < length (filter abinding a)" by blast
    then have "size (filter_mset abinding C) = 0" using inv(4) f(1) [of abinding] by linarith
    then show ?thesis by simp
  qed
  have b: "length (filter abinding (calls t)) \<le> 1"
    using assms(10)
  proof (elim disjE conjE)
    assume "filter abinding a' = []"
    then show ?thesis using inv(4) unfolding f by simp
  qed (simp_all only: f none le size_empty add_0 simp_thms)
  have q: "queue_holders i t \<le> 1" if "i < n" for i
  proof (cases "filter (pushes i) a' = []")
    case True
    then have "length (filter (pushes i) (calls t)) \<le> length (filter (pushes i) (calls s))" unfolding f by simp
    moreover have "\<not> cqueue (cleaner t) i" using assms(6) by (cases "cleaner t") auto
    ultimately show ?thesis
      using inv(1) inv(5) [OF that] assms(4,7) that by (simp add: queue_holders_def split: if_splits)
  next
    case False
    then have n: "queue_holders i s = 0" "length a' \<le> 1" using assms(11) by (auto simp: queue_held_iff)
    moreover have "\<not> cqueue (cleaner t) i" using assms(6) by (cases "cleaner t") auto
    moreover have "length (filter (pushes i) (calls t)) \<le> 1"
      using n f [of "pushes i"] le [of "pushes i"] unfolding queue_holders_def by linarith
    ultimately show ?thesis
      using inv(1) assms(4,7) that by (simp add: queue_holders_def split: if_splits)
  qed
  have cnt: "counting x = Some g \<Longrightarrow> abinding x" for x g by (cases x) auto
  have u: "map_of (taskBinding (lpool t)) g = None" if "x \<in># C" "counting x = Some g" for x g
  proof (cases "filter abinding a = []")
    case True
    then have "taskBinding (lpool t) = taskBinding (lpool s)" using assms(13) by blast
    with inv(7) that s show ?thesis by auto
  next
    case False
    then have "\<forall>x. x \<in># C \<longrightarrow> \<not> abinding x" using none by simp
    then show ?thesis using that cnt by blast
  qed
  show ?thesis unfolding lock_inv_def
  proof (intro conjI)
    show "\<forall>i < n. lworkers t ! i \<in> {WTry, WTake} \<longrightarrow> queueList (lpool t) ! i \<noteq> []"
      using assms(8,9) inv(6) by blast
    show "\<forall>x \<in> set (calls t). \<forall>g. counting x = Some g \<longrightarrow> map_of (taskBinding (lpool t)) g = None"
      using s u assms(12) by auto
  qed (use assms(4,5,6) b q in auto)
qed

text \<open>A step of the cleaner, which is not in \<^verbatim>\<open>addTask\<close> then.\<close>

lemma inv_cleaner_lock:
  assumes "lock_inv n s" and "main_call (cleaner s) = []" and "main_call c = []"
    and "writing c \<Longrightarrow> \<not> shared_held s" and "length (queueList p) = n"
    and "\<And>i. cqueue c i \<Longrightarrow> \<not> queue_held i s"
    and "\<And>i. i < n \<Longrightarrow> queueList (lpool s) ! i \<noteq> [] \<Longrightarrow> \<not> wqueue (lworkers s ! i) \<or> queueList p ! i \<noteq> []"
    and "shared_held s \<Longrightarrow> taskBinding p = taskBinding (lpool s)"
  shows "lock_inv n (s\<lparr>cleaner := c, lpool := p, ldones := E, ldestroyed := D\<rparr>)" (is "lock_inv n ?t")
proof -
  note inv = lock_invD [OF assms(1)]
  have c: "calls ?t = calls s" using assms(2,3) by (simp add: calls_def)
  have busy: "shared_held s" if x: "x \<in> set (calls s)" for x
  proof -
    obtain w where "w \<in> set (lworkers s)" "x \<in> set (call_of w)"
      using x assms(2) by (auto simp: calls_def)
    then show ?thesis using call_shared [of x w] by (auto simp: shared_held_def)
  qed
  have q: "queue_holders i ?t \<le> 1" if "i < n" for i
    using inv(5) [OF that] assms(6) [of i] c by (auto simp: queue_holders_def queue_held_iff split: if_splits)
  show ?thesis unfolding lock_inv_def
  proof (intro conjI)
    show "\<forall>i < n. lworkers ?t ! i \<in> {WTry, WTake} \<longrightarrow> queueList (lpool ?t) ! i \<noteq> []"
      using assms(7) inv(6) by fastforce
    show "\<forall>x \<in> set (calls ?t). \<forall>g. counting x = Some g \<longrightarrow> map_of (taskBinding (lpool ?t)) g = None"
      unfolding c using busy inv(7) assms(8) by auto
    show "writing (cleaner ?t) \<longrightarrow> \<not> shared_held ?t"
      using assms(2,3,4) by (simp add: shared_held_def)
  qed (use inv(1,4) c assms(5) q in simp_all)
qed

fun call_left :: "apc option \<Rightarrow> apc list" where
  "call_left None = []"
| "call_left (Some a) = [a]"

lemma call_left: "length (call_left a') \<le> 1" "x \<in> set (call_left a') \<longleftrightarrow> a' = Some x"
  by (cases a'; auto)+

lemma add_step_facts:
  assumes "add_step pref s a a' p" and "length (queueList (lpool s)) = n"
  shows "length (queueList p) = n" and "queueList (lpool s) ! i \<noteq> [] \<Longrightarrow> i < n \<Longrightarrow> queueList p ! i \<noteq> []"
    and "filter abinding (call_left a') = [] \<or> abinding a \<or> \<not> binding_held s"
    and "filter (pushes i) (call_left a') = [] \<or> \<not> queue_held i s"
    and "taskBinding p = taskBinding (lpool s) \<or> abinding a"
    and "a' = Some x \<Longrightarrow> counting x = Some g \<Longrightarrow>
      taskBinding p = taskBinding (lpool s) \<and> (counting a = Some g \<or> map_of (taskBinding (lpool s)) g = None)"
  using assms by (cases; auto dest: bindNext_keeps pushTask_keeps)+

lemma lock_inv_new: "lock_inv n (new_lsys n)"
proof -
  have "concat (map call_of (replicate n WLock)) = []" by simp
  then have "calls (new_lsys n) = []" by (simp add: calls_def new_lsys_def)
  then show ?thesis by (auto simp: lock_inv_def new_lsys_def new_pool_def queue_holders_def)
qed

text \<open>Every step keeps the invariant.\<close>

lemma inv_main_adds:
  assumes "lock_inv n s" and "cleaner s = MAdd a" and "add_step pref s a a' p"
  shows "lock_inv n (s\<lparr>cleaner := main_after a', lpool := p\<rparr>)"
proof -
  note inv = lock_invD [OF assms(1)]
  note f = add_step_facts [OF assms(3) inv(2)]
  let ?l = "call_left a'"
  have a: "a \<in> set (calls s)" using assms(2) by (simp add: calls_def)
  have m: "main_call (main_after a') = ?l" "\<not> writing (main_after a')" by (cases a'; simp)+
  show ?thesis
  proof (rule inv_call_lock [OF assms(1), of "mset (concat (map call_of (lworkers s)))" "[a]" _ ?l])
    show "map_of (taskBinding (lpool (s\<lparr>cleaner := main_after a', lpool := p\<rparr>))) g = None"
      if "x \<in> set ?l" "counting x = Some g" for x g
    proof -
      have "a' = Some x" using that(1) by (simp add: call_left)
      from f(6) [OF this that(2)] inv(7) [OF a] show ?thesis by auto
    qed
  qed (use inv(1) f(1-5) m assms(2) call_left(1) [of a'] in \<open>auto simp: calls_def\<close>)
qed

lemma calls_w_adds:
  assumes "i < length (lworkers s)" and "lworkers s ! i = WRun h (Some a)"
    and "lworkers t = (lworkers s)[i := WRun h a']" and "cleaner t = cleaner s"
  obtains C where "mset (calls s) = C + mset [a]" and "mset (calls t) = C + mset (call_left a')"
    and "a \<in> set (calls s)"
proof -
  have a: "a \<in> set (calls s)"
    using assms(1,2) nth_mem [of i "lworkers s"] by (force simp: calls_def)
  define C where "C = mset (calls s) - {#a#}"
  have s: "mset (calls s) = C + mset [a]" using a by (simp add: C_def)
  have "mset (calls t) + mset [a] = C + mset (call_left a') + mset [a]"
    using calls_worker [OF assms(1,3,4)] assms(2) s by (cases a') (simp_all add: ac_simps)
  then show thesis using that s a by simp
qed

lemma inv_w_adds:
  assumes "lock_inv n s" and "i < n" and "lworkers s ! i = WRun h (Some a)" and "add_step pref s a a' p"
  shows "lock_inv n (s\<lparr>lworkers := (lworkers s)[i := WRun h a'], lpool := p\<rparr>)" (is "lock_inv n ?t")
proof -
  note inv = lock_invD [OF assms(1)]
  note f = add_step_facts [OF assms(4) inv(2)]
  let ?l = "call_left a'"
  obtain C where s: "mset (calls s) = C + mset [a]" and t: "mset (calls ?t) = C + mset ?l" and a: "a \<in> set (calls s)"
    using calls_w_adds [of i s h a ?t a'] assms(2,3) inv(1) by auto
  have "wshared (lworkers s ! i)" using assms(3) by (cases a) simp_all
  then have w: "\<not> writing (cleaner s)" using inv(1,3) assms(2) by (auto simp: shared_held_def)
  show ?thesis
  proof (rule inv_call_lock [OF assms(1) s t])
    show "map_of (taskBinding (lpool ?t)) g = None" if "x \<in> set ?l" "counting x = Some g" for x g
    proof -
      have "a' = Some x" using that(1) by (simp add: call_left)
      from f(6) [OF this that(2)] inv(7) [OF a] show ?thesis by auto
    qed
    show "wqueue (lworkers ?t ! j) = wqueue (lworkers s ! j)" if "j < n" for j
      using that assms(2,3) inv(1) by (cases "j = i"; cases a'; simp)
    show "lworkers s ! j \<in> {WTry, WTake}" if "j < n" "lworkers ?t ! j \<in> {WTry, WTake}" for j
      using that assms(2) inv(1) by (cases "j = i") auto
  qed (use inv(1) f(1-5) w call_left(1) [of a'] in auto)
qed

lemma inv_call_begins:
  assumes "lock_inv n s" and "mset (calls t) = mset (calls s) + mset [ALock g]"
    and "lpool t = lpool s" and "length (lworkers t) = n"
    and "\<not> writing (cleaner t)"
    and "\<And>j. j < n \<Longrightarrow> wqueue (lworkers t ! j) = wqueue (lworkers s ! j)"
    and "\<And>j. j < n \<Longrightarrow> lworkers t ! j \<in> {WTry, WTake} \<Longrightarrow> lworkers s ! j \<in> {WTry, WTake}"
  shows "lock_inv n t"
  by (rule inv_call_lock [OF assms(1) _ assms(2), where a = "[]"])
    (use assms lock_invD(2) [OF assms(1)] in auto)

lemma inv_w_calls:
  assumes "lock_inv n s" and "i < n" and "lworkers s ! i = WRun h None"
  shows "lock_inv n (s\<lparr>lworkers := (lworkers s)[i := WRun h (Some (ALock g))]\<rparr>)" (is "lock_inv n ?t")
proof -
  note inv = lock_invD [OF assms(1)]
  have "wshared (lworkers s ! i)" using assms(3) by simp
  then have w: "\<not> writing (cleaner s)" using inv(1,3) assms(2) by (auto simp: shared_held_def)
  show ?thesis
  proof (rule inv_call_begins [OF assms(1)])
    show "mset (calls ?t) = mset (calls s) + mset [ALock g]"
      using calls_worker [of i s ?t "WRun h (Some (ALock g))"] assms(2,3) inv(1) by simp
    show "wqueue (lworkers ?t ! j) = wqueue (lworkers s ! j)" if "j < n" for j
      using that assms(2,3) inv(1) by (cases "j = i") simp_all
    show "lworkers s ! j \<in> {WTry, WTake}" if "j < n" "lworkers ?t ! j \<in> {WTry, WTake}" for j
      using that assms(2) inv(1) by (cases "j = i") auto
  qed (use inv(1) w in simp_all)
qed

lemma notified_nth:
  "length (notified q ws) = length ws"
  "i < length ws \<Longrightarrow> notified q ws ! i = (if q = Node i \<and> ws ! i = WWait then WWoken else ws ! i)"
  "map wabs' (notified q ws) = map wabs' ws \<longleftrightarrow> (\<forall>i < length ws. q = Node i \<and> ws ! i = WWait \<longrightarrow> wabs' WWoken = wabs' WWait)"
proof -
  show "length (notified q ws) = length ws" by (simp add: notified_def split: iter.split)
  show n: "i < length ws \<Longrightarrow> notified q ws ! i = (if q = Node i \<and> ws ! i = WWait then WWoken else ws ! i)" for i
    by (auto simp: notified_def nth_list_update split: iter.split)
  show "map wabs' (notified q ws) = map wabs' ws \<longleftrightarrow>
      (\<forall>i < length ws. q = Node i \<and> ws ! i = WWait \<longrightarrow> wabs' WWoken = wabs' WWait)"
    using n by (auto simp: list_eq_iff_nth_eq \<open>length (notified q ws) = length ws\<close>)
qed

lemma notified_calls: "concat (map call_of (notified q ws)) = concat (map call_of ws)"
proof -
  have "map call_of (notified q ws) = map call_of ws" by (simp add: notified_nth(3))
  then show ?thesis by simp
qed

lemma inv_notified:
  assumes "lock_inv n s" and "mset (calls s) = C + mset [ANotify g q]" and "mset (calls t) = C"
    and "lworkers t = notified q ws" and "length ws = n" and "lpool t = lpool s" and "\<not> writing (cleaner t)"
    and "\<And>i. i < n \<Longrightarrow> ws ! i = lworkers s ! i \<or> (\<exists>h a. lworkers s ! i = WRun h a \<and> ws ! i = WRun h None)"
  shows "lock_inv n t"
proof (rule inv_call_lock [OF assms(1,2), of t "[]"])
  have w: "wqueue (ws ! i) = wqueue (lworkers s ! i)" "ws ! i \<in> {WTry, WTake} \<Longrightarrow> ws ! i = lworkers s ! i"
    if "i < n" for i using assms(8) [OF that] by auto
  show "wqueue (lworkers t ! i) = wqueue (lworkers s ! i)" if "i < n" for i
    using w(1) [OF that] that assms(4,5) by (auto simp: notified_nth)
  show "lworkers s ! i \<in> {WTry, WTake}" if "i < n" "lworkers t ! i \<in> {WTry, WTake}" for i
    using w(2) [OF that(1)] that assms(4,5) by (auto simp: notified_nth split: if_splits)
qed (use assms lock_invD(2) [OF assms(1)] in \<open>simp_all add: notified_nth\<close>)

lemma lock_inv_step: "lock_step pref s t \<Longrightarrow> lock_inv n s \<Longrightarrow> lock_inv n t"
proof (induction rule: lock_step.induct)
  case (main_calls s g)
  then show ?case
    using lock_invD(1) [OF main_calls.prems] by (intro inv_call_begins [OF main_calls.prems]) (auto simp: calls_def)
next
  case (main_adds s a a' p)
  then show ?case using inv_main_adds by blast
next
  case (w_adds i s h a a' p)
  then show ?case using inv_w_adds lock_invD(1) by blast
next
  case (main_notifies s g q)
  show ?case
    using lock_invD(1) [OF main_notifies.prems] main_notifies.hyps
    by (intro inv_notified [OF main_notifies.prems, of "mset (concat (map call_of (lworkers s)))" g q _ "lworkers s"])
      (simp_all add: calls_def notified_calls)
next
  case (w_notifies i s h g q)
  let ?ws = "(lworkers s)[i := WRun h None]"
  have i: "i < n" using lock_invD(1) [OF w_notifies.prems] w_notifies.hyps(1) by simp
  obtain C where C: "mset (calls s) = C + mset [ANotify g q]" "mset (calls (s\<lparr>lworkers := ?ws\<rparr>)) = C + mset (call_left None)"
    using calls_w_adds [of i s h "ANotify g q" "s\<lparr>lworkers := ?ws\<rparr>" None] w_notifies.hyps by auto
  have "wshared (lworkers s ! i)" using w_notifies.hyps(2) by simp
  then have "\<not> writing (cleaner s)"
    using lock_invD(3) [OF w_notifies.prems] w_notifies.hyps(1) by (auto simp: shared_held_def)
  moreover have "?ws ! j = lworkers s ! j \<or> (\<exists>h a. lworkers s ! j = WRun h a \<and> ?ws ! j = WRun h None)" if "j < n" for j
    using w_notifies.hyps by (cases "j = i") simp_all
  ultimately show ?case
    using lock_invD(1) [OF w_notifies.prems] C
    by (intro inv_notified [OF w_notifies.prems C(1), of _ ?ws]) (simp_all add: calls_def notified_calls)
next
  case (w_spurious i s)
  then show ?case
    using inv_worker_lock [of n s i WWoken "lpool s" "ldones s"] lock_invD(1,2) [OF w_spurious.prems] by simp
next
  case (w_sleep i s)
  then show ?case
    using inv_worker_lock [of n s i WWait "lpool s" "ldones s"] lock_invD(1,2) [OF w_sleep.prems] by simp
next
  case (w_calls i s h g)
  then show ?case using inv_w_calls lock_invD(1) by blast
next
  case (w_lock i s)
  then show ?case
    using inv_worker_lock [of n s i WQueue "lpool s" "ldones s"] lock_invD(1,2) [OF w_lock.prems]
    by (simp add: can_share_def)
next
  case (w_queue i s)
  then show ?case
    using inv_worker_lock [of n s i WCheck "lpool s" "ldones s"] lock_invD(1,2) [OF w_queue.prems] by simp
next
  case (w_pop i s h p)
  then show ?case
    using inv_worker_lock [of n s i "WRun h None" p "ldones s"] lock_invD(1,2) [OF w_pop.prems] popTask_keeps by simp
next
  case (w_wait i s)
  then show ?case
    using inv_worker_lock [of n s i WWait "lpool s" "ldones s"] lock_invD(1,2) [OF w_wait.prems] by simp
next
  case (w_wake i s)
  then show ?case
    using inv_worker_lock [of n s i WTry "lpool s" "ldones s"] lock_invD(1,2) [OF w_wake.prems]
    by (auto simp: popTask_def split: list.splits)
next
  case (w_give_up i s)
  then show ?case
    using inv_worker_lock [of n s i WLock "lpool s" "ldones s"] lock_invD(1,2) [OF w_give_up.prems] by simp
next
  case (w_try i s)
  then show ?case
    using inv_worker_lock [of n s i WTake "lpool s" "ldones s"] lock_invD(1,2,6) [OF w_try.prems]
    by (simp add: can_share_def)
next
  case (w_take i s h p)
  have "wshared (lworkers s ! i)" using w_take.hyps by simp
  then show ?case
    using w_take inv_worker_lock [of n s i "WRun h None" p "ldones s"] lock_invD(1,2) [OF w_take.prems] popTask_keeps by simp
next
  case (w_finish i s h D)
  then show ?case
    using inv_worker_lock [of n s i WLock "lpool s" "ldones s \<union> D"] lock_invD(1,2) [OF w_finish.prems] by simp
next
  case (main_enters s)
  then show ?case
    using inv_cleaner_lock [of n s CLock "lpool s" "ldestroyed s" "ldones s"] lock_invD(2) [OF main_enters.prems] by simp
next
  case (c_lock s)
  then show ?case
    using inv_cleaner_lock [of n s CCheck "lpool s" "ldestroyed s" "ldones s"] lock_invD(2) [OF c_lock.prems] by simp
next
  case (c_small s)
  then show ?case
    using inv_cleaner_lock [of n s CSleep "lpool s" "ldestroyed s" "ldones s"] lock_invD(2) [OF c_small.prems] by simp
next
  case (c_collect s qs)
  let ?p = "(lpool s)\<lparr>taskBinding := filter (\<lambda>(h, q). h \<notin> ldones s) (taskBinding (lpool s))\<rparr>"
  have "lock_inv n (s\<lparr>cleaner := CQueues (done_tasks s) qs, lpool := ?p, ldones := ldones s, ldestroyed := ldestroyed s\<rparr>)"
    by (rule inv_cleaner_lock) (use c_collect lock_invD(2,3) [OF c_collect.prems] in auto)
  then show ?case by simp
next
  case (c_queue s dt i qs)
  then show ?case
    using inv_cleaner_lock [of n s "CHeld dt i qs" "lpool s" "ldestroyed s" "ldones s"] lock_invD(2,3) [OF c_queue.prems] by simp
next
  case (c_erase s dt i qs)
  let ?p = "(lpool s)\<lparr>queueList := (queueList (lpool s))
         [i := filter (\<lambda>h. (h, Node i) \<notin> set dt) (queueList (lpool s) ! i)]\<rparr>"
  have "\<not> wqueue (lworkers s ! j) \<or> queueList ?p ! j \<noteq> []" if "j < n" "queueList (lpool s) ! j \<noteq> []" for j
    using that lock_invD(1) [OF c_erase.prems] lock_invD(5) [OF c_erase.prems that(1)] c_erase.hyps
    by (cases "j = i") (auto simp: queue_holders_def split: if_splits)
  then have "lock_inv n (s\<lparr>cleaner := CQueues dt qs, lpool := ?p, ldones := ldones s,
      ldestroyed := ldestroyed s \<union> {h. (h, Node i) \<in> set dt}\<rparr>)"
    by (intro inv_cleaner_lock) (use c_erase lock_invD(2,3) [OF c_erase.prems] in auto)
  then show ?case by simp
next
  case (c_unlock s dt)
  then show ?case
    using inv_cleaner_lock [of n s CSleep "lpool s" "ldestroyed s" "ldones s"] lock_invD(2) [OF c_unlock.prems] by simp
next
  case (c_again s)
  then show ?case
    using inv_cleaner_lock [of n s CLock "lpool s" "ldestroyed s" "ldones s"] lock_invD(2) [OF c_again.prems] by simp
next
  case (reuse h s)
  then show ?case by (auto simp: lock_inv_def calls_def queue_holders_def shared_held_def)
qed

lemma lock_inv_reachable: "lreachable pref n s \<Longrightarrow> lock_inv n s"
  unfolding lreachable_def by (induction rule: rtranclp_induct) (use lock_inv_new lock_inv_step in blast)+

lemma lreachable_step: "lreachable pref n s \<Longrightarrow> lock_step pref s t \<Longrightarrow> lreachable pref n t"
  by (simp add: lreachable_def rtranclp.rtrancl_into_rtrancl)

text \<open>A run of one worker: the main thread adds coroutine 5 and cleans, coroutine 5 adds coroutine 6.\<close>

definition demo_locks :: "threadPool \<Rightarrow> wpc \<Rightarrow> cpc \<Rightarrow> lsys" where
  "demo_locks p w c = \<lparr>lpool = p, lworkers = [w], cleaner = c, ldones = {}, ldestroyed = {}\<rparr>"

definition demo_bound :: "hnd list \<Rightarrow> threadPool" where
  "demo_bound hs = \<lparr>queueList = [hs], currentQueue = Node 0, taskBinding = [(5, Node 0)]\<rparr>"

lemma demo_locks [simp]:
  "lpool (demo_locks p w c) = p" "lworkers (demo_locks p w c) = [w]" "cleaner (demo_locks p w c) = c"
  "ldones (demo_locks p w c) = {}" "ldestroyed (demo_locks p w c) = {}"
  "demo_locks p w c\<lparr>lpool := p'\<rparr> = demo_locks p' w c" "demo_locks p w c\<lparr>lworkers := [w']\<rparr> = demo_locks p w' c"
  "demo_locks p w c\<lparr>cleaner := c'\<rparr> = demo_locks p w c'"
  "calls (demo_locks p w c) = call_of w @ main_call c"
  by (simp_all add: demo_locks_def calls_def)

lemma demo_adds:
  assumes "lreachable pref 1 (demo_locks p w (MAdd a))" and "add_step pref (demo_locks p w (MAdd a)) a a' q"
  shows "lreachable pref 1 (demo_locks q w (main_after a'))"
  using lreachable_step [OF assms(1) lock_step.main_adds [OF _ assms(2)]] by simp

lemma demo_added: "lreachable pref 1 (demo_locks (demo_bound [5]) WLock MIdle)"
proof -
  let ?d = "\<lambda>p a. demo_locks p WLock (MAdd a)"
  have "lreachable pref 1 (demo_locks (new_pool 1) WLock MIdle)"
    by (simp add: lreachable_def new_lsys_def demo_locks_def)
  then have "lreachable pref 1 (?d (new_pool 1) (ALock 5))"
    using lreachable_step [OF _ lock_step.main_calls [where g = 5]] by fastforce
  then have "lreachable pref 1 (?d (new_pool 1) (ABind 5))"
    using demo_adds [OF _ add_step.a_lock] by (simp add: can_share_def)
  then have "lreachable pref 1 (?d (new_pool 1) (AHave 5))"
    using demo_adds [OF _ add_step.a_bind] by (simp add: binding_held_def)
  then have "lreachable pref 1 (?d (new_pool 1) (ACount 5))"
    using demo_adds [OF _ add_step.a_new] by (simp add: new_pool_def)
  then have "lreachable pref 1 (?d (new_pool 1) (ACounted 5))"
    using demo_adds [OF _ add_step.a_count] by (simp add: counter_held_def)
  moreover have "bindNext 5 (new_pool 1) = Returns (Node 0, demo_bound [])"
    by (simp add: bindNext_def new_pool_def demo_bound_def iter_next_def list_begin_def)
  ultimately have "lreachable pref 1 (?d (demo_bound []) (AQueue 5 (Node 0)))"
    using demo_adds [OF _ add_step.a_next] by simp
  then have "lreachable pref 1 (?d (demo_bound []) (APush 5 (Node 0)))"
    using demo_adds [OF _ add_step.a_queue] by (simp add: queue_held_def)
  moreover have "pushTask 5 (Node 0) (demo_bound []) = Returns (demo_bound [5])"
    by (simp add: pushTask_def demo_bound_def)
  ultimately have "lreachable pref 1 (?d (demo_bound [5]) (ANotify 5 (Node 0)))"
    using demo_adds [OF _ add_step.a_push] by simp
  from lreachable_step [OF this lock_step.main_notifies] show ?thesis
    by (simp add: demo_locks_def notified_def)
qed

lemma demo_checks: "lreachable pref 1 (demo_locks (demo_bound [5]) WCheck MIdle)"
proof -
  have "lreachable pref 1 (demo_locks (demo_bound [5]) WQueue MIdle)"
    using lreachable_step [OF demo_added lock_step.w_lock [where i = 0]] by (simp add: can_share_def)
  then show ?thesis
    using lreachable_step [OF _ lock_step.w_queue [where i = 0]] by (fastforce simp: queue_held_def)
qed

lemma demo_nested: "lreachable pref 1 (demo_locks (demo_bound []) (WRun 5 (Some (ALock 6))) CLock)"
proof -
  have "lreachable pref 1 (demo_locks (demo_bound [5]) WCheck MIdle)" by (rule demo_checks)
  moreover have "popTask 0 (demo_bound [5]) = Some (5, demo_bound [])"
    by (simp add: popTask_def demo_bound_def)
  ultimately have "lreachable pref 1 (demo_locks (demo_bound []) (WRun 5 None) MIdle)"
    using lreachable_step [OF _ lock_step.w_pop [where i = 0]] by fastforce
  then have "lreachable pref 1 (demo_locks (demo_bound []) (WRun 5 None) CLock)"
    using lreachable_step [OF _ lock_step.main_enters] by fastforce
  then show ?thesis
    using lreachable_step [OF _ lock_step.w_calls [where i = 0 and h = 5 and g = 6]] by fastforce
qed

subsection \<open>Shared data and their locks\<close>

datatype thread = Main | Worker nat

fun moves :: "thread \<Rightarrow> lsys \<Rightarrow> lsys \<Rightarrow> bool" where
  "moves Main s t \<longleftrightarrow> cleaner t \<noteq> cleaner s"
| "moves (Worker i) s t \<longleftrightarrow> i < length (lworkers s) \<and> lworkers t ! i \<noteq> lworkers s ! i"

text \<open>The call of \<^verbatim>\<open>addTask\<close> that a thread is in, and the locks it has.\<close>

fun call_in :: "thread \<Rightarrow> lsys \<Rightarrow> apc list" where
  "call_in Main s = main_call (cleaner s)"
| "call_in (Worker i) s = (if i < length (lworkers s) then call_of (lworkers s ! i) else [])"

definition has_binding :: "thread \<Rightarrow> lsys \<Rightarrow> bool" where
  "has_binding k s \<longleftrightarrow> (\<exists>a \<in> set (call_in k s). abinding a)"

definition has_counter :: "thread \<Rightarrow> lsys \<Rightarrow> bool" where
  "has_counter k s \<longleftrightarrow> (\<exists>g. ACounted g \<in> set (call_in k s))"

definition has_queue :: "nat \<Rightarrow> thread \<Rightarrow> lsys \<Rightarrow> bool" where
  "has_queue i k s \<longleftrightarrow>
     (\<exists>a \<in> set (call_in k s). pushes i a)
     \<or> (k = Worker i \<and> i < length (lworkers s) \<and> wqueue (lworkers s ! i)) \<or> (k = Main \<and> cqueue (cleaner s) i)"

definition has_shared :: "thread \<Rightarrow> lsys \<Rightarrow> bool" where
  "has_shared k s \<longleftrightarrow>
     (\<exists>a \<in> set (call_in k s). ashared a) \<or> (\<exists>i < length (lworkers s). k = Worker i \<and> wshared (lworkers s ! i))"

text \<open>At most one thread is at a place of \<^verbatim>\<open>addTask\<close> if at most one call is there.\<close>

lemma two_calls:
  assumes "a \<in> set (call_in k s)" and "b \<in> set (call_in l s)" and "k \<noteq> l" and "P a" and "P b"
  shows "2 \<le> length (filter P (calls s))"
proof -
  have two: "2 \<le> length (filter P (concat xss))"
    if "i < length xss" "j < length xss" "i < j" "x \<in> set (xss ! i)" "y \<in> set (xss ! j)" "P x" "P y" for xss i j x y
  proof -
    have "concat xss = concat (take j xss) @ concat (drop j xss)" by (metis append_take_drop_id concat_append)
    moreover have "xss ! i \<in> set (take j xss)" using that(1-3) by (metis in_set_conv_nth length_take min_less_iff_conj nth_take)
    then have "x \<in> set (concat (take j xss))" using that(4) by auto
    moreover have "drop j xss = xss ! j # drop (Suc j) xss" using that(2) by (simp add: Cons_nth_drop_Suc)
    then have "y \<in> set (concat (drop j xss))" using that(5) by simp
    moreover have "1 \<le> length (filter P zs)" if "z \<in> set zs" "P z" for z zs
      using that by (metis One_nat_def Suc_leI filter_empty_conv length_greater_0_conv)
    ultimately show ?thesis using that(6,7) by (metis (no_types, lifting) add_mono filter_append length_append one_add_one)
  qed
  let ?xss = "map call_of (lworkers s) @ [main_call (cleaner s)]"
  have c: "calls s = concat ?xss" by (simp add: calls_def)
  define at where "at k = (case k of Main \<Rightarrow> length (lworkers s) | Worker i \<Rightarrow> i)" for k
  have in_at: "at k < length ?xss \<and> x \<in> set (?xss ! at k)" if "x \<in> set (call_in k s)" for x k
    using that by (cases k) (auto simp: at_def nth_append split: if_splits)
  have in_w: "i < length (lworkers s)" if "x \<in> set (call_in (Worker i) s)" for x i
    using that by (auto split: if_splits)
  have "at k \<noteq> at l"
  proof (cases k)
    case Main
    then obtain j where j: "l = Worker j" using assms(3) by (cases l) auto
    then show ?thesis using in_w [of b j] assms(2) Main by (simp add: at_def)
  next
    case (Worker i)
    note i = this
    show ?thesis
    proof (cases l)
      case Main
      then show ?thesis using in_w [of a i] assms(1) i by (simp add: at_def)
    next
      case (Worker j)
      then show ?thesis using i assms(3) by (simp add: at_def)
    qed
  qed
  then consider "at k < at l" | "at l < at k" by linarith
  then show ?thesis
  proof cases
    case 1
    from two [OF _ _ 1] in_at [OF assms(1)] in_at [OF assms(2)] assms(4,5) show ?thesis unfolding c by blast
  next
    case 2
    from two [OF _ _ 2] in_at [OF assms(1)] in_at [OF assms(2)] assms(4,5) show ?thesis unfolding c by blast
  qed
qed

lemma call_in_calls: "a \<in> set (call_in k s) \<Longrightarrow> a \<in> set (calls s)"
  by (cases k) (force simp: calls_def split: if_splits)+

lemma one_binding:
  assumes "lock_inv n s" and "has_binding k s" and "has_binding l s"
  shows "k = l"
proof (rule ccontr)
  assume "k \<noteq> l"
  obtain a b where "a \<in> set (call_in k s)" "abinding a" "b \<in> set (call_in l s)" "abinding b"
    using assms(2,3) by (auto simp: has_binding_def)
  from two_calls [OF this(1,3) \<open>k \<noteq> l\<close> this(2,4)] lock_invD(4) [OF assms(1)] show False by simp
qed

lemma one_queue:
  assumes "lock_inv n s" and "i < n" and "has_queue i k s" and "has_queue i l s"
  shows "k = l"
proof (rule ccontr)
  assume ne: "k \<noteq> l"
  note h = lock_invD(5) [OF assms(1,2)]
  have one: "0 < length (filter (pushes i) (calls s))" if "a \<in> set (call_in m s)" "pushes i a" for a m
    using call_in_calls [OF that(1)] that(2) by (metis filter_empty_conv length_greater_0_conv)
  have other: "\<not> (\<exists>a \<in> set (call_in m s). pushes i a) \<longrightarrow>
      (m = Worker i \<and> i < length (lworkers s) \<and> wqueue (lworkers s ! i)) \<or> (m = Main \<and> cqueue (cleaner s) i)"
    if "has_queue i m s" for m using that by (auto simp: has_queue_def)
  show False
  proof (cases "(\<exists>a \<in> set (call_in k s). pushes i a) \<and> (\<exists>a \<in> set (call_in l s). pushes i a)")
    case True
    then obtain a b where "a \<in> set (call_in k s)" "pushes i a" "b \<in> set (call_in l s)" "pushes i b" by blast
    from two_calls [OF this(1,3) ne this(2,4)] h show False by (simp add: queue_holders_def)
  next
    case False
    then show False using other [OF assms(3)] other [OF assms(4)] ne h one
      by (fastforce simp: queue_holders_def split: if_splits)
  qed
qed

lemma shared_held_thread: "has_shared k s \<Longrightarrow> shared_held s"
  by (cases k) (auto simp: has_shared_def shared_held_def split: if_splits dest: call_shared nth_mem)

text \<open>What the steps of one thread change.\<close>

lemma add_step_changes:
  assumes "add_step pref s a a' p"
  shows "a' \<noteq> Some a"
    and "taskBinding p \<noteq> taskBinding (lpool s) \<Longrightarrow> abinding a \<and> (\<exists>g. a = ACounted g)"
    and "currentQueue p \<noteq> currentQueue (lpool s) \<Longrightarrow> \<exists>g. a = ACounted g"
    and "queueList p ! i \<noteq> queueList (lpool s) ! i \<Longrightarrow> pushes i a"
  using assms
  by (cases; auto simp: pushTask_def bindNext_def Let_def nth_list_update split: iter.splits if_splits)+

lemma popTask_changes:
  "popTask i p = Some (h, p') \<Longrightarrow> taskBinding p' = taskBinding p \<and> currentQueue p' = currentQueue p \<and>
     (\<forall>j. j \<noteq> i \<longrightarrow> queueList p' ! j = queueList p ! j)"
  by (auto simp: popTask_def split: list.splits)

lemma call_step_changes:
  assumes inv: "lock_inv n s" and a: "call_in k s = [a]" and step: "add_step pref s a a' p" and w: "\<not> writing (cleaner s)"
  shows "taskBinding p \<noteq> taskBinding (lpool s) \<Longrightarrow> {l. has_binding l s} = {k} \<and> \<not> writing (cleaner s)"
    and "currentQueue p \<noteq> currentQueue (lpool s) \<Longrightarrow> {l. has_counter l s} = {k}"
    and "i < n \<Longrightarrow> queueList p ! i \<noteq> queueList (lpool s) ! i \<Longrightarrow> {l. has_queue i l s} = {k}"
proof -
  note c = add_step_changes [OF step]
  have b: "l = k" if "has_binding l s" "abinding a" for l
    using one_binding [OF inv that(1), of k] a that(2) by (simp add: has_binding_def)
  show "taskBinding p \<noteq> taskBinding (lpool s) \<Longrightarrow> {l. has_binding l s} = {k} \<and> \<not> writing (cleaner s)"
    using c(2) b a w by (auto simp: has_binding_def)
  have hb: "has_counter l s \<Longrightarrow> has_binding l s" for l by (force simp: has_counter_def has_binding_def)
  show "{l. has_counter l s} = {k}" if q: "currentQueue p \<noteq> currentQueue (lpool s)"
  proof -
    obtain g where g: "a = ACounted g" using c(3) [OF q] by blast
    then have "has_counter k s" using a by (simp add: has_counter_def)
    then show ?thesis using hb b g by auto
  qed
  show "i < n \<Longrightarrow> queueList p ! i \<noteq> queueList (lpool s) ! i \<Longrightarrow> {l. has_queue i l s} = {k}"
    using c(4) [of i] one_queue [OF inv, of i _ k] a by (auto simp: has_queue_def)
qed

lemma run_not_writing: "lock_inv n s \<Longrightarrow> i < length (lworkers s) \<Longrightarrow> wshared (lworkers s ! i) \<Longrightarrow> \<not> writing (cleaner s)"
  using lock_invD(3) by (force simp: shared_held_def)

lemma writing_alone: "lock_inv n s \<Longrightarrow> writing (cleaner s) \<Longrightarrow> {l. has_shared l s} = {}"
  using lock_invD(3) shared_held_thread by blast

lemma pop_locked:
  assumes "lock_inv n s" and "has_queue i (Worker i) s" and "popTask i (lpool s) = Some (h, p)" and "j < n"
    and "queueList p ! j \<noteq> queueList (lpool s) ! j"
  shows "{l. has_queue j l s} = {Worker i}"
proof -
  have "j = i" using popTask_changes [OF assms(3)] assms(5) by blast
  then show ?thesis using one_queue [OF assms(1,4) _ assms(2) [folded \<open>j = i\<close>]] assms(2) by blast
qed

lemma locked_by:
  assumes k: "moves k s t"
    and b: "taskBinding (lpool t) \<noteq> taskBinding (lpool s) \<Longrightarrow> ({l. has_binding l s} = {k} \<and> \<not> writing (cleaner s)) \<or>
         (k = Main \<and> writing (cleaner s) \<and> {l. has_shared l s} = {})"
    and c: "currentQueue (lpool t) \<noteq> currentQueue (lpool s) \<Longrightarrow> {l. has_counter l s} = {k}"
    and q: "\<And>i. i < n \<Longrightarrow> queueList (lpool t) ! i \<noteq> queueList (lpool s) ! i \<Longrightarrow> {l. has_queue i l s} = {k}"
  shows "(taskBinding (lpool t) \<noteq> taskBinding (lpool s) \<longrightarrow>
      (\<exists>k. moves k s t \<and> (({l. has_binding l s} = {k} \<and> \<not> writing (cleaner s)) \<or>
         (k = Main \<and> writing (cleaner s) \<and> {l. has_shared l s} = {}))))
    \<and> (currentQueue (lpool t) \<noteq> currentQueue (lpool s) \<longrightarrow> (\<exists>k. moves k s t \<and> {l. has_counter l s} = {k}))
    \<and> (\<forall>i < n. queueList (lpool t) ! i \<noteq> queueList (lpool s) ! i \<longrightarrow>
         (\<exists>k. moves k s t \<and> {l. has_queue i l s} = {k}))"
proof (intro conjI impI allI)
  show "\<exists>k. moves k s t \<and> (({l. has_binding l s} = {k} \<and> \<not> writing (cleaner s)) \<or>
         (k = Main \<and> writing (cleaner s) \<and> {l. has_shared l s} = {}))"
    if "taskBinding (lpool t) \<noteq> taskBinding (lpool s)" using k b [OF that] by (intro exI [of _ k] conjI)
  show "\<exists>k. moves k s t \<and> {l. has_counter l s} = {k}"
    if "currentQueue (lpool t) \<noteq> currentQueue (lpool s)" using k c [OF that] by (intro exI [of _ k] conjI)
  show "\<exists>k. moves k s t \<and> {l. has_queue i l s} = {k}"
    if "i < n" "queueList (lpool t) ! i \<noteq> queueList (lpool s) ! i" for i
    using k q [OF that] by (intro exI [of _ k] conjI)
qed

text \<open>
  C19: no data race on the pool.  Whatever the interleaving, in each step that changes the map of the bindings, the
  next queue or a queue, the thread that moves has the mutex of what is changed and no other thread has it; only the
  cleaner changes the bindings without their mutex, and then nobody has the shared lock, without which no thread gets to
  them.
\<close>

theorem shared_data_is_locked:
  assumes "lreachable pref n s" and "lock_step pref s t"
  shows "(taskBinding (lpool t) \<noteq> taskBinding (lpool s) \<longrightarrow>
      (\<exists>k. moves k s t \<and> (({l. has_binding l s} = {k} \<and> \<not> writing (cleaner s)) \<or>
         (k = Main \<and> writing (cleaner s) \<and> {l. has_shared l s} = {}))))
    \<and> (currentQueue (lpool t) \<noteq> currentQueue (lpool s) \<longrightarrow> (\<exists>k. moves k s t \<and> {l. has_counter l s} = {k}))
    \<and> (\<forall>i < n. queueList (lpool t) ! i \<noteq> queueList (lpool s) ! i \<longrightarrow>
         (\<exists>k. moves k s t \<and> {l. has_queue i l s} = {k}))"
proof -
  have inv: "lock_inv n s" by (rule lock_inv_reachable [OF assms(1)])
  note one = one_queue [OF inv]
  from assms(2) show ?thesis
  proof cases
    case (main_adds a a' p)
    have m: "moves Main s t" using main_adds add_step_changes(1) [OF main_adds(3)] by (cases a') auto
    have "call_in Main s = [a]" "\<not> writing (cleaner s)" using main_adds(2) by simp_all
    note ch = call_step_changes [OF inv this(1) main_adds(3) this(2)]
    have "lpool t = p" using main_adds(1) by simp
    then show ?thesis using ch by (intro locked_by [OF m]) simp_all
  next
    case (w_adds i h a a' p)
    have m: "moves (Worker i) s t" using w_adds add_step_changes(1) [OF w_adds(4)] by auto
    have "call_in (Worker i) s = [a]" "\<not> writing (cleaner s)"
      using w_adds(2,3) run_not_writing [OF inv w_adds(2)] by simp_all
    note ch = call_step_changes [OF inv this(1) w_adds(4) this(2)]
    have "lpool t = p" using w_adds(1) by simp
    then show ?thesis using ch by (intro locked_by [OF m]) simp_all
  next
    case (w_pop i h p)
    have m: "moves (Worker i) s t" using w_pop by simp
    have "has_queue i (Worker i) s" using w_pop by (simp add: has_queue_def)
    then show ?thesis using popTask_changes [OF w_pop(4)] pop_locked [OF inv _ w_pop(4)] w_pop(1)
      by (intro locked_by [OF m]) simp_all
  next
    case (w_take i h p)
    have m: "moves (Worker i) s t" using w_take by simp
    have "has_queue i (Worker i) s" using w_take by (simp add: has_queue_def)
    then show ?thesis using popTask_changes [OF w_take(4)] pop_locked [OF inv _ w_take(4)] w_take(1)
      by (intro locked_by [OF m]) simp_all
  next
    case (c_collect qs)
    then show ?thesis using writing_alone [OF inv] by (intro locked_by [of Main]) simp_all
  next
    case (c_erase dt i qs)
    have m: "moves Main s t" using c_erase by simp
    have h: "has_queue i Main s" using c_erase by (simp add: has_queue_def)
    have "{l. has_queue j l s} = {Main}" if j: "j < n" "queueList (lpool t) ! j \<noteq> queueList (lpool s) ! j" for j
    proof -
      have "j = i" using j(2) c_erase(1) by (cases "j = i") simp_all
      then show ?thesis using one [OF j(1) _ h [folded \<open>j = i\<close>]] h by blast
    qed
    then show ?thesis using c_erase(1) by (intro locked_by [OF m]) simp_all
  qed auto
qed

theorem shared_data_is_locked_witness:
  "lreachable True 1 (demo_locks (demo_bound [5]) WCheck MIdle) \<and>
     (\<exists>k. {l. has_queue 0 l (demo_locks (demo_bound [5]) WCheck MIdle)} = {k})"
proof -
  let ?s = "demo_locks (demo_bound [5]) WCheck MIdle" and ?t = "demo_locks (demo_bound []) (WRun 5 None) MIdle"
  have s: "lreachable True 1 ?s" by (rule demo_checks)
  have "popTask 0 (demo_bound [5]) = Some (5, demo_bound [])" by (simp add: popTask_def demo_bound_def)
  then have "lock_step True ?s ?t" using lock_step.w_pop [of 0 ?s 5 "demo_bound []" True] by simp
  from shared_data_is_locked [OF s this] have "\<exists>k. {l. has_queue 0 l ?s} = {k}" by (auto simp: demo_bound_def)
  with s show ?thesis by blast
qed

subsection \<open>The critical sections are steps\<close>

text \<open>How a state with its locks is a state of \<open>LoopSystem\<close>.\<close>

fun wabs :: "wpc \<Rightarrow> worker" where
  "wabs WLock = Idle"
| "wabs WQueue = Holding"
| "wabs WCheck = Holding"
| "wabs WWait = Waiting"
| "wabs WWoken = Waiting"
| "wabs WTry = Waiting"
| "wabs WTake = Waiting"
| "wabs (WRun h a) = Running h"

fun bound_to :: "apc \<Rightarrow> (hnd \<times> iter) list" where
  "bound_to (AQueue g q) = [(g, q)]"
| "bound_to (APush g q) = [(g, q)]"
| "bound_to _ = []"

definition bound_calls :: "lsys \<Rightarrow> (hnd \<times> iter) list" where
  "bound_calls s = concat (map bound_to (calls s))"

text \<open>
  In the middle of a clean-up the state stands for the one before it; the queues that are still to
  be cleaned are as they were.
\<close>

definition cleaning :: "psys \<Rightarrow> lsys \<Rightarrow> (hnd \<times> iter) list \<Rightarrow> nat list \<Rightarrow> bool" where
  "cleaning a s dt qs \<longleftrightarrow>
     clean_threshold \<le> length (taskBinding (pool a))
     \<and> dt = filter (\<lambda>(h, q). h \<in> dones a) (taskBinding (pool a))
     \<and> Node ` set qs \<subseteq> snd ` set dt \<and> distinct qs
     \<and> taskBinding (lpool s) = filter (\<lambda>(h, q). h \<notin> dones a) (taskBinding (pool a))
     \<and> currentQueue (lpool s) = currentQueue (pool a)
     \<and> length (queueList (lpool s)) = length (queueList (pool a))
     \<and> (\<forall>i < length (queueList (pool a)). queueList (lpool s) ! i =
          (if i \<in> set qs then queueList (pool a) ! i
           else filter (\<lambda>h. (h, Node i) \<notin> set dt) (queueList (pool a) ! i)))
     \<and> ldestroyed s = destroyed a \<union> {h. \<exists>i. (h, Node i) \<in> set dt \<and> i \<notin> set qs}"

definition pool_view :: "psys \<Rightarrow> lsys \<Rightarrow> bool" where
  "pool_view a s \<longleftrightarrow>
     (case cleaner s of
        CQueues dt qs \<Rightarrow> cleaning a s dt qs
      | CHeld dt i qs \<Rightarrow> cleaning a s dt (i # qs)
      | _ \<Rightarrow> pool a = lpool s \<and> destroyed a = ldestroyed s)"

definition lock_view :: "psys \<Rightarrow> lsys \<Rightarrow> bool" where
  "lock_view a s \<longleftrightarrow>
     workers a = map wabs (lworkers s) \<and> mset (adding a) = mset (bound_calls s)
     \<and> writer a = writing (cleaner s) \<and> dones a = ldones s \<and> pool_view a s"

lemma cleaning_same: "lpool t = lpool s \<Longrightarrow> ldestroyed t = ldestroyed s \<Longrightarrow> cleaning a t = cleaning a s"
  by (intro ext) (simp add: cleaning_def)

lemma pool_view_settled:
  "\<not> writing (cleaner s) \<Longrightarrow> pool_view a s \<longleftrightarrow> pool a = lpool s \<and> destroyed a = ldestroyed s"
  by (cases "cleaner s") (simp_all add: pool_view_def)

lemma mset_concat_map: "mset (concat (map f xs)) = (\<Sum>x \<in># mset xs. mset (f x))"
  by (induction xs) simp_all

lemma bound_calls_mset: "mset (bound_calls s) = (\<Sum>x \<in># mset (calls s). mset (bound_to x))"
  by (simp add: bound_calls_def mset_concat_map)

lemma lock_viewD:
  assumes "lock_view a s"
  shows "workers a = map wabs (lworkers s)" and "mset (adding a) = mset (bound_calls s)"
    and "writer a = writing (cleaner s)" and "dones a = ldones s" and "pool_view a s"
  using assms by (simp_all add: lock_view_def)

text \<open>A worker's step that is one of \<open>LoopSystem\<close>, or none.\<close>

lemma view_worker:
  assumes "lock_inv n s" and "lock_view a s" and "i < n" and "call_of (lworkers s ! i) = call_of w"
    and "workers b = (workers a)[i := wabs w]" and "adding b = adding a" and "writer b = writer a"
    and "destroyed b = destroyed a" and "lworkers t = (lworkers s)[i := w]" and "cleaner t = cleaner s"
    and "lpool t = pool b" and "ldones t = dones b" and "ldestroyed t = ldestroyed s"
    and "\<not> writing (cleaner s)"
  shows "lock_view b t"
proof -
  note v = lock_viewD [OF assms(2)]
  have "mset (calls t) = mset (calls s)"
    using calls_worker [of i s t w] assms(3,4,9,10) lock_invD(1) [OF assms(1)] by simp
  then have "mset (bound_calls t) = mset (bound_calls s)" by (simp add: bound_calls_mset)
  then show ?thesis
    using v assms(5-14) pool_view_settled [of s a] pool_view_settled [of t b]
    by (simp add: lock_view_def map_update)
qed

lemma view_call:
  assumes "lock_view a s" and "\<not> writing (cleaner s)" and "\<not> writing (cleaner t)"
    and "mset (calls s) = C + mset x" and "mset (calls t) = C + mset y"
    and "map wabs (lworkers t) = map wabs (lworkers s)" and "ldones t = ldones s" and "ldestroyed t = ldestroyed s"
    and "concat (map bound_to x) = concat (map bound_to y) \<and> lpool t = lpool s \<or>
      (\<exists>g q. bindTask g (lpool s) = Returns (q, lpool t) \<and> concat (map bound_to x) = [] \<and>
         concat (map bound_to y) = [(g, q)]) \<or>
      (\<exists>g q. pushTask g q (lpool s) = Returns (lpool t) \<and> concat (map bound_to x) = [(g, q)] \<and>
         concat (map bound_to y) = [])"
  shows "\<exists>b. pool_step\<^sup>*\<^sup>* a b \<and> lock_view b t"
proof -
  note v = lock_viewD [OF assms(1)]
  have p: "pool a = lpool s" "destroyed a = ldestroyed s" "\<not> writer a"
    using v(3,5) assms(2) pool_view_settled [OF assms(2)] by simp_all
  define B where "B = (\<Sum>z \<in># C. mset (bound_to z))"
  have s: "mset (bound_calls s) = B + mset (concat (map bound_to x))"
    "mset (bound_calls t) = B + mset (concat (map bound_to y))"
    by (simp_all add: bound_calls_mset assms(4,5) B_def mset_concat_map)
  have close: "lock_view b t"
    if "workers b = workers a" "mset (adding b) = mset (bound_calls t)" "writer b = writer a"
      "dones b = dones a" "pool b = lpool t" "destroyed b = destroyed a" for b
    using that v assms(2,3,6,7,8) p pool_view_settled [OF assms(3), of b] by (simp add: lock_view_def)
  from assms(9) show ?thesis
  proof (elim disjE exE conjE)
    assume "concat (map bound_to x) = concat (map bound_to y)" "lpool t = lpool s"
    then show ?thesis using s v(2) p by (intro exI [of _ a]) (auto intro: close)
  next
    fix g q assume b: "bindTask g (lpool s) = Returns (q, lpool t)"
      "concat (map bound_to x) = []" "concat (map bound_to y) = [(g, q)]"
    let ?b = "a\<lparr>readers := Suc (readers a), pool := lpool t, adding := (g, q) # adding a,
      late := late a \<union> ({g} \<inter> destroyed a)\<rparr>"
    have "pool_step a ?b" using b p by (intro pool_step.add_bind) simp_all
    then have "pool_step\<^sup>*\<^sup>* a ?b" by (rule r_into_rtranclp)
    moreover have "lock_view ?b t" using s b v(2) p by (intro close) simp_all
    ultimately show ?thesis by blast
  next
    fix g q assume b: "pushTask g q (lpool s) = Returns (lpool t)" "concat (map bound_to x) = [(g, q)]"
      "concat (map bound_to y) = []"
    let ?b = "a\<lparr>readers := readers a - 1, pool := lpool t, adding := remove1 (g, q) (adding a)\<rparr>"
    have a: "mset (adding a) = add_mset (g, q) B" using s(1) b(2) v(2) by simp
    then have "(g, q) \<in> set (adding a)" by (metis set_mset_mset union_single_eq_member add_mset_add_single union_commute)
    then have "pool_step a ?b" using b p by (intro pool_step.add_push) simp_all
    then have "pool_step\<^sup>*\<^sup>* a ?b" by (rule r_into_rtranclp)
    moreover have "lock_view ?b t" using s b a p by (intro close) simp_all
    ultimately show ?thesis by blast
  qed
qed

lemma add_step_view:
  assumes "add_step pref s a a' p" and "lock_inv n s" and "a \<in> set (calls s)"
  shows "concat (map bound_to [a]) = concat (map bound_to (call_left a')) \<and> p = lpool s \<or>
      (\<exists>g q. bindTask g (lpool s) = Returns (q, p) \<and> concat (map bound_to [a]) = [] \<and>
         concat (map bound_to (call_left a')) = [(g, q)]) \<or>
      (\<exists>g q. pushTask g q (lpool s) = Returns p \<and> concat (map bound_to [a]) = [(g, q)] \<and>
         concat (map bound_to (call_left a')) = [])"
  using assms(1)
proof cases
  case (a_known g q)
  then show ?thesis using bindTask_bound [of "lpool s" g q] by simp
next
  case (a_next g q)
  then have "map_of (taskBinding (lpool s)) g = None" using lock_invD(7) [OF assms(2,3)] by simp
  then show ?thesis using a_next bindTask_next [of "lpool s" g] by simp
qed auto

text \<open>A worker's step that \<open>LoopSystem\<close> does not see.\<close>

lemma view_same:
  assumes "lock_view a s" and "i < length (lworkers s)" and "wabs (lworkers s ! i) = wabs w"
    and "call_of (lworkers s ! i) = call_of w"
  shows "lock_view a (s\<lparr>lworkers := (lworkers s)[i := w]\<rparr>)" (is "lock_view a ?t")
proof -
  note v = lock_viewD [OF assms(1)]
  have "mset (calls ?t) = mset (calls s)" using calls_worker [of i s ?t w] assms(2,4) by simp
  then have "mset (bound_calls ?t) = mset (bound_calls s)" by (simp add: bound_calls_mset)
  moreover have "map wabs ((lworkers s)[i := w]) = map wabs (lworkers s)"
    using assms(2,3) by (metis list_update_id map_update)
  moreover have "pool_view a ?t = pool_view a s"
    by (cases "cleaner s") (simp_all add: pool_view_def cleaning_def)
  ultimately show ?thesis using v by (simp add: lock_view_def)
qed

lemma worker_settled:
  assumes "lock_inv n s" and "i < n" and "wshared (lworkers s ! i)"
  shows "\<not> writing (cleaner s)"
  using lock_invD(1,3) [OF assms(1)] assms(2,3) by (auto simp: shared_held_def)

lemma view_give_up:
  assumes "lock_inv n s" and "lock_view a s" and "i < n" and "lworkers s ! i = WTry"
  shows "\<exists>b. pool_step a b \<and> lock_view b (s\<lparr>lworkers := (lworkers s)[i := WLock]\<rparr>)"
proof -
  note v = lock_viewD [OF assms(2)]
  note inv = lock_invD [OF assms(1)]
  let ?b = "a\<lparr>workers := (workers a)[i := Idle]\<rparr>"
  let ?t = "s\<lparr>lworkers := (lworkers s)[i := WLock]\<rparr>"
  have ne: "queueList (lpool s) ! i \<noteq> []" using inv(6) assms(3,4) by simp
  have "queueList (pool a) ! i \<noteq> []"
    using v(5) ne assms(3) inv(2)
    by (auto simp: pool_view_def cleaning_def split: cpc.splits if_splits)
  then have "pool_step a ?b"
    using v(1) inv(1) assms(3,4) by (intro pool_step.run_give_up) (auto simp: popTask_def split: list.splits)
  moreover have "mset (calls ?t) = mset (calls s)"
    using calls_worker [of i s ?t WLock] inv(1) assms(3,4) by simp
  then have "mset (bound_calls ?t) = mset (bound_calls s)" by (simp add: bound_calls_mset)
  moreover have "pool_view ?b ?t = pool_view a s"
    by (cases "cleaner s") (simp_all add: pool_view_def cleaning_def)
  ultimately show ?thesis
    using v by (intro exI [of _ ?b]) (simp add: lock_view_def map_update)
qed

text \<open>The steps of the cleaner.\<close>

lemma view_c_lock:
  assumes "lock_view a s" and "sys_inv a" and "cleaner s = CLock" and "\<not> shared_held s"
  shows "\<exists>b. pool_step a b \<and> lock_view b (s\<lparr>cleaner := CCheck\<rparr>)"
proof -
  note v = lock_viewD [OF assms(1)]
  have "\<not> has_lock (wabs w)" if "w \<in> set (lworkers s)" for w
    using assms(4) that by (cases w) (auto simp: shared_held_def)
  then have "filter has_lock (workers a) = []" using v(1) by (auto simp: filter_empty_conv)
  moreover have "call_of w = []" if "w \<in> set (lworkers s)" for w
    using assms(4) that call_shared [of _ w] by (cases "call_of w") (auto simp: shared_held_def)
  then have "calls s = []" using assms(3) by (auto simp: calls_def)
  then have "adding a = []" using v(2) by (simp add: bound_calls_def)
  ultimately have "readers a = 0" using assms(2) by (simp add: sys_inv_def)
  then have "pool_step a (a\<lparr>writer := True\<rparr>)" using v(3) assms(3) by (intro pool_step.clean_lock) simp_all
  moreover have "lock_view (a\<lparr>writer := True\<rparr>) (s\<lparr>cleaner := CCheck\<rparr>)"
    using v assms(3) by (simp add: lock_view_def pool_view_def bound_calls_def calls_def)
  ultimately show ?thesis by blast
qed

lemma view_cleaner:
  assumes "lock_view a s" and "main_call (cleaner s) = []" and "main_call c = []" and "writing c = writing (cleaner s)"
    and "pool_view a (s\<lparr>cleaner := c, lpool := p, ldestroyed := D\<rparr>)"
  shows "lock_view a (s\<lparr>cleaner := c, lpool := p, ldestroyed := D\<rparr>)"
  using lock_viewD [OF assms(1)] assms(2-5) by (simp add: lock_view_def bound_calls_def calls_def)

lemma view_c_collect:
  assumes "lock_view a s" and "cleaner s = CCheck" and "clean_threshold \<le> length (taskBinding (lpool s))"
    and "distinct qs" and "Node ` set qs = snd ` set (done_tasks s)"
  shows "lock_view a (s\<lparr>cleaner := CQueues (done_tasks s) qs,
       lpool := (lpool s)\<lparr>taskBinding := filter (\<lambda>(h, q). h \<notin> ldones s) (taskBinding (lpool s))\<rparr>\<rparr>)" (is "lock_view a ?t")
proof -
  note v = lock_viewD [OF assms(1)]
  have p: "pool a = lpool s" "destroyed a = ldestroyed s" using v(5) assms(2) by (simp_all add: pool_view_def)
  have in_qs: "i \<in> set qs" if "(h, Node i) \<in> set (done_tasks s)" for h i
  proof -
    have "Node i \<in> Node ` set qs" unfolding assms(5) using that by force
    then show ?thesis by auto
  qed
  have "filter (\<lambda>h. (h, Node i) \<notin> set (done_tasks s)) xs = xs" if "i \<notin> set qs" for i xs
    using in_qs that by (auto simp: filter_id_conv)
  then have "cleaning a ?t (done_tasks s) qs"
    using p v(4) assms(3,4,5) in_qs by (auto simp: cleaning_def done_tasks_def simp del: set_filter)
  then have "pool_view a ?t" by (simp add: pool_view_def)
  moreover have "bound_calls ?t = bound_calls s" using assms(2) by (simp add: bound_calls_def calls_def)
  ultimately show ?thesis using v assms(2) by (simp add: lock_view_def)
qed

lemma view_c_erase:
  assumes "lock_view a s" and "cleaner s = CHeld dt i qs"
  shows "lock_view a (s\<lparr>cleaner := CQueues dt qs,
       lpool := (lpool s)\<lparr>queueList := (queueList (lpool s))
         [i := filter (\<lambda>h. (h, Node i) \<notin> set dt) (queueList (lpool s) ! i)]\<rparr>,
       ldestroyed := ldestroyed s \<union> {h. (h, Node i) \<in> set dt}\<rparr>)"
proof -
  have c: "cleaning a s dt (i # qs)" using lock_viewD(5) [OF assms(1)] assms(2) by (simp add: pool_view_def)
  let ?t = "s\<lparr>cleaner := CQueues dt qs,
       lpool := (lpool s)\<lparr>queueList := (queueList (lpool s))
         [i := filter (\<lambda>h. (h, Node i) \<notin> set dt) (queueList (lpool s) ! i)]\<rparr>,
       ldestroyed := ldestroyed s \<union> {h. (h, Node i) \<in> set dt}\<rparr>"
  have "cleaning a ?t dt qs" unfolding cleaning_def
  proof (intro conjI)
    show "ldestroyed ?t = destroyed a \<union> {h. \<exists>j. (h, Node j) \<in> set dt \<and> j \<notin> set qs}"
      using c by (auto simp: cleaning_def simp del: set_filter)
    show "\<forall>j < length (queueList (pool a)). queueList (lpool ?t) ! j = (if j \<in> set qs then queueList (pool a) ! j
        else filter (\<lambda>h. (h, Node j) \<notin> set dt) (queueList (pool a) ! j))"
    proof (intro allI impI)
      fix j assume j: "j < length (queueList (pool a))"
      have q: "queueList (lpool s) ! j = (if j \<in> set (i # qs) then queueList (pool a) ! j
          else filter (\<lambda>h. (h, Node j) \<notin> set dt) (queueList (pool a) ! j))"
        using c j unfolding cleaning_def by blast
      have "i \<notin> set qs" "length (queueList (lpool s)) = length (queueList (pool a))"
        using c by (simp_all add: cleaning_def)
      then show "queueList (lpool ?t) ! j = (if j \<in> set qs then queueList (pool a) ! j
          else filter (\<lambda>h. (h, Node j) \<notin> set dt) (queueList (pool a) ! j))"
        using q j by (cases "j = i") simp_all
    qed
    have "Node ` set (i # qs) \<subseteq> snd ` set dt" using c unfolding cleaning_def by blast
    then show "Node ` set qs \<subseteq> snd ` set dt" by simp
  qed (use c in \<open>simp_all add: cleaning_def del: set_filter\<close>)
  then have "pool_view a ?t" by (simp add: pool_view_def)
  then show ?thesis by (intro view_cleaner [OF assms(1)]) (use assms(2) in simp_all)
qed

lemma view_c_unlock:
  assumes "lock_view a s" and "sys_inv a" and "cleaner s = CQueues dt []"
  shows "\<exists>b. pool_step\<^sup>*\<^sup>* a b \<and> lock_view b (s\<lparr>cleaner := CSleep\<rparr>)"
proof -
  note v = lock_viewD [OF assms(1)]
  have c: "cleaning a s dt []" using v(5) assms(3) by (simp add: pool_view_def)
  let ?q = "map (\<lambda>(i, ts). filter (\<lambda>h. (h, Node i) \<notin> set dt) ts) (enumerate 0 (queueList (pool a)))"
  have "queueList (lpool s) = ?q"
    using c by (intro nth_equalityI) (simp_all add: cleaning_def nth_enumerate_eq del: set_filter)
  then have p: "lpool s = (pool a)\<lparr>taskBinding := filter (\<lambda>(h, q). h \<notin> dones a) (taskBinding (pool a)), queueList := ?q\<rparr>"
    using c by (simp add: cleaning_def del: set_filter)
  have dt: "dt = filter (\<lambda>(h, q). h \<in> dones a) (taskBinding (pool a))" using c by (simp add: cleaning_def)
  have pi: "pool_inv (pool a)" using assms(2) by (simp add: sys_inv_def)
  have node: "\<exists>i. q = Node i" if "(h, q) \<in> set dt" for h q
    using pi that dt by (auto simp: pool_inv_def)
  then have "End \<notin> snd ` set dt" by force
  then have w: "cleanTasks_turn (\<lambda>h. h \<in> dones a) (pool a) = Returns (lpool s, map fst dt)"
    using c p dt by (simp add: cleanTasks_turn_def cleanWork_def cleaning_def Let_def del: set_filter)
  have "set (map fst dt) = {h. \<exists>i. (h, Node i) \<in> set dt}" using node by force
  then have d: "ldestroyed s = destroyed a \<union> set (map fst dt)" using c by (simp add: cleaning_def)
  let ?b = "a\<lparr>pool := lpool s, destroyed := destroyed a \<union> set (map fst dt), late := late a - set (map fst dt)\<rparr>"
  have wr: "writer a" using v(3) assms(3) by simp
  have "pool_step a ?b" using wr w by (intro pool_step.clean_work)
  moreover have "pool_step ?b (?b\<lparr>writer := False\<rparr>)" using wr by (intro pool_step.clean_unlock) simp
  ultimately have "pool_step\<^sup>*\<^sup>* a (?b\<lparr>writer := False\<rparr>)"
    by (metis r_into_rtranclp rtranclp.rtrancl_into_rtrancl)
  moreover have "lock_view (?b\<lparr>writer := False\<rparr>) (s\<lparr>cleaner := CSleep\<rparr>)"
    using v d assms(3) by (simp add: lock_view_def pool_view_def bound_calls_def calls_def)
  ultimately show ?thesis by blast
qed

text \<open>Every step is some steps of \<open>LoopSystem\<close>.\<close>

lemma step_viewI: "pool_step a b \<Longrightarrow> lock_view b t \<Longrightarrow> \<exists>b. pool_step\<^sup>*\<^sup>* a b \<and> lock_view b t"
  by blast

lemma view_step:
  assumes "lock_step pref s t" and "lock_inv n s" and "lock_view a s" and "sys_inv a"
  shows "\<exists>b. pool_step\<^sup>*\<^sup>* a b \<and> lock_view b t"
  using assms(1)
proof cases
  note v = lock_viewD [OF assms(3)]
  note inv = lock_invD [OF assms(2)]
  note settled = pool_view_settled [of s a]
  have stay: "\<exists>b. pool_step\<^sup>*\<^sup>* a b \<and> lock_view b t" if "lock_view a t" using that by blast
  {
    case (main_calls g)
    then show ?thesis
      by (intro view_call [OF assms(3), of t "mset (calls s)" "[]" "[ALock g]"]) (auto simp: calls_def)
  next
    case (main_adds c c' p)
    have m: "main_call (main_after c') = call_left c'" "\<not> writing (main_after c')" by (cases c'; simp)+
    have "c \<in> set (calls s)" using main_adds(2) by (simp add: calls_def)
    from add_step_view [OF main_adds(3) assms(2) this] show ?thesis
      by (intro view_call [OF assms(3), of t "mset (concat (map call_of (lworkers s)))" "[c]" "call_left c'"])
        (use main_adds m in \<open>simp_all add: calls_def\<close>)
  next
    case (main_notifies g q)
    have "map wabs (notified q (lworkers s)) = map wabs (lworkers s)" by (simp add: notified_nth)
    then show ?thesis using main_notifies
      by (intro view_call [OF assms(3), of t "mset (concat (map call_of (lworkers s)))" "[ANotify g q]" "[]"])
        (simp_all add: calls_def notified_calls)
  next
    case (w_notifies i h g q)
    let ?ws = "(lworkers s)[i := WRun h None]"
    have st: "\<not> writing (cleaner s)" using worker_settled [OF assms(2), of i] w_notifies inv(1) by simp
    obtain C where C: "mset (calls s) = C + mset [ANotify g q]" "mset (calls (s\<lparr>lworkers := ?ws\<rparr>)) = C + mset (call_left None)"
      using calls_w_adds [of i s h "ANotify g q" "s\<lparr>lworkers := ?ws\<rparr>" None] w_notifies by auto
    have "map wabs ?ws = map wabs (lworkers s)"
      using w_notifies(2,3) by (simp add: map_update) (metis length_map list_update_id nth_map wabs.simps(8))
    moreover have "map wabs (notified q ?ws) = map wabs ?ws" by (simp add: notified_nth)
    ultimately show ?thesis using w_notifies st C
      by (intro view_call [OF assms(3), of t C "[ANotify g q]" "[]"]) (simp_all add: calls_def notified_calls)
  next
    case (w_spurious i)
    then show ?thesis using view_same [OF assms(3), of i WWoken] by (intro stay) simp
  next
    case (w_sleep i)
    then show ?thesis using view_same [OF assms(3), of i WWait] by (intro stay) simp
  next
    case main_enters
    then show ?thesis using v settled by (intro stay) (simp add: lock_view_def pool_view_def bound_calls_def calls_def)
  next
    case (w_lock i)
    let ?b = "a\<lparr>readers := Suc (readers a), workers := (workers a)[i := Holding]\<rparr>"
    have "pool_step a ?b" using w_lock v by (intro pool_step.run_lock) (auto simp: can_share_def)
    moreover have "lock_view ?b t"
      using view_worker [OF assms(2,3), of i WQueue ?b t] w_lock inv(1) v settled
      by (simp add: can_share_def)
    ultimately show ?thesis by (rule step_viewI)
  next
    case (w_queue i)
    then show ?thesis using view_same [OF assms(3), of i WCheck] by (intro stay) simp
  next
    case (w_pop i h p)
    have st: "\<not> writing (cleaner s)" using worker_settled [OF assms(2), of i] w_pop inv(1) by simp
    let ?b = "a\<lparr>pool := p, workers := (workers a)[i := Running h]\<rparr>"
    have "pool_step a ?b" using w_pop v settled st by (intro pool_step.run_pop) simp_all
    moreover have "lock_view ?b t"
      using view_worker [OF assms(2,3), of i "WRun h None" ?b t] w_pop inv(1) v st by simp
    ultimately show ?thesis by (rule step_viewI)
  next
    case (w_wait i)
    have st: "\<not> writing (cleaner s)" using worker_settled [OF assms(2), of i] w_wait inv(1) by simp
    let ?b = "a\<lparr>readers := readers a - 1, workers := (workers a)[i := Waiting]\<rparr>"
    have "pool_step a ?b" using w_wait v settled st by (intro pool_step.run_wait) simp_all
    moreover have "lock_view ?b t"
      using view_worker [OF assms(2,3), of i WWait ?b t] w_wait inv(1) v st settled by simp
    ultimately show ?thesis by (rule step_viewI)
  next
    case (w_wake i)
    then show ?thesis using view_same [OF assms(3), of i WTry] by (intro stay) simp
  next
    case (w_give_up i)
    then show ?thesis using view_give_up [OF assms(2,3), of i] inv(1) step_viewI by auto
  next
    case (w_try i)
    then show ?thesis using view_same [OF assms(3), of i WTake] by (intro stay) simp
  next
    case (w_take i h p)
    have st: "\<not> writing (cleaner s)" using worker_settled [OF assms(2), of i] w_take inv(1) by simp
    let ?b = "a\<lparr>readers := Suc (readers a), pool := p, workers := (workers a)[i := Running h]\<rparr>"
    have "pool_step a ?b" using w_take v settled st by (intro pool_step.run_wake) simp_all
    moreover have "lock_view ?b t"
      using view_worker [OF assms(2,3), of i "WRun h None" ?b t] w_take inv(1) v st by simp
    ultimately show ?thesis by (rule step_viewI)
  next
    case (w_calls i h g)
    have st: "\<not> writing (cleaner s)" using worker_settled [OF assms(2), of i] w_calls inv(1) by simp
    have "mset (calls t) = mset (calls s) + mset [ALock g]"
      using calls_worker [of i s t "WRun h (Some (ALock g))"] w_calls by simp
    moreover have "map wabs (lworkers t) = map wabs (lworkers s)"
      using w_calls(1-3) by (simp add: map_update) (metis length_map list_update_id nth_map wabs.simps(8))
    ultimately show ?thesis using st w_calls(1)
      by (intro view_call [OF assms(3), of t "mset (calls s)" "[]" "[ALock g]"]) simp_all
  next
    case (w_adds i h c c' p)
    have st: "\<not> writing (cleaner s)" using worker_settled [OF assms(2), of i] w_adds inv(1) by (cases c) simp_all
    obtain C where C: "mset (calls s) = C + mset [c]" "mset (calls t) = C + mset (call_left c')" "c \<in> set (calls s)"
      using calls_w_adds [of i s h c t c'] w_adds by auto
    have "map wabs (lworkers t) = map wabs (lworkers s)"
      using w_adds(1-3) by (simp add: map_update) (metis length_map list_update_id nth_map wabs.simps(8))
    then show ?thesis
      using add_step_view [OF w_adds(4) assms(2) C(3)] st w_adds(1) by (intro view_call [OF assms(3) _ _ C(1,2)]) simp_all
  next
    case (w_finish i h D)
    have st: "\<not> writing (cleaner s)" using worker_settled [OF assms(2), of i] w_finish inv(1) by simp
    let ?b = "a\<lparr>readers := readers a - 1, workers := (workers a)[i := Idle], dones := dones a \<union> D\<rparr>"
    have "pool_step a ?b" using w_finish v settled st by (intro pool_step.run_finish) simp_all
    moreover have "lock_view ?b t"
      using view_worker [OF assms(2,3), of i WLock ?b t] w_finish inv(1) v st settled by simp
    ultimately show ?thesis by (rule step_viewI)
  next
    case c_lock
    then show ?thesis using view_c_lock [OF assms(3,4)] step_viewI by auto
  next
    case c_small
    then have "lock_view (a\<lparr>writer := False\<rparr>) t"
      using v by (simp add: lock_view_def pool_view_def bound_calls_def calls_def)
    moreover have "pool_step a (a\<lparr>writer := False\<rparr>)" using c_small v(3) by (intro pool_step.clean_unlock) simp
    ultimately show ?thesis by (intro step_viewI)
  next
    case (c_collect qs)
    then show ?thesis using view_c_collect [OF assms(3)] by (intro stay) simp
  next
    case (c_queue dt i qs)
    then show ?thesis
      using v cleaning_same [of t s] by (intro stay) (simp add: lock_view_def pool_view_def bound_calls_def calls_def)
  next
    case (c_erase dt i qs)
    then show ?thesis using view_c_erase [OF assms(3)] by (intro stay) simp
  next
    case (c_unlock dt)
    then show ?thesis using view_c_unlock [OF assms(3,4)] by simp
  next
    case c_again
    then show ?thesis using v by (intro stay) (simp add: lock_view_def pool_view_def bound_calls_def calls_def)
  next
    case (reuse h)
    have "pool_step a (a\<lparr>destroyed := destroyed a - {h}, dones := dones a - {h}, late := late a - {h}\<rparr>)"
      using reuse v settled by (intro pool_step.reuse_address) simp
    moreover have "lock_view (a\<lparr>destroyed := destroyed a - {h}, dones := dones a - {h}, late := late a - {h}\<rparr>) t"
      using reuse v settled pool_view_settled [of t "a\<lparr>destroyed := destroyed a - {h}, dones := dones a - {h}, late := late a - {h}\<rparr>"]
      by (simp add: lock_view_def bound_calls_def calls_def)
    ultimately show ?thesis by (rule step_viewI)
  }
qed

lemma lock_view_new: "lock_view (new_psys n) (new_lsys n)"
  by (simp add: lock_view_def pool_view_def new_psys_def new_lsys_def bound_calls_def calls_def)

lemma view_reachable:
  assumes "0 < n" and "lreachable pref n s"
  shows "\<exists>a. reachable n a \<and> lock_view a s"
  using assms(2) unfolding lreachable_def
proof (induction rule: rtranclp_induct)
  case base
  then show ?case using lock_view_new [of n] by (auto simp: reachable_def)
next
  case (step s t)
  then obtain a where a: "reachable n a" "lock_view a s" by blast
  have "lock_inv n s" using lock_inv_reachable [of pref n s] step.hyps(1) by (simp add: lreachable_def)
  from view_step [OF step.hyps(2) this a(2) sys_inv_reachable [OF a(1) assms(1)]]
  show ?case using reachable_path [OF a(1)] by blast
qed

text \<open>
  C9: the critical sections are a correct view of the pool.  Every state that the threads can reach by
  single acquisitions, accesses and releases of the locks stands for a state that is reachable by
  whole critical sections: with the same pool, the same finished and destroyed coroutines, the
  workers where they are, the same tasks bound and not yet pushed, and, in the middle of a clean-up,
  the pool before it of which a part is already cleaned.
\<close>

theorem locks_refine_pool:
  assumes "0 < n" and "lreachable pref n s"
  shows "\<exists>a. reachable n a \<and> lock_view a s"
  by (rule view_reachable [OF assms])

theorem locks_refine_pool_witness:
  "\<exists>a. reachable 1 a \<and> workers a = [Running 5]"
proof -
  obtain a where "reachable 1 a" "lock_view a (demo_locks (demo_bound []) (WRun 5 (Some (ALock 6))) CLock)"
    using locks_refine_pool [OF _ demo_nested] by auto
  then show ?thesis using lock_viewD(1) by fastforce
qed

end
