(* ===== verification/Deadlock.thy ===== *)
theory Deadlock
  imports Locks
begin

text \<open>
  Progress of the thread pool with its locks (\<^verbatim>\<open>include/async/Loop.hpp\<close>): from every state
  of \<open>Locks\<close> all locks can be released again, if waiting writers do not keep readers out, and
  otherwise the pool can come to a halt.  The steps are ranked by what a thread still has to do until it
  has no lock; a state in which no step lowers the rank has all locks free.
\<close>

subsection \<open>The locks are released\<close>

fun arank :: "apc \<Rightarrow> nat" where
  "arank (ALock g) = 8"
| "arank (ABind g) = 7"
| "arank (AHave g) = 6"
| "arank (ACount g) = 5"
| "arank (ACounted g) = 4"
| "arank (AQueue g q) = 3"
| "arank (APush g q) = 2"
| "arank (ANotify g q) = 1"

fun wrank :: "wpc \<Rightarrow> nat" where
  "wrank WLock = 0"
| "wrank WWait = 0"
| "wrank WWoken = 0"
| "wrank WTry = 1"
| "wrank WTake = 2"
| "wrank WCheck = 2"
| "wrank WQueue = 3"
| "wrank (WRun h None) = 1"
| "wrank (WRun h (Some a)) = Suc (arank a)"

fun crank :: "nat \<Rightarrow> cpc \<Rightarrow> nat" where
  "crank n (MAdd a) = Suc (arank a)"
| "crank n CCheck = 2 * n + 2"
| "crank n (CQueues dt qs) = 2 * length qs + 1"
| "crank n (CHeld dt i qs) = 2 * length qs + 2"
| "crank n _ = 0"

definition lrank :: "lsys \<Rightarrow> nat" where
  "lrank s = sum_list (map wrank (lworkers s)) + crank (length (lworkers s)) (cleaner s)"

text \<open>Nobody has a lock or is in a call of \<^verbatim>\<open>addTask\<close>.\<close>

definition released :: "lsys \<Rightarrow> bool" where
  "released s \<longleftrightarrow> \<not> shared_held s \<and> \<not> writing (cleaner s) \<and> calls s = [] \<and>
     (\<forall>i < length (lworkers s). queue_holders i s = 0)"

lemma worker_rank:
  assumes "i < length (lworkers s)" and "lworkers t = (lworkers s)[i := w]" and "cleaner t = cleaner s"
    and "wrank w < wrank (lworkers s ! i)"
  shows "lrank t < lrank s"
proof -
  have "wrank (lworkers s ! i) \<le> sum_list (map wrank (lworkers s))"
    using elem_le_sum_list [of i "map wrank (lworkers s)"] assms(1) by simp
  then have "sum_list (map wrank ((lworkers s)[i := w])) < sum_list (map wrank (lworkers s))"
    using assms(1,4) by (simp add: map_update sum_list_update)
  then show ?thesis using assms(2,3) by (simp add: lrank_def)
qed

lemma cleaner_rank:
  "lworkers t = lworkers s \<Longrightarrow> crank (length (lworkers s)) (cleaner t) < crank (length (lworkers s)) (cleaner s) \<Longrightarrow>
     lrank t < lrank s"
  by (simp add: lrank_def)

lemma call_cases:
  assumes "a \<in> set (calls s)"
  obtains "cleaner s = MAdd a" | i h where "i < length (lworkers s)" and "lworkers s ! i = WRun h (Some a)"
proof -
  have "a \<in> set (main_call (cleaner s)) \<or> (\<exists>w \<in> set (lworkers s). a \<in> set (call_of w))"
    using assms by (auto simp: calls_def)
  then show thesis
  proof
    assume "a \<in> set (main_call (cleaner s))"
    then have "cleaner s = MAdd a" by (cases "cleaner s") auto
    then show thesis by (rule that(1))
  next
    assume "\<exists>w \<in> set (lworkers s). a \<in> set (call_of w)"
    then obtain w where w: "w \<in> set (lworkers s)" "a \<in> set (call_of w)" by blast
    then obtain h where "w = WRun h (Some a)" by (cases w rule: call_of.cases) auto
    with w(1) show thesis by (auto simp: in_set_conv_nth intro: that(2))
  qed
qed

lemma call_step:
  assumes "a \<in> set (calls s)" and "add_step pref s a a' p" and "\<And>x. a' = Some x \<Longrightarrow> arank x < arank a"
  shows "\<exists>t. lock_step pref s t \<and> lrank t < lrank s"
  using assms(1)
proof (cases rule: call_cases)
  case 1
  let ?t = "s\<lparr>cleaner := main_after a', lpool := p\<rparr>"
  have "lock_step pref s ?t" using 1 assms(2) by (rule lock_step.main_adds)
  moreover have "lrank ?t < lrank s"
    using 1 assms(3) by (intro cleaner_rank) (cases a'; simp)+
  ultimately show ?thesis by blast
next
  case (2 i h)
  let ?t = "s\<lparr>lworkers := (lworkers s)[i := WRun h a'], lpool := p\<rparr>"
  have "lock_step pref s ?t" using 2 assms(2) by (rule lock_step.w_adds)
  moreover have "wrank (WRun h a') < wrank (WRun h (Some a))"
    using assms(3) by (cases a'; cases a; simp)
  then have "lrank ?t < lrank s" using 2 by (intro worker_rank [of i]) simp_all
  ultimately show ?thesis by blast
qed

lemma reachable_pool:
  assumes "0 < n" and "lreachable pref n s"
  shows "\<not> writing (cleaner s) \<or> cleaner s = CCheck \<Longrightarrow> pool_inv (lpool s)"
    and "a \<in> set (calls s) \<Longrightarrow> (g, q) \<in> set (bound_to a) \<Longrightarrow> \<exists>i < n. q = Node i"
proof -
  obtain b where b: "reachable n b" "lock_view b s" using view_reachable [OF assms] by blast
  note v = lock_viewD [OF b(2)]
  note i = sys_inv_reachable [OF b(1) assms(1)]
  then have p: "pool_inv (pool b)" by (simp add: sys_inv_def)
  show "\<not> writing (cleaner s) \<or> cleaner s = CCheck \<Longrightarrow> pool_inv (lpool s)"
    using p v(5) pool_view_settled [of s b] by (auto simp: pool_view_def)
  show "\<exists>i < n. q = Node i" if "a \<in> set (calls s)" "(g, q) \<in> set (bound_to a)"
  proof -
    have "(g, q) \<in> set (bound_calls s)" using that by (auto simp: bound_calls_def)
    then have "(g, q) \<in> set (adding b)" using mset_eq_setD [OF v(2)] by simp
    then have "map_of (taskBinding (pool b)) g = Some q" using i by (auto simp: sys_inv_def)
    then show ?thesis using pool_inv_bound [OF p] i reachable_workers [OF b(1)] by (auto simp: sys_inv_def)
  qed
qed

definition stuck_at :: "bool \<Rightarrow> lsys \<Rightarrow> bool" where
  "stuck_at pref s \<longleftrightarrow> (\<forall>t. lock_step pref s t \<longrightarrow> \<not> lrank t < lrank s)"

lemma stuck_worker:
  assumes "stuck_at pref s" and "i < length (lworkers s)"
    and "lock_step pref s t" and "lworkers t = (lworkers s)[i := w]" and "cleaner t = cleaner s"
  shows "\<not> wrank w < wrank (lworkers s ! i)"
  using assms worker_rank [OF assms(2,4,5)] by (auto simp: stuck_at_def)

lemma notified_rank: "sum_list (map wrank (notified q ws)) = sum_list (map wrank ws)"
proof -
  have "map wrank (notified q ws) = map wrank ws" by (simp add: notified_nth)
  then show ?thesis by simp
qed

lemma notify_step:
  assumes "ANotify g q \<in> set (calls s)"
  shows "\<exists>t. lock_step pref s t \<and> lrank t < lrank s"
  using assms
proof (cases rule: call_cases)
  case 1
  have "lrank (s\<lparr>cleaner := MIdle, lworkers := notified q (lworkers s)\<rparr>) < lrank s"
    using 1 by (simp add: lrank_def notified_rank)
  with lock_step.main_notifies [OF 1] show ?thesis by blast
next
  case (2 i h)
  let ?u = "s\<lparr>lworkers := (lworkers s)[i := WRun h None]\<rparr>"
  have "lrank ?u < lrank s" using 2 by (intro worker_rank [of i _ _ "WRun h None"]) simp_all
  then have "lrank (s\<lparr>lworkers := notified q ((lworkers s)[i := WRun h None])\<rparr>) < lrank s"
    by (simp add: lrank_def notified_rank notified_nth(1))
  with lock_step.w_notifies [OF 2] show ?thesis by blast
qed

text \<open>Whoever has a queue can go on.\<close>

lemma stuck_queues:
  assumes "0 < n" and "lreachable pref n s" and "stuck_at pref s" and "i < n"
  shows "queue_holders i s = 0"
proof -
  note inv = lock_invD [OF lock_inv_reachable [OF assms(2)]]
  have "\<not> wqueue (lworkers s ! i)"
  proof
    assume w: "wqueue (lworkers s ! i)"
    have l: "i < length (lworkers s)" using assms(4) inv(1) by simp
    show False
    proof (cases "lworkers s ! i")
      case WCheck
      show False
      proof (cases "popTask i (lpool s)")
        case None
        from stuck_worker [OF assms(3) l lock_step.w_wait [OF l WCheck this], where w = WWait] WCheck show False by simp
      next
        case (Some x)
        then obtain h p where "popTask i (lpool s) = Some (h, p)" by (cases x) auto
        from stuck_worker [OF assms(3) l lock_step.w_pop [OF l WCheck this], where w = "WRun h None"] WCheck show False by simp
      qed
    next
      case WTry
      from stuck_worker [OF assms(3) l lock_step.w_give_up [OF l WTry], where w = WLock] WTry show False by simp
    next
      case WTake
      then have "queueList (lpool s) ! i \<noteq> []" using inv(6) assms(4) by simp
      then have "popTask i (lpool s) \<noteq> None" by (simp add: popTask_def split: list.splits)
      then obtain h p where "popTask i (lpool s) = Some (h, p)" by auto
      from stuck_worker [OF assms(3) l lock_step.w_take [OF l WTake this], where w = "WRun h None"] WTake show False by simp
    qed (use w in simp_all)
  qed
  moreover have "\<not> pushes i a" if a: "a \<in> set (calls s)" for a
  proof
    assume "pushes i a"
    then obtain g where g: "a = APush g (Node i)" by (cases a) auto
    obtain p where "pushTask g (Node i) (lpool s) = Returns p" using pushTask_total inv(2) assms(4) by blast
    then have "add_step pref s a (Some (ANotify g (Node i))) p" unfolding g by (rule add_step.a_push)
    from call_step [OF a this] assms(3) show False by (auto simp: stuck_at_def g)
  qed
  moreover have "\<not> cqueue (cleaner s) i"
  proof
    assume "cqueue (cleaner s) i"
    then obtain dt qs where c: "cleaner s = CHeld dt i qs" by (cases "cleaner s") auto
    from assms(3) lock_step.c_erase [OF c] show False
      using cleaner_rank c by (fastforce simp: stuck_at_def)
  qed
  ultimately show ?thesis by (simp add: queue_holders_def filter_empty_conv)
qed

text \<open>Then those that wait for a queue can go on, then whoever has \<^verbatim>\<open>bindingMutex\<close>, and so on.\<close>

lemma stuck_calls:
  assumes "0 < n" and "lreachable False n s" and "stuck_at False s" and "a \<in> set (calls s)"
  shows "writing (cleaner s) \<and> \<not> ashared a"
proof -
  note inv = lock_invD [OF lock_inv_reachable [OF assms(2)]]
  have no: False if "c \<in> set (calls s)" "add_step False s c c' p" "\<And>x. c' = Some x \<Longrightarrow> arank x < arank c" for c c' p
    using call_step [OF that] assms(3) unfolding stuck_at_def by blast
  have pool: "pool_inv (lpool s)" if "c \<in> set (calls s)" "ashared c" for c
  proof -
    have "shared_held s"
      using that(1)
    proof (cases rule: call_cases)
      case 1
      then show ?thesis using that(2) by (simp add: shared_held_def)
    next
      case (2 i h)
      then have "WRun h (Some c) \<in> set (lworkers s)" by (metis nth_mem)
      then show ?thesis by (force simp: shared_held_def)
    qed
    then show ?thesis using reachable_pool(1) [OF assms(1,2)] inv(3) by blast
  qed
  have nb: "\<not> abinding c" if c: "c \<in> set (calls s)" for c
  proof -
    have none: "ACounted g \<notin> set (calls s)" for g
    proof
      assume g: "ACounted g \<in> set (calls s)"
      obtain k where "currentQueue (lpool s) = Node k"
        using pool [OF g] by (auto simp: pool_inv_def)
      then obtain q p where "bindNext g (lpool s) = Returns (q, p)" by (auto simp: bindNext_def Let_def)
      from no [OF g add_step.a_next [OF this]] show False by simp
    qed
    then have "\<not> counter_held s" by (simp add: counter_held_def)
    then have nc: "ACount g \<notin> set (calls s)" for g
      using no [OF _ add_step.a_count, of g] by auto
    have "AHave g \<notin> set (calls s)" for g
    proof
      assume g: "AHave g \<in> set (calls s)"
      show False
      proof (cases "map_of (taskBinding (lpool s)) g")
        case None
        from no [OF g add_step.a_new [OF this]] show False by simp
      next
        case (Some q)
        from no [OF g add_step.a_known [OF this]] show False by simp
      qed
    qed
    with none nc c show ?thesis by (cases c) auto
  qed
  then have "\<not> binding_held s" by (simp add: binding_held_def)
  then have nbind: "ABind g \<notin> set (calls s)" for g
    using no [OF _ add_step.a_bind, of g] by auto
  have nq: "AQueue g q \<notin> set (calls s)" for g q
  proof
    assume g: "AQueue g q \<in> set (calls s)"
    obtain i where i: "i < n" "q = Node i" using reachable_pool(2) [OF assms(1,2) g] by auto
    have "\<not> queue_held i s" using stuck_queues [OF assms(1-3) i(1)] by (simp add: queue_held_iff)
    from no [OF g [unfolded i(2)] add_step.a_queue [OF this]] show False by simp
  qed
  have np: "APush g q \<notin> set (calls s)" for g q
  proof
    assume g: "APush g q \<in> set (calls s)"
    obtain i where i: "i < n" "q = Node i" using reachable_pool(2) [OF assms(1,2) g] by auto
    then have "queue_held i s" using g by (auto simp: queue_held_def)
    then have "queue_holders i s \<noteq> 0" by (simp add: queue_held_iff)
    then show False using stuck_queues [OF assms(1-3) i(1)] by simp
  qed
  have nn: "ANotify g q \<notin> set (calls s)" for g q
    using notify_step [of g q s False] assms(3) by (auto simp: stuck_at_def)
  obtain g where g: "a = ALock g" using nb [OF assms(4)] assms(4) nbind nq np nn by (cases a) auto
  have "writing (cleaner s)"
  proof (rule ccontr)
    assume "\<not> writing (cleaner s)"
    then have "can_share False s" by (simp add: can_share_def)
    from no [OF assms(4) [unfolded g] add_step.a_lock [OF this]] show False by simp
  qed
  then show ?thesis by (simp add: g)
qed

text \<open>In the end only those that wait for the shared lock, sleep or have finished are left.\<close>

lemma stuck_released:
  assumes "0 < n" and "lreachable False n s" and "stuck_at False s"
  shows "released s"
proof -
  note inv = lock_invD [OF lock_inv_reachable [OF assms(2)]]
  have q: "queue_holders i s = 0" if "i < n" for i using stuck_queues [OF assms that] .
  have no: False if "lock_step False s t" "lworkers t = lworkers s"
    "crank n (cleaner t) < crank n (cleaner s)" for t
    using cleaner_rank [OF that(2)] that inv(1) assms(3) by (auto simp: stuck_at_def)
  have w: "lworkers s ! i \<in> {WLock, WWait, WWoken}" if i: "i < n" for i
  proof -
    have l: "i < length (lworkers s)" using i inv(1) by simp
    have "\<not> wqueue (lworkers s ! i)" using q [OF i] l by (simp add: queue_holders_def split: if_splits)
    moreover have "lworkers s ! i \<noteq> WQueue"
    proof
      assume "lworkers s ! i = WQueue"
      moreover have "\<not> queue_held i s" using q [OF i] by (simp add: queue_held_iff)
      ultimately show False
        using stuck_worker [OF assms(3) l lock_step.w_queue [OF l], where w = WCheck] by simp
    qed
    moreover have "lworkers s ! i \<noteq> WRun h c" for h c
    proof
      assume r: "lworkers s ! i = WRun h c"
      show False
      proof (cases c)
        case None
        have "lock_step False s (s\<lparr>lworkers := (lworkers s)[i := WLock], ldones := ldones s \<union> {}\<rparr>)"
          using l r None by (intro lock_step.w_finish) simp_all
        from stuck_worker [OF assms(3) l this, where w = WLock] r None show False by simp
      next
        case (Some a)
        then have "a \<in> set (calls s)" using r l nth_mem [of i "lworkers s"] by (force simp: calls_def)
        then have "writing (cleaner s)" using stuck_calls [OF assms] by blast
        moreover have "wshared (lworkers s ! i)" using r by simp
        ultimately show False using worker_settled [OF lock_inv_reachable [OF assms(2)] i] by blast
      qed
    qed
    ultimately show ?thesis by (cases "lworkers s ! i") auto
  qed
  have "cleaner s \<noteq> MAdd a" for a
    using stuck_calls [OF assms, of a] by (auto simp: calls_def)
  then have m: "main_call (cleaner s) = []" by (cases "cleaner s") auto
  have none: "call_of v = [] \<and> \<not> wshared v" if v: "v \<in> set (lworkers s)" for v
  proof -
    obtain i where "i < n" "lworkers s ! i = v" using v inv(1) by (metis in_set_conv_nth)
    from w [OF this(1)] this(2) show ?thesis by auto
  qed
  have "cleaner s \<noteq> CCheck"
  proof
    assume c: "cleaner s = CCheck"
    show False
    proof (cases "length (taskBinding (lpool s)) < clean_threshold")
      case True
      from no [OF lock_step.c_small [OF c True]] c show False by simp
    next
      case False
      have p: "pool_inv (lpool s)" using reachable_pool(1) [OF assms(1,2)] c by blast
      let ?A = "{i. Node i \<in> snd ` set (done_tasks s)}"
      have d: "\<exists>i < n. q = Node i" if "(h, q) \<in> set (done_tasks s)" for h q
        using p that inv(2) by (auto simp: pool_inv_def done_tasks_def)
      have A: "?A \<subseteq> {..< n}"
      proof
        fix i assume "i \<in> ?A"
        then obtain h where "(h, Node i) \<in> set (done_tasks s)" by (metis imageE mem_Collect_eq prod.collapse)
        from d [OF this] show "i \<in> {..< n}" by simp
      qed
      then have "finite ?A" by (rule finite_subset) simp
      from finite_distinct_list [OF this] obtain qs where qs: "set qs = ?A" "distinct qs"
        by (elim exE conjE) (rule that)
      have "Node ` set qs = snd ` set (done_tasks s)" unfolding qs(1)
      proof (intro set_eqI iffI)
        fix q assume "q \<in> snd ` set (done_tasks s)"
        moreover from this obtain i where "q = Node i" using d by (metis imageE prod.collapse)
        ultimately show "q \<in> Node ` {i. Node i \<in> snd ` set (done_tasks s)}" by simp
      qed blast
      moreover have "length qs \<le> n"
        using qs A card_mono [of "{..< n}" ?A] distinct_card [OF qs(2)] by simp
      ultimately show False
        using no [OF lock_step.c_collect [OF c _ qs(2)]] False c by (simp add: not_less)
    qed
  qed
  moreover have "cleaner s \<noteq> CQueues dt qs" for dt qs
  proof
    assume c: "cleaner s = CQueues dt qs"
    show False
    proof (cases qs)
      case Nil
      from no [OF lock_step.c_unlock [OF c [unfolded Nil]]] c show False by simp
    next
      case (Cons i r)
      have "\<not> queue_held i s"
      proof (cases "i < n")
        case True
        then show ?thesis using q by (simp add: queue_held_iff)
      next
        case False
        have "calls s = []" using none m by (simp add: calls_def)
        then show ?thesis using False inv(1) c by (simp add: queue_held_def)
      qed
      from no [OF lock_step.c_queue [OF c [unfolded Cons] this]] c Cons show False by simp
    qed
  qed
  moreover have "cleaner s \<noteq> CHeld dt i qs" for dt i qs
    using no [OF lock_step.c_erase, of dt i qs] by auto
  ultimately have nw: "\<not> writing (cleaner s)" by (cases "cleaner s") auto
  then have "calls s = []" using stuck_calls [OF assms] by (cases "calls s") auto
  moreover have "\<not> shared_held s" using none m by (auto simp: shared_held_def)
  ultimately show ?thesis using nw q inv(1) by (simp add: released_def)
qed

lemma release_path:
  assumes "0 < n" and "lreachable False n s"
  shows "\<exists>t. (lock_step False)\<^sup>*\<^sup>* s t \<and> released t"
  using assms(2)
proof (induction "lrank s" arbitrary: s rule: less_induct)
  case less
  show ?case
  proof (cases "stuck_at False s")
    case True
    with stuck_released [OF assms(1) less.prems] show ?thesis by blast
  next
    case False
    then obtain t where t: "lock_step False s t" "lrank t < lrank s" by (auto simp: stuck_at_def)
    from less.hyps [OF t(2) lreachable_step [OF less.prems t(1)]] obtain u where
      "(lock_step False)\<^sup>*\<^sup>* t u" "released u" by blast
    with t(1) show ?thesis by (meson converse_rtranclp_into_rtranclp)
  qed
qed

text \<open>
  C10: no deadlock, if the lock lets readers in while a writer waits.  From every reachable state, whatever
  the threads have locked and wait for, a state can be reached in which all locks are free and no
  \<^verbatim>\<open>addTask\<close> is under way; this covers the coroutines that add tasks while their worker
  has the shared lock, and a cleaner that waits for the queue of a woken worker.
\<close>

theorem locks_are_released:
  assumes "0 < n" and "lreachable False n s"
  shows "\<exists>t. (lock_step False)\<^sup>*\<^sup>* s t \<and> released t"
  by (rule release_path [OF assms])

theorem locks_are_released_witness:
  "\<exists>t. (lock_step False)\<^sup>*\<^sup>* (demo_locks (demo_bound []) (WRun 5 (Some (ALock 6))) CLock) t \<and> released t"
  using locks_are_released [OF _ demo_nested] by simp

subsection \<open>A lock that prefers writers\<close>

definition nested_wait :: "nat \<Rightarrow> lsys \<Rightarrow> bool" where
  "nested_wait i s \<longleftrightarrow> cleaner s = CLock \<and> i < length (lworkers s) \<and> (\<exists>h g. lworkers s ! i = WRun h (Some (ALock g)))"

lemma nested_wait_step:
  assumes "lock_step True s t" and "nested_wait i s"
  shows "nested_wait i t \<and> lworkers t ! i = lworkers s ! i \<and>
    (\<forall>j < length (lworkers s). \<not> wshared (lworkers s ! j) \<longrightarrow> \<not> wshared (lworkers t ! j))"
proof -
  obtain h g where w: "lworkers s ! i = WRun h (Some (ALock g))" and c: "cleaner s = CLock" and i: "i < length (lworkers s)"
    using assms(2) by (auto simp: nested_wait_def)
  have sh: "shared_held s" using w i nth_mem [OF i] by (force simp: shared_held_def)
  have no: "\<not> can_share True s" using c by (simp add: can_share_def)
  show ?thesis
    using assms(1)
  proof cases
    case (w_adds j h' a a' p)
    have "j \<noteq> i"
      using w_adds(3,4) w no by (auto elim: add_stepE)
    then show ?thesis using w_adds w c i by (auto simp: nested_wait_def nth_list_update)
  next
    case (w_notifies j h' g' q)
    then have "j \<noteq> i" using w by auto
    then show ?thesis using w_notifies w c i by (auto simp: nested_wait_def nth_list_update notified_nth)
  qed (use w c i sh no in \<open>auto simp: nested_wait_def nth_list_update\<close>)
qed

lemma nested_wait_stays:
  assumes "(lock_step True)\<^sup>*\<^sup>* s t" and "nested_wait i s"
  shows "nested_wait i t \<and> lworkers t ! i = lworkers s ! i \<and> length (lworkers t) = length (lworkers s) \<and>
    (\<forall>j < length (lworkers s). \<not> wshared (lworkers s ! j) \<longrightarrow> \<not> wshared (lworkers t ! j))"
  using assms(1)
proof (induction rule: rtranclp_induct)
  case base
  then show ?case using assms(2) by simp
next
  case (step t u)
  have "length (lworkers u) = length (lworkers t)" using step.hyps(2) by (auto simp: notified_nth elim: lock_stepE)
  then show ?case using step.IH nested_wait_step [OF step.hyps(2), of i] by auto
qed

text \<open>
  C26: a lock that prefers writers stops the pool.  If waiting writers keep new readers out, as
  \<^verbatim>\<open>std::shared_mutex\<close> may, and the cleaner waits for the lock while a coroutine that is run by worker
  \<open>i\<close> calls \<^verbatim>\<open>addTask\<close>, then whatever the threads do the cleaner never gets the lock, the call never
  gets on, and no worker that has not the lock ever takes a task again.
\<close>

theorem writer_preference_deadlocks:
  assumes "lreachable True n s" and "i < n" and "lworkers s ! i = WRun h (Some (ALock g))"
    and "cleaner s = CLock" and "(lock_step True)\<^sup>*\<^sup>* s t"
  shows "lworkers t ! i = WRun h (Some (ALock g)) \<and> cleaner t = CLock \<and>
    (\<forall>j < n. \<not> wshared (lworkers s ! j) \<longrightarrow> \<not> wshared (lworkers t ! j))"
proof -
  have "length (lworkers s) = n" using lock_invD(1) [OF lock_inv_reachable [OF assms(1)]] .
  then show ?thesis
    using nested_wait_stays [OF assms(5), of i] assms(2-4) by (simp add: nested_wait_def)
qed

theorem writer_preference_deadlocks_witness:
  "lreachable True 1 (demo_locks (demo_bound []) (WRun 5 (Some (ALock 6))) CLock) \<and>
     \<not> (\<exists>t. (lock_step True)\<^sup>*\<^sup>* (demo_locks (demo_bound []) (WRun 5 (Some (ALock 6))) CLock) t \<and> cleaner t \<noteq> CLock)"
  using writer_preference_deadlocks [OF demo_nested, of 0 5 6] demo_nested by auto

end
