(* ===== verification/Wakeup.thy ===== *)
theory Wakeup
  imports Deadlock
begin

text \<open>
  The condition variables of the pool (\<^verbatim>\<open>include/async/Loop.hpp\<close>): a worker that sleeps in
  \<^verbatim>\<open>cv.wait\<close> while a task is in its queue is about to be notified, so no worker sleeps through
  the work it has.
\<close>

subsection \<open>Who sleeps is notified\<close>

definition wake_inv :: "lsys \<Rightarrow> bool" where
  "wake_inv s \<longleftrightarrow>
     (\<forall>i < length (lworkers s). lworkers s ! i = WWait \<longrightarrow> queueList (lpool s) ! i \<noteq> [] \<longrightarrow>
        (\<exists>g. ANotify g (Node i) \<in> set (calls s)))"

lemma wake_inv_shrink:
  assumes "wake_inv s" and "length (lworkers t) = length (lworkers s)"
    and "\<And>i. i < length (lworkers s) \<Longrightarrow> lworkers t ! i = WWait \<Longrightarrow> queueList (lpool t) ! i \<noteq> [] \<Longrightarrow>
      lworkers s ! i = WWait \<and> queueList (lpool s) ! i \<noteq> []"
    and "\<And>g q. ANotify g q \<in> set (calls s) \<Longrightarrow> ANotify g q \<in> set (calls t)"
  shows "wake_inv t"
  using assms unfolding wake_inv_def by metis

lemma calls_update:
  assumes "i < length (lworkers s)" and "call_of w = call_of (lworkers s ! i)" and "lworkers t = (lworkers s)[i := w]"
    and "cleaner t = cleaner s"
  shows "set (calls t) = set (calls s)"
  using calls_worker [OF assms(1,3,4)] assms(2) mset_eq_setD [of "calls t" "calls s"] by simp

lemma wake_inv_worker:
  assumes "wake_inv s" and "i < length (lworkers s)" and "call_of w = call_of (lworkers s ! i)"
    and "lworkers t = (lworkers s)[i := w]" and "cleaner t = cleaner s"
    and "\<And>j. j < length (lworkers s) \<Longrightarrow> j \<noteq> i \<Longrightarrow> queueList (lpool t) ! j = queueList (lpool s) ! j"
    and "w = WWait \<Longrightarrow> queueList (lpool t) ! i = []"
  shows "wake_inv t"
proof (rule wake_inv_shrink [OF assms(1)])
  show "lworkers s ! j = WWait \<and> queueList (lpool s) ! j \<noteq> []"
    if "j < length (lworkers s)" "lworkers t ! j = WWait" "queueList (lpool t) ! j \<noteq> []" for j
    using that assms(2,4,6,7) by (cases "j = i") auto
qed (use assms calls_update [OF assms(2-5)] in auto)

text \<open>A call of \<^verbatim>\<open>addTask\<close> that pushes a task goes on to notify.\<close>

lemma wake_inv_call:
  assumes "wake_inv s" and "add_step pref s a a' p" and "lpool t = p" and "length (lworkers t) = length (lworkers s)"
    and "mset (calls s) = C + mset [a]" and "mset (calls t) = C + mset (call_left a')"
    and "\<And>i. i < length (lworkers s) \<Longrightarrow> lworkers t ! i = WWait \<Longrightarrow> lworkers s ! i = WWait"
  shows "wake_inv t"
  unfolding wake_inv_def
proof (intro allI impI)
  fix i assume i: "i < length (lworkers t)" "lworkers t ! i = WWait" and q: "queueList (lpool t) ! i \<noteq> []"
  have set: "set (calls s) = set_mset C \<union> {a}" "set (calls t) = set_mset C \<union> set (call_left a')"
    using assms(5,6) by (metis list.set(1,2) set_mset_mset set_mset_union)+
  have w: "lworkers s ! i = WWait" using assms(4,7) i by simp
  show "\<exists>g. ANotify g (Node i) \<in> set (calls t)"
  proof (cases "queueList p ! i = queueList (lpool s) ! i")
    case True
    then obtain g where g: "ANotify g (Node i) \<in> set (calls s)" using assms(1,3,4) i q w by (auto simp: wake_inv_def)
    have "a \<noteq> ANotify g (Node i)" using assms(2) by (auto elim: add_stepE)
    then show ?thesis using g set by auto
  next
    case False
    then have "pushes i a" by (rule add_step_changes(4) [OF assms(2)])
    then obtain g where "a = APush g (Node i)" by (cases a) auto
    then have "a' = Some (ANotify g (Node i))" using assms(2) by (auto elim: add_stepE)
    then show ?thesis using set(2) by auto
  qed
qed

text \<open>The notification wakes the worker.\<close>

lemma wake_inv_notified:
  assumes "wake_inv s" and "lworkers t = notified q ws" and "length ws = length (lworkers s)" and "lpool t = lpool s"
    and "\<And>j. j < length ws \<Longrightarrow> ws ! j = WWait \<Longrightarrow> lworkers s ! j = WWait"
    and "mset (calls s) = C + mset [ANotify g q]" and "mset (calls t) = C"
  shows "wake_inv t"
  unfolding wake_inv_def
proof (intro allI impI)
  fix i assume i: "i < length (lworkers t)" "lworkers t ! i = WWait" and e: "queueList (lpool t) ! i \<noteq> []"
  have l: "i < length ws" using i(1) assms(2) by (simp add: notified_nth)
  have w: "ws ! i = WWait" "q \<noteq> Node i" using i(2) assms(2) l by (auto simp: notified_nth split: if_splits)
  obtain f where f: "ANotify f (Node i) \<in> set (calls s)"
    using assms(1,3,4,5) l w(1) e by (auto simp: wake_inv_def)
  have "set (calls s) = set_mset C \<union> {ANotify g q}" "set (calls t) = set_mset C"
    using assms(6,7) by (metis list.set(1,2) set_mset_mset set_mset_union)+
  then show "\<exists>g. ANotify g (Node i) \<in> set (calls t)" using f w(2) by auto
qed

lemma popTask_none: "popTask i p = None \<Longrightarrow> queueList p ! i = []"
  by (simp add: popTask_def split: list.splits)

lemma wake_inv_step:
  assumes inv: "lock_inv n s" "wake_inv s" and step: "lock_step pref s t"
  shows "wake_inv t"
  using step
proof cases
  case (main_calls g)
  show ?thesis by (rule wake_inv_shrink [OF inv(2)]) (use main_calls in \<open>auto simp: calls_def\<close>)
next
  case (main_adds a a' p)
  have "main_call (main_after a') = call_left a'" by (cases a') simp_all
  then show ?thesis using main_adds
    by (intro wake_inv_call [OF inv(2) main_adds(3), of t "mset (concat (map call_of (lworkers s)))"]) (simp_all add: calls_def)
next
  case (main_notifies g q)
  then show ?thesis
    by (intro wake_inv_notified [OF inv(2), of t q "lworkers s" "mset (concat (map call_of (lworkers s)))" g])
      (simp_all add: calls_def notified_calls)
next
  case main_enters
  then show ?thesis by (intro wake_inv_shrink [OF inv(2)]) (auto simp: calls_def)
next
  case (w_adds i h a a' p)
  obtain C where "mset (calls s) = C + mset [a]" "mset (calls t) = C + mset (call_left a')"
    using calls_w_adds [of i s h a t a'] w_adds by auto
  then show ?thesis
    by (intro wake_inv_call [OF inv(2) w_adds(4), of t C]) (use w_adds in \<open>auto simp: nth_list_update split: if_splits\<close>)
next
  case (w_notifies i h g q)
  let ?u = "s\<lparr>lworkers := (lworkers s)[i := WRun h None]\<rparr>"
  obtain C where C: "mset (calls s) = C + mset [ANotify g q]" "mset (calls ?u) = C + mset (call_left None)"
    using calls_w_adds [of i s h "ANotify g q" ?u None] w_notifies by auto
  have "mset (calls t) = C" using C(2) w_notifies by (simp add: calls_def notified_calls)
  then show ?thesis using w_notifies C(1)
    by (intro wake_inv_notified [OF inv(2), of t q "(lworkers s)[i := WRun h None]" C g])
      (auto simp: nth_list_update split: if_splits)
next
  case (w_calls i h g)
  have "mset (calls t) = mset (calls s) + mset [ALock g]"
    using calls_worker [of i s t "WRun h (Some (ALock g))"] w_calls by simp
  then have "set (calls s) \<subseteq> set (calls t)" by (metis set_mset_mset set_mset_union sup_ge1)
  then show ?thesis
    by (intro wake_inv_shrink [OF inv(2)]) (use w_calls in \<open>auto simp: nth_list_update split: if_splits\<close>)
next
  case (w_wait i)
  then show ?thesis using wake_inv_worker [OF inv(2), of i WWait t] popTask_none by simp
next
  case (w_sleep i)
  then show ?thesis using wake_inv_worker [OF inv(2), of i WWait t] popTask_none by simp
next
  case (w_pop i h p)
  then show ?thesis using wake_inv_worker [OF inv(2), of i "WRun h None" t] popTask_changes by simp
next
  case (w_take i h p)
  then show ?thesis using wake_inv_worker [OF inv(2), of i "WRun h None" t] popTask_changes by simp
next
  case (w_lock i)
  then show ?thesis using wake_inv_worker [OF inv(2), of i WQueue t] by simp
next
  case (w_queue i)
  then show ?thesis using wake_inv_worker [OF inv(2), of i WCheck t] by simp
next
  case (w_spurious i)
  then show ?thesis using wake_inv_worker [OF inv(2), of i WWoken t] by simp
next
  case (w_wake i)
  then show ?thesis using wake_inv_worker [OF inv(2), of i WTry t] by simp
next
  case (w_give_up i)
  then show ?thesis using wake_inv_worker [OF inv(2), of i WLock t] by simp
next
  case (w_try i)
  then show ?thesis using wake_inv_worker [OF inv(2), of i WTake t] by simp
next
  case (w_finish i h D)
  then show ?thesis using wake_inv_worker [OF inv(2), of i WLock t] by simp
next
  case (c_erase dt i qs)
  have "queueList (lpool s) ! j \<noteq> []" if "queueList (lpool t) ! j \<noteq> []" "j < length (lworkers s)" for j
    using that c_erase(1) lock_invD(1,2) [OF inv(1)] by (cases "j = i") auto
  then show ?thesis by (intro wake_inv_shrink [OF inv(2)]) (use c_erase in \<open>auto simp: calls_def\<close>)
qed (auto simp: calls_def intro: wake_inv_shrink [OF inv(2)])

lemma wake_inv_reachable: "lreachable pref n s \<Longrightarrow> wake_inv s"
  unfolding lreachable_def
proof (induction rule: rtranclp_induct)
  case base
  show ?case by (simp add: wake_inv_def new_lsys_def)
next
  case (step s t)
  have "lock_inv n s" using lock_inv_reachable [of pref n s] step.hyps(1) by (simp add: lreachable_def)
  from wake_inv_step [OF this step.IH step.hyps(2)] show ?case .
qed

subsection \<open>Who is awake gets to its work\<close>

text \<open>A step that worker \<open>i\<close> makes by itself, not one that wakes it.\<close>

definition own_step :: "bool \<Rightarrow> nat \<Rightarrow> lsys \<Rightarrow> lsys \<Rightarrow> bool" where
  "own_step pref i s t \<longleftrightarrow>
     lock_step pref s t \<and> cleaner t = cleaner s \<and> (\<forall>j. j \<noteq> i \<longrightarrow> lworkers t ! j = lworkers s ! j) \<and>
     lworkers s ! i \<noteq> WWait"

lemma own_step_worker:
  assumes "lock_step pref s (s\<lparr>lworkers := (lworkers s)[i := w], lpool := p\<rparr>)" and "lworkers s ! i \<noteq> WWait"
  shows "own_step pref i s (s\<lparr>lworkers := (lworkers s)[i := w], lpool := p\<rparr>)"
  using assms by (simp add: own_step_def)

lemma own_step_wpc:
  "lock_step pref s (s\<lparr>lworkers := (lworkers s)[i := w]\<rparr>) \<Longrightarrow> lworkers s ! i \<noteq> WWait \<Longrightarrow>
     own_step pref i s (s\<lparr>lworkers := (lworkers s)[i := w]\<rparr>)"
  by (simp add: own_step_def)

lemma own_path:
  assumes i: "i < length (lworkers s)" and q: "popTask i (lpool s) = Some (h, p)" and w: "lworkers s ! i \<in> {WLock, WWoken}"
    and share: "can_share pref s" and c: "calls s = []"
  shows "\<exists>t. (own_step pref i)\<^sup>*\<^sup>* s t \<and> lworkers t ! i = WRun h None"
proof -
  let ?w = "\<lambda>w. s\<lparr>lworkers := (lworkers s)[i := w]\<rparr>"
  let ?t = "s\<lparr>lworkers := (lworkers s)[i := WRun h None], lpool := p\<rparr>"
  have calls: "set (calls (?w v)) = {}" if "call_of v = []" for v
    using calls_update [of i s v "?w v"] that i w c by auto
  have sh: "can_share pref (?w v)" for v using share by (simp add: can_share_def)
  have nc: "\<not> cqueue (cleaner s) j" for j using share by (cases "cleaner s") (auto simp: can_share_def)
  have free: "\<not> queue_held i (?w v)" if "call_of v = []" "\<not> wqueue v" for v
    using calls [OF that(1)] that(2) nc i by (simp add: queue_held_def)
  have same: "s = ?w (lworkers s ! i)" by simp
  show ?thesis
  proof (cases "lworkers s ! i = WLock")
    case True
    have 1: "own_step pref i s (?w WQueue)"
      using True i share by (intro own_step_wpc lock_step.w_lock) simp_all
    have "own_step pref i (?w WQueue) ((?w WQueue)\<lparr>lworkers := (lworkers (?w WQueue))[i := WCheck]\<rparr>)"
      using i free [of WQueue] by (intro own_step_wpc lock_step.w_queue) simp_all
    then have 2: "own_step pref i (?w WQueue) (?w WCheck)" by simp
    have "own_step pref i (?w WCheck) ((?w WCheck)\<lparr>lworkers := (lworkers (?w WCheck))[i := WRun h None], lpool := p\<rparr>)"
      using i q by (intro own_step_worker lock_step.w_pop) simp_all
    then have 3: "own_step pref i (?w WCheck) ?t" by simp
    have "(own_step pref i)\<^sup>*\<^sup>* s ?t" using 1 2 3 by (meson converse_rtranclp_into_rtranclp r_into_rtranclp)
    then show ?thesis using i by (intro exI [of _ ?t]) simp
  next
    case False
    then have k: "lworkers s ! i = WWoken" using w by simp
    then have "\<not> queue_held i s" using free [of WWoken] same by simp
    then have 1: "own_step pref i s (?w WTry)"
      using k i q by (intro own_step_wpc lock_step.w_wake) simp_all
    have "own_step pref i (?w WTry) ((?w WTry)\<lparr>lworkers := (lworkers (?w WTry))[i := WTake]\<rparr>)"
      using i sh by (intro own_step_wpc lock_step.w_try) simp_all
    then have 2: "own_step pref i (?w WTry) (?w WTake)" by simp
    have "own_step pref i (?w WTake) ((?w WTake)\<lparr>lworkers := (lworkers (?w WTake))[i := WRun h None], lpool := p\<rparr>)"
      using i q by (intro own_step_worker lock_step.w_take) simp_all
    then have 3: "own_step pref i (?w WTake) ?t" by simp
    have "(own_step pref i)\<^sup>*\<^sup>* s ?t" using 1 2 3 by (meson converse_rtranclp_into_rtranclp r_into_rtranclp)
    then show ?thesis using i by (intro exI [of _ ?t]) simp
  qed
qed

lemma released_worker:
  assumes "released s" and "i < length (lworkers s)"
  shows "lworkers s ! i \<in> {WLock, WWait, WWoken}"
proof -
  have "\<not> wshared (lworkers s ! i)" using assms by (simp add: released_def shared_held_def)
  moreover have "queue_holders i s = 0" using assms by (simp add: released_def)
  then have "\<not> wqueue (lworkers s ! i)" using assms(2) by (simp add: queue_holders_def split: if_splits)
  ultimately show ?thesis by (cases "lworkers s ! i") auto
qed

text \<open>
  C31: no worker sleeps through its work.  In every reachable state a worker that sleeps in \<^verbatim>\<open>cv.wait\<close> with a
  task in its queue is about to be notified by the call of \<^verbatim>\<open>addTask\<close> that pushed one; and once the calls under way
  are over and the locks free, which by \<open>Deadlock\<close> can always be reached, the worker takes the front task by
  steps of its own, none of which is a wake-up without a notification.
\<close>

theorem no_sleep_through_work:
  assumes "lreachable pref n s" and "i < n" and "queueList (lpool s) ! i = h # ts"
  shows "(lworkers s ! i = WWait \<longrightarrow> (\<exists>g. ANotify g (Node i) \<in> set (calls s)))
    \<and> (released s \<and> can_share pref s \<longrightarrow> (\<exists>t. (own_step pref i)\<^sup>*\<^sup>* s t \<and> lworkers t ! i = WRun h None))"
proof (intro conjI impI)
  have i: "i < length (lworkers s)" using lock_invD(1) [OF lock_inv_reachable [OF assms(1)]] assms(2) by simp
  show w: "\<exists>g. ANotify g (Node i) \<in> set (calls s)" if "lworkers s ! i = WWait"
    using wake_inv_reachable [OF assms(1)] i assms(3) that by (simp add: wake_inv_def)
  assume r: "released s \<and> can_share pref s"
  then have c: "calls s = []" by (simp add: released_def)
  then have "lworkers s ! i \<in> {WLock, WWoken}" using released_worker [of s i] r i w by auto
  moreover have "popTask i (lpool s) = Some (h, (lpool s)\<lparr>queueList := (queueList (lpool s))[i := ts]\<rparr>)"
    using assms(3) by (simp add: popTask_def)
  ultimately show "\<exists>t. (own_step pref i)\<^sup>*\<^sup>* s t \<and> lworkers t ! i = WRun h None"
    using own_path [OF i] r c by blast
qed

theorem no_sleep_through_work_witness:
  "\<exists>t. (own_step True 0)\<^sup>*\<^sup>* (demo_locks (demo_bound [5]) WLock MIdle) t \<and> lworkers t ! 0 = WRun 5 None"
  using no_sleep_through_work [OF demo_added [of True], of 0 5 "[]"]
  by (simp add: demo_bound_def released_def shared_held_def queue_holders_def can_share_def)

end
