(* ===== verification/Tasks.thy ===== *)
theory Tasks
  imports Errors
begin

text \<open>
  Coroutines and the stack of awaits (\<^verbatim>\<open>include/async/Tasks.hpp\<close>).

  The first part models the objects of the file: the promise, the awaiters, the \<^verbatim>\<open>Task\<close> object.
  The second part is the machine the C++ compiler makes of them: a table of coroutine frames, the
  coroutine that runs now, and the coroutines handed to the scheduler.  A coroutine body is a tree of
  the awaits the program uses: \<^verbatim>\<open>co_return\<close>, an exception that leaves the body,
  \<^verbatim>\<open>co_await\<close> of a new task, and \<^verbatim>\<open>co_await scheduler\<close>.  The last part compares the
  machine with \<open>eval\<close>, in which \<^verbatim>\<open>co_await\<close> is simply a call.
\<close>

type_synonym coro = nat

subsection \<open>Promise and awaiters\<close>

record 'v promise =
  returnException :: "exc option"
  returnValue :: 'v
  detached :: bool
  prevCoro :: "coro option"

definition new_promise :: "'v \<Rightarrow> 'v promise" where
  "new_promise v0 = \<lparr>returnException = None, returnValue = v0, detached = False, prevCoro = None\<rparr>"

text \<open>The coroutine that runs next; \<open>None\<close> is the noop coroutine, control goes back to the resumer.\<close>

definition returnPrevAwaiter_suspend :: "bool \<Rightarrow> bool \<Rightarrow> coro option \<Rightarrow> coro option" where
  "returnPrevAwaiter_suspend ended det prev =
     (if det \<and> ended then None
      else if \<not> det \<and> prev \<noteq> None then prev
      else None)"

record returnPrevAwaiter =
  rp_ended :: bool
  rp_detached :: bool
  rp_prevCoro :: "coro option"

definition returnPrevAwaiter_ctor :: "bool \<Rightarrow> bool \<Rightarrow> coro option \<Rightarrow> returnPrevAwaiter" where
  "returnPrevAwaiter_ctor endedFlag detachFlag prev =
     \<lparr>rp_ended = endedFlag, rp_detached = detachFlag, rp_prevCoro = prev\<rparr>"

definition await_returnPrev :: "returnPrevAwaiter \<Rightarrow> coro option" where
  "await_returnPrev a = returnPrevAwaiter_suspend (rp_ended a) (rp_detached a) (rp_prevCoro a)"

lemma await_returnPrev [simp]: "await_returnPrev (returnPrevAwaiter_ctor e d p) = returnPrevAwaiter_suspend e d p"
  by (simp add: await_returnPrev_def returnPrevAwaiter_ctor_def)

definition final_suspend :: "'v promise \<Rightarrow> coro option" where
  "final_suspend p = await_returnPrev (returnPrevAwaiter_ctor True (detached p) (prevCoro p))"

text \<open>
  \<open>Inl\<close>: the exception is rethrown.  As the function is \<^verbatim>\<open>noexcept\<close> it does not get to whoever resumed
  the coroutine, it ends the program.
\<close>

definition unhandled_exception :: "exc \<Rightarrow> 'v promise \<Rightarrow> exc + 'v promise" where
  "unhandled_exception e p = (if detached p then Inl e else Inr (p\<lparr>returnException := Some e\<rparr>))"

definition return_value :: "'v \<Rightarrow> 'v promise \<Rightarrow> 'v promise" where
  "return_value v p = p\<lparr>returnValue := v\<rparr>"

text \<open>\<^verbatim>\<open>yield_value\<close> of \<^verbatim>\<open>yieldPromiseType\<close>: the value, and the coroutine that runs next.\<close>

definition yield_value :: "'v \<Rightarrow> 'v promise \<Rightarrow> 'v promise \<times> coro option" where
  "yield_value v p =
     (p\<lparr>returnValue := v\<rparr>, await_returnPrev (returnPrevAwaiter_ctor False (detached p) (prevCoro p)))"

definition getValue :: "'v promise \<Rightarrow> exc + 'v" where
  "getValue p = (case returnException p of Some e \<Rightarrow> Inl e | None \<Rightarrow> Inr (returnValue p))"

subsection \<open>Frames and the machine\<close>

datatype 'v body =
    CoReturn 'v
  | CoThrow exc
  | CoAwait "'v body" "exc + 'v \<Rightarrow> 'v body"
  | CoSchedule "'v body"

datatype 'v code =
    Suspended "'v body"                     \<comment> \<open>at \<^verbatim>\<open>initial_suspend\<close> or in the scheduler\<close>
  | Awaiting coro "exc + 'v \<Rightarrow> 'v body"
  | Active "'v body"
  | Done

record 'v frame =
  promise :: "'v promise"
  code :: "'v code"

record 'v machine =
  frames :: "'v frame list"
  current :: "coro option"
  ready :: "coro list"
  escaped :: "exc option"    \<comment> \<open>the exception that has ended the program\<close>

definition set_code :: "coro \<Rightarrow> 'v code \<Rightarrow> 'v machine \<Rightarrow> 'v machine" where
  "set_code h c m = m\<lparr>frames := (frames m)[h := (frames m ! h)\<lparr>code := c\<rparr>]\<rparr>"

text \<open>
  Resuming a coroutine; when it was awaiting a task, \<^verbatim>\<open>await_resume\<close> reads the value of the task
  or throws its exception into the body.  A coroutine that runs or is done must not be resumed.
\<close>

definition resume :: "coro \<Rightarrow> 'v machine \<Rightarrow> 'v machine outcome" where
  "resume h m =
     (if length (frames m) \<le> h then Undefined
      else case code (frames m ! h) of
        Suspended b \<Rightarrow> Returns (set_code h (Active b) (m\<lparr>current := Some h\<rparr>))
      | Awaiting c k \<Rightarrow>
          Returns (set_code h (Active (k (getValue (promise (frames m ! c))))) (m\<lparr>current := Some h\<rparr>))
      | Active b \<Rightarrow> Undefined
      | Done \<Rightarrow> Undefined)"

text \<open>Symmetric transfer.\<close>

definition transfer :: "coro option \<Rightarrow> 'v machine \<Rightarrow> 'v machine outcome" where
  "transfer target m =
     (case target of None \<Rightarrow> Returns (m\<lparr>current := None\<rparr>) | Some h \<Rightarrow> resume h m)"

text \<open>The coroutine reaches its final suspension point with promise \<open>p\<close>.\<close>

definition finish :: "coro \<Rightarrow> 'v promise \<Rightarrow> 'v machine \<Rightarrow> 'v machine outcome" where
  "finish h p m =
     transfer (final_suspend p) (m\<lparr>frames := (frames m)[h := \<lparr>promise = p, code = Done\<rparr>]\<rparr>)"

text \<open>
  \<^verbatim>\<open>co_await\<close> of a newly created task: the frame is made (\<^verbatim>\<open>initial_suspend\<close> always
  suspends), \<^verbatim>\<open>taskAwaiter::await_suspend\<close> stores the caller and transfers to the task.
\<close>

definition await_task :: "'v \<Rightarrow> coro \<Rightarrow> 'v body \<Rightarrow> (exc + 'v \<Rightarrow> 'v body) \<Rightarrow> 'v machine \<Rightarrow> 'v machine outcome" where
  "await_task v0 h b k m =
     (let task = length (frames m);
          m = set_code h (Awaiting task k) m;
          p = (new_promise v0)\<lparr>prevCoro := Some h\<rparr>
      in transfer (Some task) (m\<lparr>frames := frames m @ [\<lparr>promise = p, code = Suspended b\<rparr>]\<rparr>))"

text \<open>
  One step: the running coroutine goes on, or, when control is with the scheduler, it resumes the next
  coroutine it was given.
\<close>

definition machine_step :: "'v \<Rightarrow> 'v machine \<Rightarrow> 'v machine outcome" where
  "machine_step v0 m =
     (case current m of
        None \<Rightarrow>
          (case ready m of
             [] \<Rightarrow> Returns m
           | h # hs \<Rightarrow> resume h (m\<lparr>ready := hs\<rparr>))
      | Some h \<Rightarrow>
          let p = promise (frames m ! h)
          in case code (frames m ! h) of
               Active (CoReturn v) \<Rightarrow> finish h (return_value v p) m
             | Active (CoThrow e) \<Rightarrow>
                 (case unhandled_exception e p of
                    Inl e \<Rightarrow> Returns ((set_code h Done m)\<lparr>current := None, escaped := Some e\<rparr>)
                  | Inr p \<Rightarrow> finish h p m)
             | Active (CoAwait b k) \<Rightarrow> await_task v0 h b k m
             | Active (CoSchedule b) \<Rightarrow>
                 Returns ((set_code h (Suspended b) m)\<lparr>current := None, ready := ready m @ [h]\<rparr>)
             | _ \<Rightarrow> Undefined)"

fun run_machine :: "'v \<Rightarrow> nat \<Rightarrow> 'v machine \<Rightarrow> 'v machine outcome" where
  "run_machine v0 0 m = Returns m"
| "run_machine v0 (Suc n) m = outcome_bind (machine_step v0 m) (run_machine v0 n)"

subsection \<open>The Task object\<close>

record task =
  selfCoro :: "coro option"

definition task_ctor :: "coro option \<Rightarrow> task" where
  "task_ctor coro = \<lparr>selfCoro = coro\<rparr>"

text \<open>The destructor leaves the frame alone: \<^verbatim>\<open>selfCoro.destroy()\<close> is commented out.\<close>

definition task_destroy :: "task \<Rightarrow> 'v machine \<Rightarrow> 'v machine" where
  "task_destroy t m = (case selfCoro t of None \<Rightarrow> m | Some h \<Rightarrow> m)"

definition task_resume :: "task \<Rightarrow> 'v machine \<Rightarrow> 'v machine outcome" where
  "task_resume t m =
     (case selfCoro t of
        Some h \<Rightarrow> resume h m
      | None \<Rightarrow> Throws (RuntimeError ''Task is empty''))"

lemma task_ctor [simp]: "selfCoro (task_ctor c) = c" "task_ctor c\<lparr>selfCoro := c'\<rparr> = \<lparr>selfCoro = c'\<rparr>"
  by (simp_all add: task_ctor_def)

text \<open>The promise of an empty task is undefined.\<close>

definition detach :: "task \<Rightarrow> 'v machine \<Rightarrow> (coro \<times> task \<times> 'v machine) outcome" where
  "detach t m =
     (case selfCoro t of
        None \<Rightarrow> Undefined
      | Some h \<Rightarrow>
          let f = frames m ! h
          in Returns (h, t\<lparr>selfCoro := None\<rparr>,
               m\<lparr>frames := (frames m)[h := f\<lparr>promise := (promise f)\<lparr>detached := True\<rparr>\<rparr>]\<rparr>))"

text \<open>Calling a coroutine function: the task object and its suspended frame.\<close>

definition make_task :: "'v \<Rightarrow> 'v body \<Rightarrow> 'v machine \<Rightarrow> task \<times> 'v machine" where
  "make_task v0 b m =
     (task_ctor (Some (length (frames m))),
      m\<lparr>frames := frames m @ [\<lparr>promise = new_promise v0, code = Suspended b\<rparr>]\<rparr>)"

subsection \<open>The reference: an await is a call\<close>

primrec eval :: "'v body \<Rightarrow> exc + 'v" where
  "eval (CoReturn v) = Inr v"
| "eval (CoThrow e) = Inl e"
| "eval (CoAwait b k) = (let r = eval b in eval (k r))"
| "eval (CoSchedule b) = eval b"

text \<open>The number of tasks awaited.\<close>

primrec awaits :: "'v body \<Rightarrow> nat" where
  "awaits (CoReturn v) = 0"
| "awaits (CoThrow e) = 0"
| "awaits (CoAwait b k) = Suc (awaits b + (let r = eval b in awaits (k r)))"
| "awaits (CoSchedule b) = awaits b"

text \<open>No coroutine gives way on the way to the value.\<close>

primrec schedule_free :: "'v body \<Rightarrow> bool" where
  "schedule_free (CoReturn v) \<longleftrightarrow> True"
| "schedule_free (CoThrow e) \<longleftrightarrow> True"
| "schedule_free (CoAwait b k) \<longleftrightarrow> schedule_free b \<and> (let r = eval b in schedule_free (k r))"
| "schedule_free (CoSchedule b) \<longleftrightarrow> False"

definition final_body :: "exc + 'v \<Rightarrow> 'v body" where
  "final_body r = (case r of Inl e \<Rightarrow> CoThrow e | Inr v \<Rightarrow> CoReturn v)"

subsection \<open>The machine computes the reference\<close>

lemma run_machine_add:
  "run_machine v0 (n + k) m = outcome_bind (run_machine v0 n m) (run_machine v0 k)"
proof (induction n arbitrary: m)
  case (Suc n)
  then show ?case by (cases "machine_step v0 m") simp_all
qed simp

definition reaches :: "'v \<Rightarrow> 'v machine \<Rightarrow> 'v machine \<Rightarrow> bool" where
  "reaches v0 m m' \<longleftrightarrow> (\<exists>n. run_machine v0 n m = Returns m')"

lemma reaches_refl: "reaches v0 m m"
  unfolding reaches_def by (intro exI [of _ 0]) simp

lemma reaches_step: "machine_step v0 m = Returns m' \<Longrightarrow> reaches v0 m m'"
  unfolding reaches_def by (intro exI [of _ "Suc 0"]) simp

lemma reaches_trans: "reaches v0 a b \<Longrightarrow> reaches v0 b c \<Longrightarrow> reaches v0 a c"
  unfolding reaches_def by (metis outcome_bind.simps(1) run_machine_add)

text \<open>Steps; without \<open>q\<close> the scheduler is not asked for a coroutine in between.\<close>

definition mstep :: "bool \<Rightarrow> 'v \<Rightarrow> 'v machine \<Rightarrow> 'v machine \<Rightarrow> bool" where
  "mstep q v0 m m' \<longleftrightarrow> (q \<or> current m \<noteq> None) \<and> machine_step v0 m = Returns m'"

lemma mstepI: "machine_step v0 m = Returns m' \<Longrightarrow> current m = Some h \<Longrightarrow> (mstep q v0)\<^sup>*\<^sup>* m m'"
  by (rule r_into_rtranclp) (simp add: mstep_def)

lemma reaches_msteps: "(mstep q v0)\<^sup>*\<^sup>* m m' \<Longrightarrow> reaches v0 m m'"
  by (induction rule: rtranclp_induct) (use reaches_refl reaches_step reaches_trans in \<open>fastforce simp: mstep_def\<close>)+

text \<open>A task that was awaited and has its result gives it to its caller.\<close>

lemma child_returns:
  assumes "frames m = fs @ \<lparr>promise = (new_promise v0)\<lparr>prevCoro := Some h\<rparr>, code = Active (final_body r)\<rparr> # new"
    and "current m = Some (length fs)" and "h < length fs" and "code (fs ! h) = Awaiting (length fs) k"
  shows "\<exists>q. machine_step v0 m = Returns (m\<lparr>current := Some h,
    frames := fs[h := (fs ! h)\<lparr>code := Active (k r)\<rparr>] @ \<lparr>promise = q, code = Done\<rparr> # new\<rparr>)"
proof -
  let ?p = "(new_promise v0)\<lparr>prevCoro := Some h\<rparr>"
  have "\<exists>q. getValue q = r \<and> final_suspend q = Some h \<and> machine_step v0 m = finish (length fs) q m"
  proof (cases r)
    case (Inl e)
    then show ?thesis using assms(1,2)
      by (intro exI [of _ "?p\<lparr>returnException := Some e\<rparr>"])
        (simp add: getValue_def final_suspend_def returnPrevAwaiter_suspend_def new_promise_def
          machine_step_def final_body_def nth_append unhandled_exception_def Let_def)
  next
    case (Inr v)
    then show ?thesis using assms(1,2)
      by (intro exI [of _ "return_value v ?p"])
        (simp add: getValue_def final_suspend_def returnPrevAwaiter_suspend_def new_promise_def
          machine_step_def final_body_def nth_append return_value_def Let_def)
  qed
  then obtain q where q: "getValue q = r" "final_suspend q = Some h" "machine_step v0 m = finish (length fs) q m"
    by blast
  then show ?thesis using assms
    by (intro exI [of _ q]) (simp add: finish_def transfer_def resume_def set_code_def nth_append list_update_append)
qed

lemma set_active_same:
  "h < length (frames m) \<Longrightarrow> code (frames m ! h) = c \<Longrightarrow>
     m\<lparr>frames := (frames m)[h := (frames m ! h)\<lparr>code := c\<rparr>]\<rparr> = m"
  by (cases "frames m ! h") (simp add: list_update_same_conv)

lemma schedule_steps:
  assumes "current m = Some h" and "h < length (frames m)" and "code (frames m ! h) = Active (CoSchedule b)"
    and "ready m = []"
  shows "(mstep True v0)\<^sup>*\<^sup>* m (set_code h (Active b) m)"
proof -
  let ?s = "(set_code h (Suspended b) m)\<lparr>current := None, ready := [h]\<rparr>"
  have "machine_step v0 m = Returns ?s" using assms by (simp add: machine_step_def)
  moreover have "machine_step v0 ?s = Returns (set_code h (Active b) m)"
    using assms by (simp add: machine_step_def resume_def set_code_def)
  ultimately have "mstep True v0 m ?s" "mstep True v0 ?s (set_code h (Active b) m)" by (simp_all add: mstep_def)
  then show ?thesis by (meson r_into_rtranclp rtranclp.rtrancl_into_rtrancl)
qed

text \<open>
  The running coroutine \<open>h\<close> brings its body to its value: all other frames are as before, and the
  frames made on the way are done.
\<close>

lemma body_runs:
  assumes "current m = Some h" and "h < length (frames m)" and "code (frames m ! h) = Active b"
    and "q \<and> ready m = [] \<or> schedule_free b"
  shows "\<exists>new. length new = awaits b \<and> (\<forall>f \<in> set new. code f = Done) \<and>
    (mstep q v0)\<^sup>*\<^sup>* m (m\<lparr>frames := (frames m)[h := (frames m ! h)\<lparr>code := Active (final_body (eval b))\<rparr>] @ new\<rparr>)"
  using assms
proof (induction b arbitrary: m h)
  case (CoReturn v)
  then show ?case using set_active_same [OF CoReturn.prems(2,3)]
    by (intro exI [of _ "[]"]) (simp add: final_body_def)
next
  case (CoThrow e)
  then show ?case using set_active_same [OF CoThrow.prems(2,3)]
    by (intro exI [of _ "[]"]) (simp add: final_body_def)
next
  case (CoSchedule b)
  let ?r = "set_code h (Active b) m"
  have "current ?r = Some h" "h < length (frames ?r)" "code (frames ?r ! h) = Active b" "q \<and> ready ?r = [] \<or> schedule_free b"
    using CoSchedule.prems by (simp_all add: set_code_def)
  from CoSchedule.IH [OF this] obtain new where "length new = awaits b" "\<forall>f \<in> set new. code f = Done"
    "(mstep q v0)\<^sup>*\<^sup>* ?r (?r\<lparr>frames := (frames ?r)[h := (frames ?r ! h)\<lparr>code := Active (final_body (eval b))\<rparr>] @ new\<rparr>)"
    by blast
  moreover have "(mstep q v0)\<^sup>*\<^sup>* m ?r" using schedule_steps [OF CoSchedule.prems(1-3)] CoSchedule.prems(4) by auto
  ultimately have "(mstep q v0)\<^sup>*\<^sup>* m (?r\<lparr>frames := (frames ?r)[h := (frames ?r ! h)\<lparr>code := Active (final_body (eval b))\<rparr>] @ new\<rparr>)"
    using rtranclp_trans by metis
  with \<open>length new = awaits b\<close> \<open>\<forall>f \<in> set new. code f = Done\<close> show ?case
    using CoSchedule.prems(2) by (intro exI [of _ new]) (simp add: set_code_def)
next
  case (CoAwait b k)
  let ?n = "length (frames m)"
  let ?p = "(new_promise v0)\<lparr>prevCoro := Some h\<rparr>"
  let ?fs = "(frames m)[h := (frames m ! h)\<lparr>code := Awaiting ?n k\<rparr>]"
  let ?child = "m\<lparr>current := Some ?n, frames := ?fs @ [\<lparr>promise = ?p, code = Active b\<rparr>]\<rparr>"
  have call: "machine_step v0 m = Returns ?child"
    using CoAwait.prems
    by (simp add: machine_step_def await_task_def transfer_def resume_def set_code_def Let_def
        nth_append list_update_append)
  have "current ?child = Some ?n" "?n < length (frames ?child)" "code (frames ?child ! ?n) = Active b"
    "q \<and> ready ?child = [] \<or> schedule_free b"
    using CoAwait.prems by (auto simp: nth_append)
  from CoAwait.IH(1) [OF this] obtain new1 where n1: "length new1 = awaits b" "\<forall>f \<in> set new1. code f = Done"
    "(mstep q v0)\<^sup>*\<^sup>* ?child (?child\<lparr>frames := ?fs @ \<lparr>promise = ?p, code = Active (final_body (eval b))\<rparr> # new1\<rparr>)"
    by (auto simp: nth_append list_update_append)
  have cur: "m\<lparr>current := Some h, frames := fs\<rparr> = m\<lparr>frames := fs\<rparr>" for fs
    using CoAwait.prems(1) by (cases m) simp
  obtain qq where ret: "machine_step v0 (?child\<lparr>frames := ?fs @ \<lparr>promise = ?p, code = Active (final_body (eval b))\<rparr> # new1\<rparr>) =
      Returns (m\<lparr>frames := (frames m)[h := (frames m ! h)\<lparr>code := Active (k (eval b))\<rparr>] @ \<lparr>promise = qq, code = Done\<rparr> # new1\<rparr>)"
    using child_returns [of "?child\<lparr>frames := ?fs @ \<lparr>promise = ?p, code = Active (final_body (eval b))\<rparr> # new1\<rparr>"
        ?fs h v0 "eval b" new1 k] CoAwait.prems by (auto simp: cur)
  let ?caller = "m\<lparr>frames := (frames m)[h := (frames m ! h)\<lparr>code := Active (k (eval b))\<rparr>] @ \<lparr>promise = qq, code = Done\<rparr> # new1\<rparr>"
  have "(mstep q v0)\<^sup>*\<^sup>* m ?child" using mstepI [OF call] CoAwait.prems(1) by blast
  moreover have "(mstep q v0)\<^sup>*\<^sup>* (?child\<lparr>frames := ?fs @ \<lparr>promise = ?p, code = Active (final_body (eval b))\<rparr> # new1\<rparr>) ?caller"
    using mstepI [OF ret] by simp
  ultimately have on: "(mstep q v0)\<^sup>*\<^sup>* m ?caller" using n1(3) by (meson rtranclp_trans)
  have "current ?caller = Some h" "h < length (frames ?caller)" "code (frames ?caller ! h) = Active (k (eval b))"
    "q \<and> ready ?caller = [] \<or> schedule_free (k (eval b))"
    using CoAwait.prems by (auto simp: nth_append)
  from CoAwait.IH(2) [OF rangeI this] obtain new2 where n2: "length new2 = awaits (k (eval b))"
    "\<forall>f \<in> set new2. code f = Done"
    "(mstep q v0)\<^sup>*\<^sup>* ?caller (m\<lparr>frames := (frames m)[h := (frames m ! h)\<lparr>code := Active (final_body (eval (k (eval b))))\<rparr>]
       @ (\<lparr>promise = qq, code = Done\<rparr> # new1) @ new2\<rparr>)"
    using CoAwait.prems(2) by (auto simp: nth_append list_update_append)
  show ?case
    using n1(1,2) n2(1,2) rtranclp_trans [OF on n2(3)]
    by (intro exI [of _ "(\<lparr>promise = qq, code = Done\<rparr> # new1) @ new2"]) auto
qed

subsection \<open>What it means for the program\<close>

lemma body_runs_at_end:
  assumes "current m = Some (length fs)" and "frames m = fs @ [\<lparr>promise = p, code = Active b\<rparr>]" and "ready m = []"
  shows "\<exists>new. length new = awaits b \<and> (\<forall>f \<in> set new. code f = Done) \<and>
    reaches v0 m (m\<lparr>frames := fs @ \<lparr>promise = p, code = Active (final_body (eval b))\<rparr> # new\<rparr>)"
  using body_runs [of m "length fs" b True v0] assms reaches_msteps [of True v0 m]
  by (fastforce simp: nth_append list_update_append)

text \<open>
  C11: awaiting is calling.  A coroutine that is created, detached and handed to the scheduler runs to
  its end with the result its body has when every \<^verbatim>\<open>co_await\<close> is a plain call (values are
  returned and exceptions thrown through any number of awaits, suspensions in between change nothing):
  control is back with the worker, an exception of the body has ended the program
  and nothing else has, the frames that were there are untouched,
  and every frame made on the way is done but still allocated.
\<close>

theorem await_is_a_call:
  assumes "current m = None" and "ready m = []"
    and "make_task v0 b m = (t, m1)" and "detach t m1 = Returns (h, t', m2)"
  shows "\<exists>m' new. reaches v0 (m2\<lparr>ready := [h]\<rparr>) m' \<and> current m' = None \<and> ready m' = [] \<and>
    escaped m' = (case eval b of Inl e \<Rightarrow> Some e | Inr v \<Rightarrow> escaped m) \<and>
    frames m' = frames m @ new \<and> length new = Suc (awaits b) \<and> (\<forall>f \<in> set new. code f = Done) \<and>
    (\<forall>v. eval b = Inr v \<longrightarrow> returnValue (promise (frames m' ! h)) = v)"
proof -
  let ?h = "length (frames m)"
  let ?p = "(new_promise v0)\<lparr>detached := True\<rparr>"
  have h: "h = ?h" and m2: "m2 = m\<lparr>frames := frames m @ [\<lparr>promise = ?p, code = Suspended b\<rparr>]\<rparr>"
    using assms(3,4) by (auto simp: make_task_def detach_def Let_def)
  let ?a = "m\<lparr>current := Some ?h, frames := frames m @ [\<lparr>promise = ?p, code = Active b\<rparr>]\<rparr>"
  have "machine_step v0 (m2\<lparr>ready := [h]\<rparr>) = Returns ?a"
    using assms(1,2) by (simp add: h m2 machine_step_def resume_def set_code_def)
  note start = reaches_step [OF this]
  obtain new where new: "length new = awaits b" "\<forall>f \<in> set new. code f = Done"
    "reaches v0 ?a (?a\<lparr>frames := frames m @ \<lparr>promise = ?p, code = Active (final_body (eval b))\<rparr> # new\<rparr>)"
    using body_runs_at_end [of ?a "frames m" ?p b v0] assms(2) by auto
  let ?e = "?a\<lparr>frames := frames m @ \<lparr>promise = ?p, code = Active (final_body (eval b))\<rparr> # new\<rparr>"
  let ?q = "case eval b of Inl e \<Rightarrow> ?p | Inr v \<Rightarrow> return_value v ?p"
  let ?m = "m\<lparr>current := None, frames := frames m @ \<lparr>promise = ?q, code = Done\<rparr> # new,
              escaped := (case eval b of Inl e \<Rightarrow> Some e | Inr v \<Rightarrow> escaped m)\<rparr>"
  have "machine_step v0 ?e = Returns ?m"
  proof (cases "eval b")
    case (Inl e)
    then show ?thesis by (simp add: machine_step_def final_body_def nth_append unhandled_exception_def set_code_def Let_def)
  next
    case (Inr v)
    then show ?thesis
      by (cases m) (simp add: machine_step_def final_body_def nth_append return_value_def finish_def
          final_suspend_def returnPrevAwaiter_suspend_def transfer_def)
  qed
  from reaches_trans [OF start reaches_trans [OF new(3) reaches_step [OF this]]]
  have "reaches v0 (m2\<lparr>ready := [h]\<rparr>) ?m" .
  then show ?thesis using new(1,2) assms(2)
    by (intro exI [of _ ?m] exI [of _ "\<lparr>promise = ?q, code = Done\<rparr> # new"])
      (simp add: h nth_append return_value_def)
qed

text \<open>
  An exception in a task that its owner resumes itself, without detaching it, is kept in the
  promise: nothing is thrown to the resumer, whatever the body does.
\<close>

lemma owner_keeps_exception:
  assumes "current m = None" and "ready m = []"
    and "make_task v0 b m = (t, m1)" and "task_resume t m1 = Returns m2"
  shows "\<exists>m' new. reaches v0 m2 m' \<and> current m' = None \<and> ready m' = [] \<and> escaped m' = escaped m \<and>
    frames m' = frames m @ new \<and> code (hd new) = Done \<and> getValue (promise (hd new)) = eval b"
proof -
  let ?h = "length (frames m)"
  let ?p = "new_promise v0"
  let ?a = "m\<lparr>current := Some ?h, frames := frames m @ [\<lparr>promise = ?p, code = Active b\<rparr>]\<rparr>"
  have m2: "m2 = ?a"
    using assms(3,4) by (auto simp: make_task_def task_resume_def resume_def set_code_def)
  obtain new where new: "length new = awaits b" "\<forall>f \<in> set new. code f = Done"
    "reaches v0 ?a (?a\<lparr>frames := frames m @ \<lparr>promise = ?p, code = Active (final_body (eval b))\<rparr> # new\<rparr>)"
    using body_runs_at_end [of ?a "frames m" ?p b v0] assms(2) by auto
  let ?e = "?a\<lparr>frames := frames m @ \<lparr>promise = ?p, code = Active (final_body (eval b))\<rparr> # new\<rparr>"
  let ?q = "case eval b of Inl e \<Rightarrow> ?p\<lparr>returnException := Some e\<rparr> | Inr v \<Rightarrow> return_value v ?p"
  let ?m = "m\<lparr>current := None, frames := frames m @ \<lparr>promise = ?q, code = Done\<rparr> # new\<rparr>"
  have "machine_step v0 ?e = Returns ?m"
    by (cases "eval b")
      (simp_all add: machine_step_def final_body_def nth_append unhandled_exception_def return_value_def
        finish_def final_suspend_def returnPrevAwaiter_suspend_def transfer_def new_promise_def Let_def)
  from reaches_trans [OF new(3) reaches_step [OF this]] have "reaches v0 m2 ?m" unfolding m2 .
  moreover have "getValue ?q = eval b"
    by (cases "eval b") (simp_all add: getValue_def return_value_def new_promise_def)
  ultimately show ?thesis using assms(2)
    by (intro exI [of _ ?m] exI [of _ "\<lparr>promise = ?q, code = Done\<rparr> # new"]) simp
qed

text \<open>A body that awaits a task that suspends and throws, and one whose value it returns.\<close>

definition demo_body :: "nat body" where
  "demo_body = CoAwait (CoSchedule (CoThrow BufferRunOut))
     (\<lambda>r. CoAwait (CoReturn 4) (\<lambda>s. case (r, s) of (Inl e, Inr v) \<Rightarrow> CoReturn (v + 1) | _ \<Rightarrow> CoReturn 0))"

definition no_coros :: "nat machine" where
  "no_coros = \<lparr>frames = [], current = None, ready = [], escaped = None\<rparr>"

theorem await_is_a_call_witness:
  "\<exists>m2 m'. detach (fst (make_task 0 demo_body no_coros)) (snd (make_task 0 demo_body no_coros)) =
       Returns (0, \<lparr>selfCoro = None\<rparr>, m2) \<and>
     reaches 0 (m2\<lparr>ready := [0]\<rparr>) m' \<and> escaped m' = None \<and> returnValue (promise (frames m' ! 0)) = 5 \<and>
     length (frames m') = 3"
proof -
  have e: "eval demo_body = Inr 5" "awaits demo_body = 2" by (simp_all add: demo_body_def)
  obtain m2 where d: "detach (fst (make_task 0 demo_body no_coros)) (snd (make_task 0 demo_body no_coros)) =
       Returns (0, \<lparr>selfCoro = None\<rparr>, m2)"
    by (simp add: make_task_def detach_def no_coros_def Let_def)
  have "current no_coros = None" "ready no_coros = []" by (simp_all add: no_coros_def)
  from await_is_a_call [OF this surjective_pairing d] e d show ?thesis
    by (fastforce simp: no_coros_def)
qed

end
