(* ===== verification/Chains.thy ===== *)
theory Chains
  imports Tasks "HOL-Library.Multiset"
begin

text \<open>
  Many coroutines on many threads: the table of frames of \<open>Tasks\<close> shared by the worker threads of
  \<^verbatim>\<open>include/async/Loop.hpp\<close> (\<^verbatim>\<open>runTasks\<close> resumes a coroutine and lets it run until it
  suspends, \<^verbatim>\<open>scheduleAwaiter\<close> hands it back).

  Each worker makes the steps of \<open>Tasks\<close> for the coroutine it runs; the interleaving is arbitrary and an
  idle worker may take any coroutine that is ready.  An exception that leaves a root coroutine leaves the
  function of the thread, which ends the process: no step is made after that.

  The specification is a list of call chains, in which \<^verbatim>\<open>co_await\<close> pushes a continuation
  and the end of a body pops one.  The invariant says that the frame table is the encoding of such a
  list by the \<^verbatim>\<open>prevCoro\<close> links.
\<close>

subsection \<open>Workers\<close>

record 'v cluster =
  mach :: "'v machine"
  cpus :: "coro option list"

inductive cluster_step :: "'v \<Rightarrow> 'v cluster \<Rightarrow> 'v cluster \<Rightarrow> bool" for v0 where
  take_ready:
    "\<lbrakk>escaped (mach s) = None; i < length (cpus s); cpus s ! i = None; h \<in> set (ready (mach s));
      resume h ((mach s)\<lparr>ready := remove1 h (ready (mach s))\<rparr>) = Returns m\<rbrakk> \<Longrightarrow>
     cluster_step v0 s \<lparr>mach = m, cpus = (cpus s)[i := current m]\<rparr>"
| run_current:
    "\<lbrakk>escaped (mach s) = None; i < length (cpus s); cpus s ! i = Some h;
      machine_step v0 ((mach s)\<lparr>current := Some h\<rparr>) = Returns m\<rbrakk> \<Longrightarrow>
     cluster_step v0 s \<lparr>mach = m, cpus = (cpus s)[i := current m]\<rparr>"

text \<open>Creating coroutines, detaching them and handing them to the scheduler, one after the other.\<close>

fun spawn :: "'v \<Rightarrow> 'v body list \<Rightarrow> 'v machine \<Rightarrow> 'v machine outcome" where
  "spawn v0 [] m = Returns m"
| "spawn v0 (b # bs) m =
     (case make_task v0 b m of (t, m) \<Rightarrow>
        outcome_bind (detach t m) (\<lambda>(h, t, m). spawn v0 bs (m\<lparr>ready := ready m @ [h]\<rparr>)))"

subsection \<open>The specification: call chains\<close>

type_synonym 'v cont = "exc + 'v \<Rightarrow> 'v body"

text \<open>The handles from the coroutine that is not awaiting to the root, its rest, the bodies that wait.\<close>

datatype 'v chain = Chain (handles: "coro list") (leaf: "'v body") (conts: "'v cont list") (running: bool)

definition return_chain :: "coro list \<Rightarrow> exc + 'v \<Rightarrow> 'v cont list \<Rightarrow> 'v chain list" where
  "return_chain hs r ks = (case ks of [] \<Rightarrow> [] | k # ks \<Rightarrow> [Chain (tl hs) (k r) ks True])"

text \<open>One step of a chain; \<open>n\<close> is the handle of a new frame.  A finished chain is gone.\<close>

fun chain_step :: "coro \<Rightarrow> 'v chain \<Rightarrow> 'v chain list" where
  "chain_step n (Chain hs b ks False) = [Chain hs b ks True]"
| "chain_step n (Chain hs (CoReturn v) ks True) = return_chain hs (Inr v) ks"
| "chain_step n (Chain hs (CoThrow e) ks True) = return_chain hs (Inl e) ks"
| "chain_step n (Chain hs (CoAwait b k) ks True) = [Chain (n # hs) b (k # ks) True]"
| "chain_step n (Chain hs (CoSchedule b) ks True) = [Chain hs b ks False]"

text \<open>The result of the whole chain, and the steps to it.\<close>

primrec stack_value :: "exc + 'v \<Rightarrow> 'v cont list \<Rightarrow> exc + 'v" where
  "stack_value r [] = r"
| "stack_value r (k # ks) = stack_value (eval (k r)) ks"

primrec body_steps :: "'v body \<Rightarrow> nat" where
  "body_steps (CoReturn v) = 1"
| "body_steps (CoThrow e) = 1"
| "body_steps (CoAwait b k) = Suc (body_steps b + (let r = eval b in body_steps (k r)))"
| "body_steps (CoSchedule b) = Suc (Suc (body_steps b))"

primrec stack_steps :: "exc + 'v \<Rightarrow> 'v cont list \<Rightarrow> nat" where
  "stack_steps r [] = 0"
| "stack_steps r (k # ks) = body_steps (k r) + stack_steps (eval (k r)) ks"

definition chain_value :: "'v chain \<Rightarrow> exc + 'v" where
  "chain_value c = stack_value (eval (leaf c)) (conts c)"

definition chain_steps :: "'v chain \<Rightarrow> nat" where
  "chain_steps c = body_steps (leaf c) + stack_steps (eval (leaf c)) (conts c) + (if running c then 0 else 1)"

lemma chain_step_value: "c' \<in> set (chain_step n c) \<Longrightarrow> chain_value c' = chain_value c"
  by (induction n c rule: chain_step.induct)
    (auto simp: chain_value_def return_chain_def Let_def split: list.splits)

lemma chain_step_steps: "chain_steps c = Suc (sum_list (map chain_steps (chain_step n c)))"
  by (induction n c rule: chain_step.induct)
    (auto simp: chain_steps_def return_chain_def Let_def split: list.splits)

lemma chain_step_end: "chain_step n c = [] \<Longrightarrow> chain_value c = eval (leaf c)"
  by (induction n c rule: chain_step.induct)
    (auto simp: chain_value_def return_chain_def split: list.splits)

subsection \<open>Chains in the frame table\<close>

fun linked :: "'v frame list \<Rightarrow> coro list \<Rightarrow> 'v cont list \<Rightarrow> bool" where
  "linked fs [h] [] \<longleftrightarrow> h < length fs \<and> detached (promise (fs ! h)) \<and> prevCoro (promise (fs ! h)) = None"
| "linked fs (c # h # hs) (k # ks) \<longleftrightarrow>
     c < length fs \<and> \<not> detached (promise (fs ! c)) \<and> prevCoro (promise (fs ! c)) = Some h
     \<and> returnException (promise (fs ! c)) = None
     \<and> code (fs ! h) = Awaiting c k \<and> linked fs (h # hs) ks"
| "linked fs _ _ \<longleftrightarrow> False"

definition chain_ok :: "'v frame list \<Rightarrow> 'v chain \<Rightarrow> bool" where
  "chain_ok fs c \<longleftrightarrow>
     linked fs (handles c) (conts c) \<and> distinct (handles c)
     \<and> code (fs ! hd (handles c)) = (if running c then Active (leaf c) else Suspended (leaf c))"

lemma linked_bound: "linked fs hs ks \<Longrightarrow> h \<in> set hs \<Longrightarrow> h < length fs"
  by (induction fs hs ks rule: linked.induct) auto

lemma linked_nonempty: "linked fs hs ks \<Longrightarrow> hs \<noteq> []"
  by (cases "(fs, hs, ks)" rule: linked.cases) auto

lemma linked_unfinished: "linked fs (g # hs) ks \<Longrightarrow> h \<in> set hs \<Longrightarrow> code (fs ! h) \<noteq> Done"
proof (induction fs "g # hs" ks arbitrary: g hs rule: linked.induct)
  case (2 fs c h' hs' k ks)
  then show ?case by auto
qed auto

lemma chain_unfinished: "chain_ok fs c \<Longrightarrow> h \<in> set (handles c) \<Longrightarrow> code (fs ! h) \<noteq> Done"
  using linked_unfinished [of fs "hd (handles c)" "tl (handles c)" "conts c" h] linked_nonempty [of fs "handles c" "conts c"]
  by (cases "handles c") (auto simp: chain_ok_def split: if_splits)

text \<open>A chain depends on its own frames only.\<close>

lemma linked_frame:
  assumes "linked fs hs ks" and "length fs \<le> length fs'"
    and "\<And>h. h \<in> set hs \<Longrightarrow> promise (fs' ! h) = promise (fs ! h)"
    and "\<And>h. h \<in> set (tl hs) \<Longrightarrow> code (fs' ! h) = code (fs ! h)"
  shows "linked fs' hs ks"
  using assms
proof (induction fs hs ks rule: linked.induct)
  case (2 fs c h hs k ks)
  then show ?case by (cases hs) auto
qed auto

lemma chain_frame:
  assumes "chain_ok fs c" and "length fs \<le> length fs'" and "\<And>h. h \<in> set (handles c) \<Longrightarrow> fs' ! h = fs ! h"
  shows "chain_ok fs' c"
proof -
  have "handles c \<noteq> []" using assms(1) linked_nonempty by (auto simp: chain_ok_def)
  then show ?thesis using assms linked_frame [of fs "handles c" "conts c" fs']
    by (auto simp: chain_ok_def dest: list.set_sel(2) [of "handles c"] intro!: linked_frame [of fs "handles c" "conts c" fs'])
qed

subsection \<open>A worker makes the step of the chain\<close>

text \<open>
  The new frame table differs from the old one in the frames of the chain and in new frames; control,
  the ready coroutines and an escaping exception are as the specification says.
\<close>

definition chain_moves :: "'v machine \<Rightarrow> 'v chain \<Rightarrow> 'v machine \<Rightarrow> bool" where
  "chain_moves m c m' \<longleftrightarrow>
     (let cs = chain_step (length (frames m)) c
      in length (frames m) \<le> length (frames m')
         \<and> (\<forall>x < length (frames m). x \<notin> set (handles c) \<longrightarrow> frames m' ! x = frames m ! x)
         \<and> (\<forall>c' \<in> set cs. chain_ok (frames m') c' \<and> last (handles c') = last (handles c)
              \<and> set (handles c') \<subseteq> set (handles c) \<union> {length (frames m)..})
         \<and> current m' = (case filter running cs of [] \<Rightarrow> None | c' # _ \<Rightarrow> Some (hd (handles c')))
         \<and> (cs = [] \<longrightarrow> code (frames m' ! last (handles c)) = Done)
         \<and> (cs = [] \<longrightarrow> (\<forall>v. chain_value c = Inr v \<longrightarrow> returnValue (promise (frames m' ! last (handles c))) = v))
         \<and> escaped m' = (if cs = [] then case chain_value c of Inl e \<Rightarrow> Some e | Inr v \<Rightarrow> escaped m else escaped m))"

lemma resume_chain:
  assumes "chain_ok (frames m) c" and "\<not> running c"
  shows "\<exists>m'. resume (hd (handles c)) m = Returns m' \<and> chain_moves m c m' \<and> ready m' = ready m"
proof -
  obtain h hs b ks where c: "c = Chain (h # hs) b ks False"
    using assms linked_nonempty [of "frames m" "handles c" "conts c"]
    by (cases c; cases "handles c") (auto simp: chain_ok_def)
  have h: "h < length (frames m)" "code (frames m ! h) = Suspended b" "distinct (h # hs)" "linked (frames m) (h # hs) ks"
    using assms(1) linked_bound [of "frames m" "h # hs" ks h] by (auto simp: chain_ok_def c)
  have "linked ((frames m)[h := (frames m ! h)\<lparr>code := Active b\<rparr>]) (h # hs) ks"
    by (rule linked_frame [OF h(4)]) (use h in \<open>auto simp: nth_list_update\<close>)
  then show ?thesis using h
    by (auto simp: c resume_def chain_moves_def chain_ok_def set_code_def Let_def)
qed

text \<open>The end of a body: the caller goes on with the result, or the root is done.\<close>

lemma end_promise:
  assumes "code (frames m ! h) = Active (final_body r)" and "current m = Some h"
    and "\<not> detached (promise (frames m ! h))" and "returnException (promise (frames m ! h)) = None"
  shows "\<exists>q. getValue q = r \<and> final_suspend q = prevCoro (promise (frames m ! h)) \<and> machine_step v0 m = finish h q m"
proof (cases r)
  case (Inl e)
  then show ?thesis using assms
    by (intro exI [of _ "(promise (frames m ! h))\<lparr>returnException := Some e\<rparr>"])
      (auto simp: machine_step_def final_body_def unhandled_exception_def getValue_def final_suspend_def
        returnPrevAwaiter_suspend_def)
next
  case (Inr v)
  then show ?thesis using assms
    by (intro exI [of _ "return_value v (promise (frames m ! h))"])
      (auto simp: machine_step_def final_body_def return_value_def getValue_def final_suspend_def
        returnPrevAwaiter_suspend_def)
qed

lemma return_moves:
  assumes "chain_ok (frames m) (Chain (c # hs) (final_body r) (k # ks) True)" and "current m = Some c"
  shows "\<exists>m'. machine_step v0 m = Returns m' \<and> ready m' = ready m \<and>
    chain_moves m (Chain (c # hs) (final_body r) (k # ks) True) m'"
proof -
  obtain h hs' where hs: "hs = h # hs'" using assms(1) by (cases hs) (auto simp: chain_ok_def)
  have l: "c < length (frames m)" "prevCoro (promise (frames m ! c)) = Some h" "code (frames m ! h) = Awaiting c k"
    "linked (frames m) (h # hs') ks" "c \<noteq> h" "c \<notin> set hs'" "h \<notin> set hs'" "distinct hs'"
    and p: "code (frames m ! c) = Active (final_body r)" "\<not> detached (promise (frames m ! c))"
      "returnException (promise (frames m ! c)) = None"
    using assms(1) by (auto simp: chain_ok_def hs)
  have h: "h < length (frames m)" using linked_bound [OF l(4)] by simp
  obtain q where q: "getValue q = r" "final_suspend q = Some h" "machine_step v0 m = finish c q m"
    using end_promise [OF p(1) assms(2) p(2,3), of v0] l(2) by auto
  let ?fs = "(frames m)[c := \<lparr>promise = q, code = Done\<rparr>, h := (frames m ! h)\<lparr>code := Active (k r)\<rparr>]"
  have "linked ?fs (h # hs') ks"
    by (rule linked_frame [OF l(4)]) (use l h in \<open>auto simp: nth_list_update\<close>)
  then have "chain_moves m (Chain (c # hs) (final_body r) (k # ks) True) (m\<lparr>current := Some h, frames := ?fs\<rparr>)"
    using l h by (cases r) (auto simp: chain_moves_def hs final_body_def return_chain_def chain_ok_def nth_list_update)
  moreover have "machine_step v0 m = Returns (m\<lparr>current := Some h, frames := ?fs\<rparr>)"
    using q l h by (simp add: finish_def transfer_def resume_def set_code_def nth_list_update)
  ultimately show ?thesis by (intro exI [of _ "m\<lparr>current := Some h, frames := ?fs\<rparr>"]) simp
qed

lemma root_moves:
  assumes "chain_ok (frames m) (Chain [h] (final_body r) [] True)" and "current m = Some h"
  shows "\<exists>m'. machine_step v0 m = Returns m' \<and> ready m' = ready m \<and>
    chain_moves m (Chain [h] (final_body r) [] True) m'"
  using assms
  by (cases r) (auto simp: chain_ok_def final_body_def machine_step_def chain_moves_def return_chain_def
      chain_value_def unhandled_exception_def finish_def final_suspend_def return_value_def
      returnPrevAwaiter_suspend_def transfer_def set_code_def)

lemma await_moves:
  assumes "chain_ok (frames m) (Chain (h # hs) (CoAwait b k) ks True)" and "current m = Some h"
  shows "\<exists>m'. machine_step v0 m = Returns m' \<and> ready m' = ready m \<and>
    chain_moves m (Chain (h # hs) (CoAwait b k) ks True) m'"
proof -
  let ?n = "length (frames m)"
  have l: "h < ?n" "code (frames m ! h) = Active (CoAwait b k)" "linked (frames m) (h # hs) ks" "distinct (h # hs)"
    using assms(1) linked_bound [of "frames m" "h # hs" ks h] by (auto simp: chain_ok_def)
  let ?fs = "(frames m)[h := (frames m ! h)\<lparr>code := Awaiting ?n k\<rparr>]
     @ [\<lparr>promise = (new_promise v0)\<lparr>prevCoro := Some h\<rparr>, code = Active b\<rparr>]"
  have "linked ?fs (h # hs) ks"
    by (rule linked_frame [OF l(3)]) (use l linked_bound [OF l(3)] in \<open>auto simp: nth_append nth_list_update\<close>)
  moreover have "?n \<notin> set (h # hs)" using linked_bound [OF l(3)] by blast
  ultimately have "chain_moves m (Chain (h # hs) (CoAwait b k) ks True) (m\<lparr>current := Some ?n, frames := ?fs\<rparr>)"
    using l by (auto simp: chain_moves_def chain_ok_def nth_append new_promise_def)
  moreover have "machine_step v0 m = Returns (m\<lparr>current := Some ?n, frames := ?fs\<rparr>)"
    using assms(2) l by (simp add: machine_step_def await_task_def transfer_def resume_def set_code_def Let_def
        nth_append list_update_append)
  ultimately show ?thesis by (intro exI [of _ "m\<lparr>current := Some ?n, frames := ?fs\<rparr>"]) simp
qed

lemma schedule_moves:
  assumes "chain_ok (frames m) (Chain (h # hs) (CoSchedule b) ks True)" and "current m = Some h"
  shows "\<exists>m'. machine_step v0 m = Returns m' \<and> ready m' = ready m @ [h] \<and>
    chain_moves m (Chain (h # hs) (CoSchedule b) ks True) m'"
proof -
  have l: "h < length (frames m)" "code (frames m ! h) = Active (CoSchedule b)" "linked (frames m) (h # hs) ks" "distinct (h # hs)"
    using assms(1) linked_bound [of "frames m" "h # hs" ks h] by (auto simp: chain_ok_def)
  have "linked ((frames m)[h := (frames m ! h)\<lparr>code := Suspended b\<rparr>]) (h # hs) ks"
    by (rule linked_frame [OF l(3)]) (use l in \<open>auto simp: nth_list_update\<close>)
  then show ?thesis using l assms(2)
    by (auto simp: machine_step_def chain_moves_def chain_ok_def set_code_def)
qed

lemma run_chain:
  assumes "chain_ok (frames m) c" and "running c" and "current m = Some (hd (handles c))"
  shows "\<exists>m'. machine_step v0 m = Returns m' \<and> chain_moves m c m' \<and>
    ready m' = ready m @ map (\<lambda>c. hd (handles c)) (filter (\<lambda>c. \<not> running c) (chain_step (length (frames m)) c))"
proof -
  obtain h hs b ks where c: "c = Chain (h # hs) b ks True"
    using assms(1,2) linked_nonempty [of "frames m" "handles c" "conts c"]
    by (cases c; cases "handles c") (auto simp: chain_ok_def)
  have hs: "ks = [] \<Longrightarrow> hs = []" using assms(1) by (cases hs) (auto simp: chain_ok_def c)
  have fin: "\<exists>m'. machine_step v0 m = Returns m' \<and> ready m' = ready m \<and> chain_moves m c m'" if "b = final_body r" for r
    using that hs assms(1,3) return_moves [of m h hs r _ _ v0] root_moves [of m h r v0]
    by (cases ks) (auto simp: c)
  show ?thesis
  proof (cases b)
    case (CoReturn v)
    with fin [of "Inr v"] show ?thesis by (cases ks) (auto simp: c final_body_def return_chain_def)
  next
    case (CoThrow e)
    with fin [of "Inl e"] show ?thesis by (cases ks) (auto simp: c final_body_def return_chain_def)
  next
    case (CoAwait b k)
    with await_moves [of m h hs b k ks v0] assms(1,3) show ?thesis by (auto simp: c)
  next
    case (CoSchedule b)
    with schedule_moves [of m h hs b ks v0] assms(1,3) show ?thesis by (auto simp: c)
  qed
qed

subsection \<open>The invariant of the workers\<close>

abbreviation heads :: "'v chain list \<Rightarrow> coro list" where
  "heads cs \<equiv> map (\<lambda>c. hd (handles c)) cs"

definition busy :: "'v cluster \<Rightarrow> coro multiset" where
  "busy s = mset (map the (filter (\<lambda>x. x \<noteq> None) (cpus s)))"

text \<open>
  \<open>cs\<close> are the live chains: their frames are disjoint, the running ones are those of the workers, the
  other ones those that are ready.
\<close>

definition cluster_inv :: "'v cluster \<Rightarrow> 'v chain list \<Rightarrow> bool" where
  "cluster_inv s cs \<longleftrightarrow>
     (\<forall>c \<in> set cs. chain_ok (frames (mach s)) c)
     \<and> distinct (concat (map handles cs))
     \<and> busy s = mset (heads (filter running cs))
     \<and> mset (ready (mach s)) = mset (heads (filter (\<lambda>c. \<not> running c) cs))"

text \<open>Every root has its value, or is the end of a chain that will give it.\<close>

definition roots_inv :: "'v body list \<Rightarrow> 'v cluster \<Rightarrow> 'v chain list \<Rightarrow> bool" where
  "roots_inv bs s cs \<longleftrightarrow>
     length bs \<le> length (frames (mach s))
     \<and> (\<forall>i < length bs.
        (\<exists>c \<in> set cs. last (handles c) = i \<and> chain_value c = eval (bs ! i))
        \<or> (code (frames (mach s) ! i) = Done \<and>
            (\<forall>v. eval (bs ! i) = Inr v \<longrightarrow> returnValue (promise (frames (mach s) ! i)) = v) \<and>
            (\<forall>e. eval (bs ! i) = Inl e \<longrightarrow> escaped (mach s) \<noteq> None)))
     \<and> (\<forall>e. escaped (mach s) = Some e \<longrightarrow> (\<exists>i < length bs. eval (bs ! i) = Inl e))
     \<and> (\<forall>c \<in> set cs. last (handles c) < length bs \<and> chain_value c = eval (bs ! last (handles c)))"

lemma busy_update:
  assumes "i < length xs"
  shows "mset (map the (filter (\<lambda>x. x \<noteq> None) (xs[i := y]))) + (case xs ! i of None \<Rightarrow> {#} | Some h \<Rightarrow> {#h#})
     = mset (map the (filter (\<lambda>x. x \<noteq> None) xs)) + (case y of None \<Rightarrow> {#} | Some h \<Rightarrow> {#h#})"
  using assms
proof (induction xs arbitrary: i)
  case (Cons x xs)
  then show ?case by (cases i) (auto split: option.splits)
qed simp

lemma distinct_middle:
  fixes n :: nat
  assumes "distinct (xs @ cs @ ys)" and "\<forall>x \<in> set xs \<union> set ys. x < n"
    and "distinct ds" and "set ds \<subseteq> set cs \<union> {n..}"
  shows "distinct (xs @ ds @ ys)"
proof -
  have "x \<notin> set ds" if "x \<in> set xs \<union> set ys" for x
  proof -
    have "x < n" "x \<notin> set cs" using that assms(1,2) by auto
    then show ?thesis using assms(4) by auto
  qed
  then show ?thesis using assms(1,3) by auto
qed

lemma distinct_replace:
  assumes "distinct (concat (map handles (xs @ c # ys)))" and "\<forall>c \<in> set xs \<union> set ys. \<forall>h \<in> set (handles c). h < n"
    and "length ds \<le> 1" and "\<forall>d \<in> set ds. distinct (handles d) \<and> set (handles d) \<subseteq> set (handles c) \<union> {n..}"
  shows "distinct (concat (map handles (xs @ ds @ ys)))"
proof (cases ds)
  case Nil
  with assms(1) show ?thesis by auto
next
  case (Cons d ds')
  then have d: "ds = [d]" "distinct (handles d)" "set (handles d) \<subseteq> set (handles c) \<union> {n..}"
    using assms(3,4) by auto
  have "distinct (concat (map handles xs) @ handles d @ concat (map handles ys))"
    by (rule distinct_middle [OF _ _ d(2,3)]) (use assms(1,2) in auto)
  then show ?thesis by (simp add: d(1))
qed

lemma chain_step_one: "length (chain_step n c) \<le> 1"
  by (induction n c rule: chain_step.induct) (auto simp: return_chain_def split: list.splits)

text \<open>The chain \<open>c\<close> moves, all other ones stay.\<close>

lemma other_chains_stay:
  assumes "cluster_inv s (xs @ c # ys)" and "d \<in> set xs \<union> set ys" and "length (frames (mach s)) \<le> length fs"
    and "\<And>x. x < length (frames (mach s)) \<Longrightarrow> x \<notin> set (handles c) \<Longrightarrow> fs ! x = frames (mach s) ! x"
  shows "chain_ok fs d \<and> (\<forall>h \<in> set (handles d). h < length (frames (mach s)) \<and> h \<notin> set (handles c))"
proof -
  have d: "chain_ok (frames (mach s)) d" and dist: "distinct (concat (map handles (xs @ c # ys)))"
    using assms(1,2) by (auto simp: cluster_inv_def)
  have "set (handles c) \<inter> set (handles d) = {}" using dist assms(2) by auto
  then have h: "\<forall>h \<in> set (handles d). h < length (frames (mach s)) \<and> h \<notin> set (handles c)"
    using d linked_bound [of "frames (mach s)" "handles d" "conts d"] by (auto simp: chain_ok_def)
  have "chain_ok fs d" by (rule chain_frame [OF d assms(3)]) (use h assms(4) in auto)
  with h show ?thesis by blast
qed

lemma moves_keep_chains:
  assumes "cluster_inv s (xs @ c # ys)" and "chain_moves m c m'" and "frames m = frames (mach s)"
    and "ds = chain_step (length (frames m)) c"
  shows "(\<forall>c \<in> set (xs @ ds @ ys). chain_ok (frames m') c) \<and> distinct (concat (map handles (xs @ ds @ ys)))"
proof -
  have m: "length (frames (mach s)) \<le> length (frames m')"
    "\<And>x. x < length (frames (mach s)) \<Longrightarrow> x \<notin> set (handles c) \<Longrightarrow> frames m' ! x = frames (mach s) ! x"
    "\<And>d. d \<in> set ds \<Longrightarrow> chain_ok (frames m') d \<and> set (handles d) \<subseteq> set (handles c) \<union> {length (frames m)..}"
    using assms(2-4) by (auto simp: chain_moves_def Let_def)
  note o = other_chains_stay [OF assms(1) _ m(1,2)]
  have "distinct (concat (map handles (xs @ ds @ ys)))"
  proof (rule distinct_replace)
    show "distinct (concat (map handles (xs @ c # ys)))" using assms(1) unfolding cluster_inv_def by blast
    show "\<forall>c\<in>set xs \<union> set ys. \<forall>h\<in>set (handles c). h < length (frames m)" using o assms(3) by auto
    show "length ds \<le> 1" using assms(4) chain_step_one by simp
    show "\<forall>d\<in>set ds. distinct (handles d) \<and> set (handles d) \<subseteq> set (handles c) \<union> {length (frames m)..}"
      using m(3) by (auto simp: chain_ok_def)
  qed
  then show ?thesis using m(3) o by auto
qed

lemma moves_keep_roots:
  assumes "roots_inv bs s (xs @ c # ys)" and "cluster_inv s (xs @ c # ys)" and "chain_moves m c (mach s')"
    and "frames m = frames (mach s)" and "escaped m = escaped (mach s)" and "escaped (mach s) = None"
    and "ds = chain_step (length (frames m)) c"
  shows "roots_inv bs s' (xs @ ds @ ys)"
proof -
  have m: "\<And>x. x < length (frames m) \<Longrightarrow> x \<notin> set (handles c) \<Longrightarrow> frames (mach s') ! x = frames m ! x"
    "\<And>d. d \<in> set ds \<Longrightarrow> last (handles d) = last (handles c)"
    "ds = [] \<Longrightarrow> code (frames (mach s') ! last (handles c)) = Done"
    "\<And>v. ds = [] \<Longrightarrow> chain_value c = Inr v \<Longrightarrow> returnValue (promise (frames (mach s') ! last (handles c))) = v"
    "escaped (mach s') = (if ds = [] then case chain_value c of Inl e \<Rightarrow> Some e | Inr v \<Rightarrow> None else None)"
    using assms(3,5,6,7) by (auto simp: chain_moves_def Let_def split: if_splits sum.splits)
  have v: "\<And>d. d \<in> set ds \<Longrightarrow> chain_value d = chain_value c" using assms(7) chain_step_value by blast
  have c: "last (handles c) < length bs" "chain_value c = eval (bs ! last (handles c))" "chain_ok (frames m) c"
    using assms(1,2,4) by (auto simp: roots_inv_def cluster_inv_def)
  have root: "(\<exists>d \<in> set (xs @ ds @ ys). last (handles d) = i \<and> chain_value d = eval (bs ! i))
      \<or> (code (frames (mach s') ! i) = Done \<and>
          (\<forall>v. eval (bs ! i) = Inr v \<longrightarrow> returnValue (promise (frames (mach s') ! i)) = v) \<and>
          (\<forall>e. eval (bs ! i) = Inl e \<longrightarrow> escaped (mach s') \<noteq> None))" if "i < length bs" for i
  proof (cases "i = last (handles c)")
    case True
    then show ?thesis using m c(2) v by (cases ds) auto
  next
    case False
    from assms(1) that have "(\<exists>d \<in> set xs \<union> set ys. last (handles d) = i \<and> chain_value d = eval (bs ! i)) \<or>
       (code (frames m ! i) = Done \<and> i < length (frames m) \<and>
        (\<forall>v. eval (bs ! i) = Inr v \<longrightarrow> returnValue (promise (frames m ! i)) = v) \<and> (\<forall>e. eval (bs ! i) \<noteq> Inl e))"
      using False assms(4,6) by (auto simp: roots_inv_def)
    moreover have "frames (mach s') ! i = frames m ! i" if "code (frames m ! i) = Done" "i < length (frames m)"
      using m(1) [OF that(2)] chain_unfinished [OF c(3), of i] that(1) by blast
    ultimately show ?thesis by auto
  qed
  moreover have "length bs \<le> length (frames (mach s'))"
    using assms(1,3,4) by (auto simp: roots_inv_def chain_moves_def Let_def)
  moreover have "\<exists>i < length bs. eval (bs ! i) = Inl e" if "escaped (mach s') = Some e" for e
    using that m(5) c(1,2) by (auto split: if_splits sum.splits)
  moreover have "last (handles d) < length bs \<and> chain_value d = eval (bs ! last (handles d))"
    if "d \<in> set (xs @ ds @ ys)" for d
    using that assms(1) m(2) v c by (auto simp: roots_inv_def)
  ultimately show ?thesis unfolding roots_inv_def by blast
qed

text \<open>A step of a worker is a step of one chain.\<close>

definition cluster_moves :: "'v cluster \<Rightarrow> 'v chain list \<Rightarrow> 'v cluster \<Rightarrow> bool" where
  "cluster_moves s cs s' \<longleftrightarrow>
     (\<exists>xs c ys m. cs = xs @ c # ys \<and> chain_moves m c (mach s') \<and> frames m = frames (mach s) \<and>
        escaped m = escaped (mach s) \<and> cluster_inv s' (xs @ chain_step (length (frames m)) c @ ys))"

lemma head_of_busy:
  assumes "cluster_inv s cs" and "i < length (cpus s)" and "cpus s ! i = Some h"
  obtains xs c ys where "cs = xs @ c # ys" and "running c" and "hd (handles c) = h"
proof -
  have "cpus s ! i \<in> set (cpus s)" using assms(2) by (rule nth_mem)
  then have "h \<in># busy s" using assms(3) by (force simp: busy_def)
  then have "h \<in> set (heads (filter running cs))" using assms(1) by (simp add: cluster_inv_def)
  then obtain c where "c \<in> set cs" "running c" "hd (handles c) = h" by auto
  with split_list [of c cs] that show thesis by blast
qed

lemma head_of_ready:
  assumes "cluster_inv s cs" and "h \<in> set (ready (mach s))"
  obtains xs c ys where "cs = xs @ c # ys" and "\<not> running c" and "hd (handles c) = h"
proof -
  have "mset (ready (mach s)) = mset (heads (filter (\<lambda>c. \<not> running c) cs))"
    using assms(1) by (simp add: cluster_inv_def)
  from mset_eq_setD [OF this] have "h \<in> set (heads (filter (\<lambda>c. \<not> running c) cs))" using assms(2) by simp
  then obtain c where "c \<in> set cs" "\<not> running c" "hd (handles c) = h" by auto
  with split_list [of c cs] that show thesis by blast
qed

lemma run_cluster:
  assumes inv: "cluster_inv s cs" and i: "i < length (cpus s)" "cpus s ! i = Some h"
  shows "\<exists>m. machine_step v0 ((mach s)\<lparr>current := Some h\<rparr>) = Returns m \<and>
    cluster_moves s cs \<lparr>mach = m, cpus = (cpus s)[i := current m]\<rparr>"
proof -
  obtain xs c ys where c: "cs = xs @ c # ys" "running c" "hd (handles c) = h"
    by (rule head_of_busy [OF inv i])
  let ?m = "(mach s)\<lparr>current := Some h\<rparr>"
  let ?ds = "chain_step (length (frames (mach s))) c"
  have "chain_ok (frames ?m) c" using inv c(1) by (simp add: cluster_inv_def)
  from run_chain [OF this c(2)] c(3) obtain m where m: "machine_step v0 ?m = Returns m" "chain_moves ?m c m"
    "ready m = ready (mach s) @ heads (filter (\<lambda>c. \<not> running c) ?ds)"
    by auto
  let ?s = "\<lparr>mach = m, cpus = (cpus s)[i := current m]\<rparr>"
  note k = moves_keep_chains [OF inv [unfolded c(1)] m(2), simplified, OF refl]
  have "busy ?s + {#h#} = busy s + mset (heads (filter running ?ds))"
    using busy_update [OF i(1), of "current m"] i(2) m(2) chain_step_one [of "length (frames (mach s))" c]
    by (cases ?ds) (auto simp: busy_def chain_moves_def Let_def)
  then have "busy ?s = mset (heads (filter running (xs @ ?ds @ ys)))"
    using inv c by (simp add: cluster_inv_def)
  moreover have "mset (ready m) = mset (heads (filter (\<lambda>c. \<not> running c) (xs @ ?ds @ ys)))"
    using inv c m(3) by (simp add: cluster_inv_def)
  ultimately have "cluster_inv ?s (xs @ ?ds @ ys)"
    using k by (simp add: cluster_inv_def)
  then have "cluster_moves s cs ?s" unfolding cluster_moves_def
    using m(2) c(1) by (intro exI [of _ xs] exI [of _ c] exI [of _ ys] exI [of _ ?m]) simp
  with m(1) show ?thesis by blast
qed

lemma take_cluster:
  assumes inv: "cluster_inv s cs" and i: "i < length (cpus s)" "cpus s ! i = None" and h: "h \<in> set (ready (mach s))"
  shows "\<exists>m. resume h ((mach s)\<lparr>ready := remove1 h (ready (mach s))\<rparr>) = Returns m \<and>
    cluster_moves s cs \<lparr>mach = m, cpus = (cpus s)[i := current m]\<rparr>"
proof -
  obtain xs c ys where c: "cs = xs @ c # ys" "\<not> running c" "hd (handles c) = h"
    by (rule head_of_ready [OF inv h])
  let ?m = "(mach s)\<lparr>ready := remove1 h (ready (mach s))\<rparr>"
  let ?ds = "chain_step (length (frames (mach s))) c"
  have ds: "?ds = [Chain (handles c) (leaf c) (conts c) True]" using c(2) by (cases c) simp
  have "chain_ok (frames ?m) c" using inv c(1) by (simp add: cluster_inv_def)
  from resume_chain [OF this c(2)] c(3) obtain m where m: "resume h ?m = Returns m" "chain_moves ?m c m"
    "ready m = remove1 h (ready (mach s))"
    by auto
  let ?s = "\<lparr>mach = m, cpus = (cpus s)[i := current m]\<rparr>"
  note k = moves_keep_chains [OF inv [unfolded c(1)] m(2), simplified, OF refl]
  have "current m = Some h" using m(2) c(3) ds by (simp add: chain_moves_def)
  then have "busy ?s = mset (heads (filter running (xs @ ?ds @ ys)))"
    using busy_update [OF i(1), of "current m"] i(2) inv c ds by (simp add: busy_def cluster_inv_def)
  moreover have "mset (ready m) = mset (heads (filter (\<lambda>c. \<not> running c) (xs @ ?ds @ ys)))"
    using inv c m(3) ds by (simp add: cluster_inv_def)
  ultimately have "cluster_inv ?s (xs @ ?ds @ ys)"
    using k by (simp add: cluster_inv_def)
  then have "cluster_moves s cs ?s" unfolding cluster_moves_def
    using m(2) c(1) by (intro exI [of _ xs] exI [of _ c] exI [of _ ys] exI [of _ ?m]) simp
  with m(1) show ?thesis by blast
qed

subsection \<open>Runs\<close>

text \<open>The invariant of a run from \<open>spawn\<close>, with the number of steps it still has.\<close>

definition run_inv :: "'v body list \<Rightarrow> nat \<Rightarrow> 'v cluster \<Rightarrow> 'v chain list \<Rightarrow> bool" where
  "run_inv bs n s cs \<longleftrightarrow> cluster_inv s cs \<and> roots_inv bs s cs \<and> sum_list (map chain_steps cs) = n"

lemma moves_keep_run:
  assumes "run_inv bs n s cs" and "escaped (mach s) = None" and "cluster_moves s cs s'"
  shows "\<exists>cs' k. n = Suc k \<and> run_inv bs k s' cs'"
proof -
  obtain xs c ys m where c: "cs = xs @ c # ys" "chain_moves m c (mach s')" "frames m = frames (mach s)"
    "escaped m = escaped (mach s)" "cluster_inv s' (xs @ chain_step (length (frames m)) c @ ys)"
    using assms(3) unfolding cluster_moves_def by blast
  let ?cs = "xs @ chain_step (length (frames m)) c @ ys"
  have "roots_inv bs s' ?cs"
    using moves_keep_roots [OF _ _ c(2,3,4) assms(2) refl] assms(1) c(1) by (simp add: run_inv_def)
  moreover have "n = Suc (sum_list (map chain_steps ?cs))"
    using assms(1) c(1) chain_step_steps [of c "length (frames m)"] by (simp add: run_inv_def)
  ultimately show ?thesis using c(5) by (auto simp: run_inv_def)
qed

lemma run_inv_step:
  assumes "cluster_step v0 s s'" and "run_inv bs n s cs"
  shows "\<exists>cs' k. n = Suc k \<and> run_inv bs k s' cs'"
proof -
  from assms(2) have inv: "cluster_inv s cs" by (simp add: run_inv_def)
  from assms(1) have "escaped (mach s) = None \<and> cluster_moves s cs s'"
  proof cases
    case (take_ready i h m)
    with take_cluster [OF inv take_ready(3,4,5)] show ?thesis by auto
  next
    case (run_current i h m)
    with run_cluster [OF inv run_current(3,4), of v0] show ?thesis by auto
  qed
  with moves_keep_run [OF assms(2)] show ?thesis by blast
qed

lemma run_inv_steps:
  assumes "(cluster_step v0 ^^ k) s s'" and "run_inv bs n s cs"
  shows "\<exists>cs' l. n = k + l \<and> run_inv bs l s' cs'"
  using assms
proof (induction k arbitrary: s n cs)
  case 0
  then show ?case by auto
next
  case (Suc k)
  then obtain t where t: "cluster_step v0 s t" "(cluster_step v0 ^^ k) t s'"
    by (meson relpowp_Suc_D2)
  from run_inv_step [OF t(1) Suc.prems(2)] Suc.IH [OF t(2)] show ?case by fastforce
qed

text \<open>As long as there is a chain, some worker can make a step.\<close>

lemma run_inv_progress:
  assumes "run_inv bs (Suc n) s cs" and "escaped (mach s) = None" and "cpus s \<noteq> []"
  shows "\<exists>s'. cluster_step v0 s s'"
proof (cases "\<exists>i h. i < length (cpus s) \<and> cpus s ! i = Some h")
  case True
  then obtain i h where i: "i < length (cpus s)" "cpus s ! i = Some h" by blast
  with run_cluster [OF _ i, of cs v0] assms(1) cluster_step.run_current [OF assms(2) i, of v0]
  show ?thesis by (auto simp: run_inv_def)
next
  case False
  have "x = None" if "x \<in> set (cpus s)" for x
    using that False by (metis in_set_conv_nth not_None_eq)
  then have idle: "cpus s ! 0 = None" "busy s = {#}"
    using assms(3) by (auto simp: busy_def filter_empty_conv)
  have inv: "cluster_inv s cs" using assms(1) by (simp add: run_inv_def)
  then have "filter running cs = []" using idle(2) by (simp add: cluster_inv_def)
  moreover have "cs \<noteq> []" using assms(1) by (auto simp: run_inv_def)
  ultimately have "filter (\<lambda>c. \<not> running c) cs \<noteq> []" by (auto simp: filter_empty_conv)
  moreover have "mset (ready (mach s)) = mset (heads (filter (\<lambda>c. \<not> running c) cs))"
    using inv by (simp add: cluster_inv_def)
  ultimately obtain h where h: "h \<in> set (ready (mach s))"
    by (cases "ready (mach s)") auto
  have "0 < length (cpus s)" using assms(3) by simp
  with take_cluster [OF inv this idle(1) h] cluster_step.take_ready [OF assms(2) this idle(1) h]
  show ?thesis by blast
qed

subsection \<open>The start\<close>

abbreviation root_frame :: "'v \<Rightarrow> 'v body \<Rightarrow> 'v frame" where
  "root_frame v0 b \<equiv> \<lparr>promise = (new_promise v0)\<lparr>detached := True\<rparr>, code = Suspended b\<rparr>"

definition no_frames :: "'v machine" where
  "no_frames = \<lparr>frames = [], current = None, ready = [], escaped = None\<rparr>"

text \<open>The roots \<open>bs\<close> have been given to the scheduler, \<open>w\<close> workers are idle.\<close>

definition started :: "'v \<Rightarrow> 'v body list \<Rightarrow> nat \<Rightarrow> 'v cluster" where
  "started v0 bs w =
     \<lparr>mach = (case spawn v0 bs no_frames of Returns m \<Rightarrow> m | _ \<Rightarrow> no_frames), cpus = replicate w None\<rparr>"

lemma spawn_result:
  "spawn v0 bs m = Returns (m\<lparr>frames := frames m @ map (root_frame v0) bs,
     ready := ready m @ [length (frames m)..<length (frames m) + length bs]\<rparr>)"
proof (induction bs arbitrary: m)
  case (Cons b bs)
  have "length (frames m) # [Suc (length (frames m))..<Suc (length (frames m) + length bs)] =
      [length (frames m)..<Suc (length (frames m) + length bs)]"
    by (simp add: upt_rec)
  with Cons show ?case
    by (simp add: make_task_def detach_def nth_append list_update_append Let_def)
qed simp

lemma run_inv_started:
  "run_inv bs (sum_list (map (\<lambda>b. Suc (body_steps b)) bs)) (started v0 bs w)
     (map (\<lambda>i. Chain [i] (bs ! i) [] False) [0..<length bs])"
proof -
  let ?cs = "map (\<lambda>i. Chain [i] (bs ! i) [] False) [0..<length bs]"
  have m: "frames (mach (started v0 bs w)) = map (root_frame v0) bs" "ready (mach (started v0 bs w)) = [0..<length bs]"
    "escaped (mach (started v0 bs w)) = None" "cpus (started v0 bs w) = replicate w None"
    by (simp_all add: started_def spawn_result no_frames_def)
  have "concat (map handles ?cs) = [0..<length bs]" "heads ?cs = [0..<length bs]"
    "filter running ?cs = []" "filter (\<lambda>c. \<not> running c) ?cs = ?cs"
    by (simp_all add: comp_def filter_empty_conv filter_id_conv)
  moreover have "\<forall>c \<in> set ?cs. chain_ok (map (root_frame v0) bs) c"
    by (auto simp: chain_ok_def new_promise_def)
  moreover have "busy (started v0 bs w) = {#}" by (simp add: m busy_def filter_empty_conv)
  ultimately have "cluster_inv (started v0 bs w) ?cs"
    unfolding cluster_inv_def m by (simp only: simp_thms distinct_upt mset.simps list.map)
  moreover have "roots_inv bs (started v0 bs w) ?cs"
    unfolding roots_inv_def m by (auto simp: chain_value_def)
  moreover have "map chain_steps ?cs = map (\<lambda>b. Suc (body_steps b)) bs"
    by (rule nth_equalityI) (simp_all add: chain_steps_def)
  ultimately show ?thesis by (simp add: run_inv_def)
qed

lemma started_runs:
  assumes "(cluster_step v0 ^^ k) (started v0 bs w) s"
  obtains cs n where "run_inv bs n s cs" and "sum_list (map (\<lambda>b. Suc (body_steps b)) bs) = k + n"
  using run_inv_steps [OF assms run_inv_started] by blast

lemma cpus_length: "(cluster_step v0 ^^ k) s s' \<Longrightarrow> length (cpus s') = length (cpus s)"
proof (induction k arbitrary: s')
  case (Suc k)
  then obtain t where "(cluster_step v0 ^^ k) s t" "cluster_step v0 t s'" by (meson relpowp_Suc_E)
  with Suc.IH show ?case by (auto elim!: cluster_step.cases)
qed simp

text \<open>Every run can be brought to its end.\<close>

lemma run_ends:
  assumes "run_inv bs n s cs"
  shows "\<exists>k s'. (cluster_step v0 ^^ k) s s' \<and> \<not> (\<exists>t. cluster_step v0 s' t)"
  using assms
proof (induction n arbitrary: s cs)
  case 0
  then have "\<not> (\<exists>t. cluster_step v0 s t)" using run_inv_step by fastforce
  then show ?case by (intro exI [of _ 0] exI [of _ s]) simp
next
  case (Suc n)
  show ?case
  proof (cases "\<exists>t. cluster_step v0 s t")
    case True
    then obtain t where t: "cluster_step v0 s t" by blast
    with run_inv_step [OF t Suc.prems] obtain cs' where "run_inv bs n t cs'" by auto
    from Suc.IH [OF this] obtain k s' where "(cluster_step v0 ^^ k) t s'" "\<not> (\<exists>u. cluster_step v0 s' u)"
      by blast
    with relpowp_Suc_I2 [of "cluster_step v0", OF t] show ?thesis by blast
  next
    case False
    then show ?thesis by (intro exI [of _ 0] exI [of _ s]) simp
  qed
qed

subsection \<open>Workers do not share frames\<close>

lemma distinct_heads:
  assumes "distinct (concat (map handles cs))" and "\<forall>c \<in> set cs. handles c \<noteq> []"
  shows "distinct (heads cs)"
  using assms
proof (induction cs)
  case (Cons c cs)
  then have "hd (handles c) \<notin> set (heads cs)"
    by (auto simp: disjoint_iff) (metis list.set_sel(1))
  with Cons show ?case by simp
qed simp

lemma distinct_filter_heads:
  assumes "cluster_inv s cs"
  shows "distinct (heads cs)"
  using assms linked_nonempty by (intro distinct_heads) (auto simp: cluster_inv_def chain_ok_def)

lemma mset_heads_split:
  "mset (heads (filter P cs)) + mset (heads (filter (\<lambda>c. \<not> P c) cs)) = mset (heads cs)"
  by (induction cs) auto

text \<open>A coroutine is run by one worker or waits once, never both.\<close>

lemma handles_once:
  assumes "cluster_inv s cs"
  shows "distinct (map the (filter (\<lambda>x. x \<noteq> None) (cpus s)) @ ready (mach s))"
proof -
  have "mset (map the (filter (\<lambda>x. x \<noteq> None) (cpus s)) @ ready (mach s)) = mset (heads cs)"
    using assms mset_heads_split [of running cs] by (simp add: cluster_inv_def busy_def)
  then show ?thesis using distinct_filter_heads [OF assms] mset_eq_imp_distinct_iff by blast
qed

lemma somes_distinct:
  assumes "distinct (map the (filter (\<lambda>x. x \<noteq> None) xs))" and "i < length xs" and "j < length xs"
    and "xs ! i = Some h" and "xs ! j = Some h"
  shows "i = j"
  using assms
proof (induction xs arbitrary: i j)
  case (Cons x xs)
  have "h \<in> the ` {y \<in> set xs. \<exists>z. y = Some z}" if "k < length xs" "xs ! k = Some h" for k
    using that nth_mem [OF that(1)] by force
  with Cons show ?case by (cases i; cases j) (auto split: if_splits)
qed simp

definition called_by :: "'v frame list \<Rightarrow> coro \<Rightarrow> coro \<Rightarrow> bool" where
  "called_by fs c h \<longleftrightarrow> prevCoro (promise (fs ! c)) = Some h"

lemma linked_callers:
  assumes "(called_by fs)\<^sup>*\<^sup>* h x" and "linked fs hs ks" and "h \<in> set hs"
  shows "x \<in> set hs"
  using assms
proof (induction rule: rtranclp_induct)
  case (step y z)
  have "y \<in> set hs \<Longrightarrow> called_by fs y z \<Longrightarrow> z \<in> set hs"
    using assms(2) by (induction fs hs ks rule: linked.induct) (auto simp: called_by_def)
  with step show ?case by blast
qed

text \<open>
  C13: threads that run coroutines at the same time do not touch each other's frames.  However many
  coroutines were started and whatever the interleaving so far, a coroutine is run by at most one thread,
  and a step of one thread leaves unchanged the frame of every coroutine another thread runs and the
  frames of all coroutines that wait for it.
\<close>

theorem workers_do_not_share_frames:
  assumes "(cluster_step v0 ^^ k) (started v0 bs w) s"
    and "i < length (cpus s)" and "cpus s ! i = Some g"
    and "j < length (cpus s)" and "cpus s ! j = Some h" and "i \<noteq> j"
    and "machine_step v0 ((mach s)\<lparr>current := Some g\<rparr>) = Returns m"
    and "(called_by (frames (mach s)))\<^sup>*\<^sup>* h x"
  shows "g \<noteq> h \<and> frames m ! x = frames (mach s) ! x"
proof -
  obtain cs n where "run_inv bs n s cs" by (rule started_runs [OF assms(1)])
  then have inv: "cluster_inv s cs" by (simp add: run_inv_def)
  have gh: "g \<noteq> h"
    using somes_distinct [OF _ assms(2,4)] handles_once [OF inv] assms(3,5,6) by auto
  obtain xs c ys where c: "cs = xs @ c # ys" "running c" "hd (handles c) = g"
    by (rule head_of_busy [OF inv assms(2,3)])
  obtain xs' d ys' where d: "cs = xs' @ d # ys'" "running d" "hd (handles d) = h"
    by (rule head_of_busy [OF inv assms(4,5)])
  have "c \<in> set cs" "d \<in> set cs" unfolding c(1) by simp (simp flip: c(1) add: d(1))
  then have ok: "chain_ok (frames (mach s)) c" "chain_ok (frames (mach s)) d"
    using inv by (simp_all add: cluster_inv_def)
  then have "handles d \<noteq> []" "linked (frames (mach s)) (handles d) (conts d)"
    using linked_nonempty by (auto simp: chain_ok_def)
  then have x: "x \<in> set (handles d)" using linked_callers [OF assms(8)] d(3) by auto
  have "c \<noteq> d" using c(3) d(3) gh by blast
  then have "d \<in> set xs \<union> set ys" using c(1) d(1) by (metis Un_iff in_set_conv_decomp set_ConsD set_append)
  then have "x \<notin> set (handles c)" using inv c(1) x by (auto simp: cluster_inv_def)
  moreover have "x < length (frames (mach s))" using ok(2) x linked_bound by (auto simp: chain_ok_def)
  moreover have "chain_moves ((mach s)\<lparr>current := Some g\<rparr>) c m"
    using run_chain [of "(mach s)\<lparr>current := Some g\<rparr>" c v0] ok(1) c(2,3) assms(7) by simp
  ultimately show ?thesis using gh by (simp add: chain_moves_def Let_def)
qed

subsection \<open>Every run ends, with every value\<close>

text \<open>
  C23: the coroutines end.  No run of the threads is longer than the steps of the bodies, in any
  interleaving, and as long as a coroutine is left some thread can go on.
\<close>

theorem coroutines_terminate:
  assumes "(cluster_step v0 ^^ k) (started v0 bs w) s"
  shows "k \<le> sum_list (map (\<lambda>b. Suc (body_steps b)) bs) \<and>
    (k < sum_list (map (\<lambda>b. Suc (body_steps b)) bs) \<and> 0 < w \<and> escaped (mach s) = None \<longrightarrow>
       (\<exists>s'. cluster_step v0 s s'))"
proof -
  obtain cs n where r: "run_inv bs n s cs" "sum_list (map (\<lambda>b. Suc (body_steps b)) bs) = k + n"
    by (rule started_runs [OF assms])
  have "length (cpus s) = w" using cpus_length [OF assms] by (simp add: started_def)
  then have "0 < w \<Longrightarrow> cpus s \<noteq> []" by auto
  with r run_inv_progress [of bs "n - 1" s cs v0] show ?thesis by (cases n) auto
qed

text \<open>
  C3: many coroutines on many threads compute what they compute alone.  When the threads cannot go on,
  either an exception has left a root whose body, with awaits read as calls, throws, or every root
  has ended and its promise holds the value of its body; which thread ran what, and the order in which the
  ready coroutines were taken, have no influence on a value.
\<close>

theorem every_root_gets_its_value:
  assumes "(cluster_step v0 ^^ k) (started v0 bs w) s" and "\<not> (\<exists>s'. cluster_step v0 s s')" and "0 < w"
  shows "case escaped (mach s) of
      Some e \<Rightarrow> \<exists>i < length bs. eval (bs ! i) = Inl e
    | None \<Rightarrow> (\<forall>i < length bs. code (frames (mach s) ! i) = Done \<and>
        eval (bs ! i) = Inr (returnValue (promise (frames (mach s) ! i))))"
proof -
  obtain cs n where r: "run_inv bs n s cs"
    by (rule started_runs [OF assms(1)])
  have "length (cpus s) = w" using cpus_length [OF assms(1)] by (simp add: started_def)
  then have "escaped (mach s) = None \<Longrightarrow> n = 0"
    using run_inv_progress [of bs "n - 1" s cs v0] r assms(2,3) by (cases n) auto
  moreover have "n = 0 \<Longrightarrow> cs = []"
    using r chain_step_steps [of "hd cs" 0] by (cases cs) (auto simp: run_inv_def)
  ultimately show ?thesis using r
    by (cases "escaped (mach s)") (auto simp: run_inv_def roots_inv_def split: sum.splits, metis old.sum.exhaust)
qed

subsection \<open>The thread pool test\<close>

text \<open>
  \<^verbatim>\<open>demo/threadpooltest.cpp\<close>: \<^verbatim>\<open>co_main\<close> goes through the scheduler once in each of ten
  turns, and \<^verbatim>\<open>main\<close> starts two of them.
\<close>

definition co_main :: "unit body" where
  "co_main = (CoSchedule ^^ 10) (CoReturn ())"

definition threadpooltest_main :: "unit machine outcome" where
  "threadpooltest_main = spawn () (replicate 2 co_main) no_frames"

lemma co_main_eval: "eval co_main = Inr ()" "body_steps co_main = 21"
  by (simp_all add: co_main_def numeral_eq_Suc)

lemma started_threadpooltest:
  "threadpooltest_main = Returns (mach (started () [co_main, co_main] w))"
  by (simp add: threadpooltest_main_def started_def spawn_result numeral_2_eq_2)

theorem coroutines_terminate_witness:
  "\<exists>s. (cluster_step () ^^ 1) (started () [co_main, co_main] 3) s \<and> (\<exists>s'. cluster_step () s s')"
proof -
  have "run_inv [co_main, co_main] (Suc 43) (started () [co_main, co_main] 3)
      (map (\<lambda>i. Chain [i] ([co_main, co_main] ! i) [] False) [0..<length [co_main, co_main]])"
    using run_inv_started [of "[co_main, co_main]" "()" 3] by (simp add: co_main_eval)
  from run_inv_progress [OF this, of "()"] obtain s where s: "cluster_step () (started () [co_main, co_main] 3) s"
    by (auto simp: started_def spawn_result no_frames_def)
  then have one: "(cluster_step () ^^ 1) (started () [co_main, co_main] 3) s" by auto
  moreover have "escaped (mach s) = None"
    using s by (auto elim!: cluster_step.cases simp: started_def spawn_result no_frames_def resume_def
        set_code_def nth_Cons' split: if_splits)
  ultimately show ?thesis using coroutines_terminate [OF one] by (auto simp: co_main_eval)
qed

theorem every_root_gets_its_value_witness:
  "\<exists>k s. (cluster_step 0 ^^ k) (started 0 [demo_body, CoSchedule (CoReturn 7)] 2) s \<and> escaped (mach s) = None \<and>
     map (\<lambda>f. returnValue (promise f)) (take 2 (frames (mach s))) = [5, 7]"
proof -
  obtain k s where s: "(cluster_step 0 ^^ k) (started 0 [demo_body, CoSchedule (CoReturn 7)] 2) s"
    "\<not> (\<exists>t. cluster_step 0 s t)"
    using run_ends [OF run_inv_started [of "[demo_body, CoSchedule (CoReturn 7)]" 0 2], of 0] by (elim exE conjE) (rule that)
  obtain cs n where "run_inv [demo_body, CoSchedule (CoReturn 7)] n s cs"
    by (rule started_runs [OF s(1)])
  then have "2 \<le> length (frames (mach s))" by (simp add: run_inv_def roots_inv_def)
  then obtain f g fs where "frames (mach s) = f # g # fs"
    by (metis One_nat_def Suc_1 Suc_le_length_iff)
  moreover have "\<exists>i < 2. eval ([demo_body, CoSchedule (CoReturn 7)] ! i) = Inl e \<Longrightarrow> False" for e
    by (auto simp: less_Suc_eq numeral_2_eq_2 demo_body_def)
  ultimately show ?thesis
    using s every_root_gets_its_value [OF s]
    by (intro exI [of _ k] exI [of _ s])
      (auto simp: demo_body_def less_Suc_eq numeral_2_eq_2 split: option.splits)
qed

theorem workers_do_not_share_frames_witness:
  "\<exists>s m. (cluster_step (0::nat) ^^ 2) (started 0 [CoReturn 1, CoReturn 2] 2) s \<and>
     machine_step 0 ((mach s)\<lparr>current := Some 0\<rparr>) = Returns m \<and> code (frames m ! 0) = Done \<and>
     frames m ! 1 = frames (mach s) ! 1"
proof -
  let ?f = "\<lambda>b. \<lparr>promise = (new_promise (0::nat))\<lparr>detached := True\<rparr>, code = b\<rparr>"
  let ?s1 = "\<lparr>mach = \<lparr>frames = [?f (Active (CoReturn 1)), ?f (Suspended (CoReturn 2))], current = Some 0,
    ready = [1], escaped = None\<rparr>, cpus = [Some 0, None]\<rparr>"
  let ?s2 = "\<lparr>mach = \<lparr>frames = [?f (Active (CoReturn 1)), ?f (Active (CoReturn 2))], current = Some 1,
    ready = [], escaped = None\<rparr>, cpus = [Some 0, Some 1]\<rparr>"
  have "cluster_step 0 (started 0 [CoReturn 1, CoReturn 2] 2) ?s1"
    using cluster_step.take_ready [where ?v0.0 = 0 and s = "started (0::nat) [CoReturn 1, CoReturn 2] 2" and i = 0 and h = 0]
    by (simp add: started_def spawn_result no_frames_def resume_def set_code_def numeral_2_eq_2)
  moreover have "cluster_step 0 ?s1 ?s2"
    using cluster_step.take_ready [where ?v0.0 = 0 and s = ?s1 and i = 1 and h = 1] by (simp add: resume_def set_code_def)
  ultimately have s2: "(cluster_step 0 ^^ 2) (started 0 [CoReturn 1, CoReturn 2] 2) ?s2"
    by (auto simp: numeral_2_eq_2)
  obtain m where m: "machine_step 0 ((mach ?s2)\<lparr>current := Some 0\<rparr>) = Returns m" "code (frames m ! 0) = Done"
    by (simp add: machine_step_def finish_def final_suspend_def returnPrevAwaiter_suspend_def return_value_def
        transfer_def Let_def)
  from workers_do_not_share_frames [OF s2 _ _ _ _ _ m(1), of 0 1 1 1] m(2) s2 m(1) show ?thesis
    by (intro exI [of _ ?s2] exI [of _ m]) simp
qed

end
