(* ===== verification/Timer.thy ===== *)
theory Timer
  imports Chains
begin

text \<open>
  Timers (\<^verbatim>\<open>include/async/Timer.hpp\<close>, \<^verbatim>\<open>src/async/Timer.cpp\<close>) and
  \<^verbatim>\<open>getSelfAwaiter\<close> of \<^verbatim>\<open>include/async/Tasks.hpp\<close>, on the machine of \<open>Chains\<close>.

  The reading of the clock is an argument of \<^verbatim>\<open>await_ready\<close>.  \<^verbatim>\<open>await_suspend\<close> has the
  registration of the coroutine commented out, so it has no effect; a step relation adds to the steps of the
  workers that a running coroutine awaits a timer.  At its end \<^verbatim>\<open>sleepFor\<close> resumes the coroutine it was given,
  inside the running one; this is modelled on the machine of \<open>Tasks\<close>, with fuel.
\<close>

subsection \<open>getSelfAwaiter\<close>

record getSelfAwaiter =
  gs_selfCoro :: "coro option"

definition getSelf_ready :: "getSelfAwaiter \<Rightarrow> bool" where
  "getSelf_ready a = False"

text \<open>The second result: whether the coroutine is suspended.\<close>

definition getSelf_suspend :: "coro \<Rightarrow> getSelfAwaiter \<Rightarrow> getSelfAwaiter \<times> bool" where
  "getSelf_suspend callerCoro a = (a\<lparr>gs_selfCoro := Some callerCoro\<rparr>, False)"

definition getSelf_resume :: "getSelfAwaiter \<Rightarrow> coro option" where
  "getSelf_resume a = gs_selfCoro a"

text \<open>\<^verbatim>\<open>co_await getSelfAwaiter{}\<close> in the coroutine \<open>h\<close>.\<close>

definition await_getSelf :: "coro \<Rightarrow> coro option" where
  "await_getSelf h = getSelf_resume (fst (getSelf_suspend h \<lparr>gs_selfCoro = None\<rparr>))"

lemma await_getSelf: "await_getSelf h = Some h"
  by (simp add: await_getSelf_def getSelf_resume_def getSelf_suspend_def)

subsection \<open>timerAwaiter\<close>

record timerAwaiter =
  callBackCoro :: "coro option"
  time :: int

definition timer_ready :: "int \<Rightarrow> timerAwaiter \<Rightarrow> bool" where
  "timer_ready now a \<longleftrightarrow> time a < now"

text \<open>The coroutine that runs next, and the coroutines known to the scheduler.\<close>

definition timer_suspend :: "timerAwaiter \<Rightarrow> coro \<Rightarrow> coro list \<Rightarrow> coro option \<times> coro list" where
  "timer_suspend a coro scheduled =
     (let coro = (case callBackCoro a of Some c \<Rightarrow> c | None \<Rightarrow> coro)
      in (None, scheduled))"

text \<open>The awaiters of \<^verbatim>\<open>sleepUntil\<close> and \<^verbatim>\<open>sleepFor\<close>; \<open>self\<close> is the coroutine itself.\<close>

definition sleepUntil :: "int \<Rightarrow> coro option \<Rightarrow> timerAwaiter" where
  "sleepUntil t coro = \<lparr>callBackCoro = coro, time = t\<rparr>"

definition sleepFor :: "coro \<Rightarrow> int \<Rightarrow> int \<Rightarrow> timerAwaiter" where
  "sleepFor self now duration = \<lparr>callBackCoro = await_getSelf self, time = now + duration\<rparr>"

text \<open>\<^verbatim>\<open>co_await\<close> of a timer in the running coroutine \<open>h\<close>, \<open>b\<close> is the rest of its body.\<close>

definition await_timer :: "int \<Rightarrow> timerAwaiter \<Rightarrow> coro \<Rightarrow> 'v body \<Rightarrow> 'v machine \<Rightarrow> 'v machine outcome" where
  "await_timer now a h b m =
     (if timer_ready now a then Returns (set_code h (Active b) m)
      else case timer_suspend a h (ready m) of
             (target, scheduled) \<Rightarrow> transfer target ((set_code h (Suspended b) m)\<lparr>ready := scheduled\<rparr>))"

inductive timed_step :: "'v \<Rightarrow> 'v cluster \<Rightarrow> 'v cluster \<Rightarrow> bool" for v0 where
  goes_on: "cluster_step v0 s s' \<Longrightarrow> timed_step v0 s s'"
| awaits_timer:
    "\<lbrakk>escaped (mach s) = None; i < length (cpus s); cpus s ! i = Some h;
      await_timer now a h b ((mach s)\<lparr>current := Some h\<rparr>) = Returns m\<rbrakk> \<Longrightarrow>
     timed_step v0 s \<lparr>mach = m, cpus = (cpus s)[i := current m]\<rparr>"

subsection \<open>What a step leaves alone\<close>

text \<open>The frames that exist and belong to no live chain.\<close>

definition lost :: "'v cluster \<Rightarrow> 'v chain list \<Rightarrow> coro set" where
  "lost s cs = {x. x < length (frames (mach s)) \<and> x \<notin> set (concat (map handles cs))}"

definition leaves_lost :: "'v cluster \<Rightarrow> 'v chain list \<Rightarrow> 'v cluster \<Rightarrow> 'v chain list \<Rightarrow> bool" where
  "leaves_lost s cs s' cs' \<longleftrightarrow>
     cluster_inv s' cs' \<and> lost s cs \<subseteq> lost s' cs' \<and>
     (\<forall>x \<in> lost s cs. frames (mach s') ! x = frames (mach s) ! x)"

lemma leaves_lost_trans:
  "leaves_lost s cs t ds \<Longrightarrow> leaves_lost t ds u es \<Longrightarrow> leaves_lost s cs u es"
  by (auto simp: leaves_lost_def)

lemma cluster_moves_lost:
  assumes "cluster_moves s cs s'"
  shows "\<exists>cs'. leaves_lost s cs s' cs'"
proof -
  obtain xs c ys m where c: "cs = xs @ c # ys" "chain_moves m c (mach s')" "frames m = frames (mach s)"
    "cluster_inv s' (xs @ chain_step (length (frames m)) c @ ys)"
    using assms unfolding cluster_moves_def by blast
  have m: "length (frames (mach s)) \<le> length (frames (mach s'))"
    "\<And>x. x < length (frames (mach s)) \<Longrightarrow> x \<notin> set (handles c) \<Longrightarrow> frames (mach s') ! x = frames (mach s) ! x"
    "\<And>d. d \<in> set (chain_step (length (frames m)) c) \<Longrightarrow> set (handles d) \<subseteq> set (handles c) \<union> {length (frames m)..}"
    using c(2,3) by (auto simp: chain_moves_def Let_def)
  have "leaves_lost s cs s' (xs @ chain_step (length (frames m)) c @ ys)"
    using c(1,3,4) m by (force simp: leaves_lost_def lost_def)
  then show ?thesis ..
qed

lemma awaits_timer_lost:
  assumes inv: "cluster_inv s cs" and i: "i < length (cpus s)" "cpus s ! i = Some h"
    and m: "await_timer now a h b ((mach s)\<lparr>current := Some h\<rparr>) = Returns m"
  shows "\<exists>cs'. leaves_lost s cs \<lparr>mach = m, cpus = (cpus s)[i := current m]\<rparr> cs' \<and>
    (\<not> timer_ready now a \<longrightarrow> (\<forall>x. (called_by (frames (mach s)))\<^sup>*\<^sup>* h x \<longrightarrow>
       x \<in> lost \<lparr>mach = m, cpus = (cpus s)[i := current m]\<rparr> cs'))"
proof -
  obtain xs c ys where c: "cs = xs @ c # ys" "running c" "hd (handles c) = h"
    by (rule head_of_busy [OF inv i])
  have ok: "chain_ok (frames (mach s)) c" using inv c(1) by (simp add: cluster_inv_def)
  then obtain hs b0 ks where ch: "c = Chain (h # hs) b0 ks True"
    using c(2,3) linked_nonempty [of "frames (mach s)" "handles c" "conts c"]
    by (cases c; cases "handles c") (auto simp: chain_ok_def)
  have l: "linked (frames (mach s)) (h # hs) ks" "distinct (h # hs)"
    using ok by (simp_all add: ch chain_ok_def)
  then have h: "h < length (frames (mach s))" using linked_bound by fastforce
  obtain q where q: "frames m = (frames (mach s))[h := (frames (mach s) ! h)\<lparr>code := q\<rparr>]" "ready m = ready (mach s)"
    "if timer_ready now a then q = Active b \<and> current m = Some h else q = Suspended b \<and> current m = None"
    using m by (auto simp: await_timer_def timer_suspend_def transfer_def set_code_def split: if_splits)
  have same: "\<And>x. x \<noteq> h \<Longrightarrow> frames m ! x = frames (mach s) ! x" "length (frames m) = length (frames (mach s))"
    by (simp_all add: q(1))
  have o: "\<And>d. d \<in> set xs \<union> set ys \<Longrightarrow> chain_ok (frames m) d \<and>
      (\<forall>y \<in> set (handles d). y < length (frames (mach s)) \<and> y \<notin> set (handles c))"
    by (rule other_chains_stay [OF inv [unfolded c(1)]]) (use same in \<open>auto simp: ch\<close>)
  note inv' = inv [unfolded cluster_inv_def c(1)]
  let ?s = "\<lparr>mach = m, cpus = (cpus s)[i := current m]\<rparr>"
  show ?thesis
  proof (cases "timer_ready now a")
    case True
    let ?d = "Chain (h # hs) b ks True"
    have "linked (frames m) (h # hs) ks"
      by (rule linked_frame [OF l(1)]) (use l(2) h in \<open>auto simp: q(1) nth_list_update\<close>)
    then have "chain_ok (frames m) ?d" using l(2) h q True by (simp add: chain_ok_def)
    moreover have "(cpus s)[i := current m] = cpus s" using True i q(3) by (metis list_update_id)
    then have "busy ?s = busy s" by (simp add: busy_def)
    ultimately have "cluster_inv ?s (xs @ ?d # ys)"
      using inv' o q(2) by (simp add: cluster_inv_def ch ball_Un)
    then have "leaves_lost s cs ?s (xs @ ?d # ys)"
      using same by (auto simp: leaves_lost_def lost_def c(1) ch)
    with True show ?thesis by blast
  next
    case False
    have "busy ?s + {#h#} = busy s"
      using False i q(3) busy_update [OF i(1), of "current m"] by (simp add: busy_def)
    then have "busy ?s = mset (heads (filter running (xs @ ys)))"
      using inv' by (simp add: ch)
    then have inv2: "cluster_inv ?s (xs @ ys)"
      using inv' o q(2) by (auto simp: cluster_inv_def ch)
    have "x \<in> lost ?s (xs @ ys)" if "(called_by (frames (mach s)))\<^sup>*\<^sup>* h x" for x
    proof -
      have "x \<in> set (h # hs)" by (rule linked_callers [OF that l(1)]) simp
      then show ?thesis using o linked_bound [OF l(1)] same(2) by (auto simp: lost_def ch)
    qed
    moreover have "leaves_lost s cs ?s (xs @ ys)"
      using inv2 same by (auto simp: leaves_lost_def lost_def c(1) ch)
    ultimately show ?thesis by blast
  qed
qed

lemma timed_step_lost:
  assumes "timed_step v0 s s'" and "cluster_inv s cs"
  shows "\<exists>cs'. leaves_lost s cs s' cs'"
  using assms(1)
proof cases
  case goes_on
  then have "cluster_moves s cs s'"
  proof cases
    case (take_ready i h m)
    with take_cluster [OF assms(2) take_ready(3,4,5)] show ?thesis by auto
  next
    case (run_current i h m)
    with run_cluster [OF assms(2) run_current(3,4), of v0] show ?thesis by auto
  qed
  then show ?thesis by (rule cluster_moves_lost)
next
  case (awaits_timer i h now a b m)
  with awaits_timer_lost [OF assms(2) awaits_timer(3,4,5)] show ?thesis by blast
qed

lemma timed_steps_lost:
  assumes "(timed_step v0)\<^sup>*\<^sup>* s s'" and "cluster_inv s cs"
  shows "\<exists>cs'. leaves_lost s cs s' cs'"
  using assms(1)
proof (induction rule: rtranclp_induct)
  case base
  then show ?case using assms(2) by (auto simp: leaves_lost_def)
next
  case (step y z)
  then obtain cs' where "leaves_lost s cs y cs'" by blast
  moreover from this have "cluster_inv y cs'" by (simp add: leaves_lost_def)
  ultimately show ?case using timed_step_lost [OF step.hyps(2)] leaves_lost_trans by metis
qed

subsection \<open>The call at the end of sleepFor\<close>

text \<open>
  \<^verbatim>\<open>coro.resume()\<close> inside the running coroutine \<open>h\<close>: the other coroutine runs, with those it awaits, until
  control comes back to the caller; \<open>None\<close> when the fuel \<open>n\<close> is used up.  While it runs \<open>h\<close> is not
  suspended, so resuming it is undefined.
\<close>

fun run_to_rest :: "'v \<Rightarrow> nat \<Rightarrow> 'v machine \<Rightarrow> 'v machine outcome option" where
  "run_to_rest v0 n m =
     (if current m = None then Some (Returns m)
      else case n of
        0 \<Rightarrow> None
      | Suc k \<Rightarrow>
          (case machine_step v0 m of
             Returns m \<Rightarrow> run_to_rest v0 k m
           | Throws e \<Rightarrow> Some (Throws e)
           | Undefined \<Rightarrow> Some Undefined))"

declare run_to_rest.simps [simp del]

definition call_resume :: "'v \<Rightarrow> nat \<Rightarrow> coro \<Rightarrow> coro \<Rightarrow> 'v machine \<Rightarrow> 'v machine outcome option" where
  "call_resume v0 n h c m =
     (case resume c m of
        Returns m \<Rightarrow>
          map_option (\<lambda>r. outcome_bind r (\<lambda>m. Returns (if escaped m = None then m\<lparr>current := Some h\<rparr> else m)))
            (run_to_rest v0 n m)
      | Throws e \<Rightarrow> Some (Throws e)
      | Undefined \<Rightarrow> Some Undefined)"

text \<open>
  \<^verbatim>\<open>sleepFor\<close>, running in the coroutine \<open>h\<close>, from its \<^verbatim>\<open>co_await\<close> on, up to its end or until it
  sleeps; the clock is read twice.
\<close>

definition sleepFor_run ::
  "'v \<Rightarrow> nat \<Rightarrow> int \<Rightarrow> int \<Rightarrow> int \<Rightarrow> coro option \<Rightarrow> coro \<Rightarrow> 'v machine \<Rightarrow> 'v machine outcome option" where
  "sleepFor_run v0 n now1 now2 duration coro h m =
     (case await_timer now2 (sleepFor h now1 duration) h (CoReturn v0) m of
        Returns m \<Rightarrow>
          if current m = None then Some (Returns m)
          else (case coro of None \<Rightarrow> Some (Returns m) | Some c \<Rightarrow> call_resume v0 n h c m)
      | Throws e \<Rightarrow> Some (Throws e)
      | Undefined \<Rightarrow> Some Undefined)"

lemma run_to_rest_steps:
  "(mstep False v0)\<^sup>*\<^sup>* m m' \<Longrightarrow> current m' = None \<Longrightarrow> \<exists>n. run_to_rest v0 n m = Some (Returns m')"
proof (induction rule: converse_rtranclp_induct)
  case base
  then show ?case by (simp add: run_to_rest.simps)
next
  case (step m m1)
  then obtain n where "run_to_rest v0 n m1 = Some (Returns m')" by blast
  then have "run_to_rest v0 (Suc n) m = Some (Returns m')"
    using step.hyps(1) by (auto simp: mstep_def run_to_rest.simps [of v0 "Suc n"])
  then show ?case ..
qed

text \<open>A detached coroutine that never gives way, run to its end by whoever resumes it.\<close>

lemma detached_runs_to_rest:
  assumes "c < length (frames m)" and "code (frames m ! c) = Suspended b" and "schedule_free b"
    and "detached (promise (frames m ! c))" and "eval b = Inr v"
  shows "\<exists>n new m1. resume c m = Returns m1 \<and> length new = awaits b \<and> (\<forall>f \<in> set new. code f = Done) \<and>
    run_to_rest v0 n m1 = Some (Returns (m\<lparr>current := None, frames :=
      (frames m)[c := \<lparr>promise = return_value v (promise (frames m ! c)), code = Done\<rparr>] @ new\<rparr>))"
proof -
  let ?m1 = "set_code c (Active b) (m\<lparr>current := Some c\<rparr>)"
  have r: "resume c m = Returns ?m1" using assms(1,2) by (simp add: resume_def)
  have "current ?m1 = Some c" "c < length (frames ?m1)" "code (frames ?m1 ! c) = Active b"
    "False \<and> ready ?m1 = [] \<or> schedule_free b"
    using assms(1,3) by (simp_all add: set_code_def)
  from body_runs [OF this] obtain new where new: "length new = awaits b" "\<forall>f \<in> set new. code f = Done"
    "(mstep False v0)\<^sup>*\<^sup>* ?m1 (?m1\<lparr>frames := (frames ?m1)[c := (frames ?m1 ! c)\<lparr>code := Active (final_body (eval b))\<rparr>] @ new\<rparr>)"
    by blast
  let ?e = "?m1\<lparr>frames := (frames ?m1)[c := (frames ?m1 ! c)\<lparr>code := Active (final_body (eval b))\<rparr>] @ new\<rparr>"
  let ?r = "m\<lparr>current := None, frames :=
      (frames m)[c := \<lparr>promise = return_value v (promise (frames m ! c)), code = Done\<rparr>] @ new\<rparr>"
  have "machine_step v0 ?e = Returns ?r"
    using assms(1,4,5)
    by (simp add: machine_step_def set_code_def final_body_def nth_append list_update_append finish_def
        final_suspend_def returnPrevAwaiter_suspend_def return_value_def transfer_def)
  then have "mstep False v0 ?e ?r" by (simp add: mstep_def set_code_def)
  with new(3) have "(mstep False v0)\<^sup>*\<^sup>* ?m1 ?r" by (rule rtranclp.rtrancl_into_rtrancl)
  from run_to_rest_steps [OF this] obtain n where "run_to_rest v0 n ?m1 = Some (Returns ?r)" by auto
  then show ?thesis using r new(1,2) by blast
qed

text \<open>
  What \<^verbatim>\<open>sleepFor\<close> does with its second argument.  When the time is past at the second
  look at the clock, the given detached coroutine is run to its end inside the call, and then \<^verbatim>\<open>sleepFor\<close> itself goes on to its
  \<^verbatim>\<open>co_return\<close>: all other frames, and what is scheduled, are as before.  Otherwise control is gone
  and the given coroutine has not moved.
\<close>

lemma sleepFor_calls_back:
  assumes "current m = Some h" and "h < length (frames m)" and "c < length (frames m)" and "c \<noteq> h"
    and "code (frames m ! c) = Suspended b" and "schedule_free b" and "detached (promise (frames m ! c))"
    and "eval b = Inr v" and "escaped m = None"
  shows "\<exists>n m'. sleepFor_run v0 n now1 now2 duration (Some c) h m = Some (Returns m') \<and> ready m' = ready m \<and>
    (if now1 + duration < now2
     then current m' = Some h \<and> (\<exists>new. length new = awaits b \<and> (\<forall>f \<in> set new. code f = Done) \<and>
       frames m' = (frames m)[h := (frames m ! h)\<lparr>code := Active (CoReturn v0)\<rparr>,
         c := \<lparr>promise = return_value v (promise (frames m ! c)), code = Done\<rparr>] @ new)
     else current m' = None \<and> frames m' ! c = frames m ! c)"
proof (cases "now1 + duration < now2")
  case True
  let ?m1 = "set_code h (Active (CoReturn v0)) m"
  have t: "await_timer now2 (sleepFor h now1 duration) h (CoReturn v0) m = Returns ?m1"
    using True by (simp add: await_timer_def timer_ready_def sleepFor_def)
  have c: "c < length (frames ?m1)" "code (frames ?m1 ! c) = Suspended b" "detached (promise (frames ?m1 ! c))"
    "frames ?m1 ! c = frames m ! c"
    using assms(3-5,7) by (simp_all add: set_code_def)
  obtain n new m2 where n: "resume c ?m1 = Returns m2" "length new = awaits b" "\<forall>f \<in> set new. code f = Done"
    "run_to_rest v0 n m2 = Some (Returns (?m1\<lparr>current := None, frames :=
      (frames ?m1)[c := \<lparr>promise = return_value v (promise (frames ?m1 ! c)), code = Done\<rparr>] @ new\<rparr>))"
    using detached_runs_to_rest [OF c(1,2) assms(6) c(3) assms(8)] by blast
  let ?r = "?m1\<lparr>current := Some h, frames :=
      (frames ?m1)[c := \<lparr>promise = return_value v (promise (frames m ! c)), code = Done\<rparr>] @ new\<rparr>"
  have "sleepFor_run v0 n now1 now2 duration (Some c) h m = Some (Returns ?r)"
    using t n(1,4) assms(1,9) c(4) by (simp add: sleepFor_run_def call_resume_def set_code_def)
  then show ?thesis using True n(2,3) by (intro exI [of _ n] exI [of _ ?r]) (simp add: set_code_def)
next
  case False
  let ?m1 = "(set_code h (Suspended (CoReturn v0)) m)\<lparr>current := None\<rparr>"
  have "sleepFor_run v0 0 now1 now2 duration (Some c) h m = Some (Returns ?m1)"
    using False
    by (simp add: sleepFor_run_def await_timer_def timer_ready_def sleepFor_def timer_suspend_def transfer_def set_code_def)
  then show ?thesis using False assms(4) by (intro exI [of _ 0] exI [of _ ?m1]) (simp add: set_code_def)
qed

text \<open>The coroutine 1 is called back by coroutine 0, which slept for a negative time.\<close>

subsection \<open>A sleeper never wakes\<close>

text \<open>
  C36: a coroutine that sleeps into the future sleeps for ever.  However the threads have run so far,
  when a running coroutine awaits a timer whose time is not yet past, its thread goes on with other
  work, and whatever the threads do from then on, how late it ever gets, neither the coroutine nor any of the
  coroutines that wait for it, up to the root, makes another step: their frames never change.
\<close>

theorem sleeper_never_wakes:
  assumes "(timed_step v0)\<^sup>*\<^sup>* (started v0 bs w) s"
    and "i < length (cpus s)" and "cpus s ! i = Some h"
    and "\<not> timer_ready now a" and "await_timer now a h b ((mach s)\<lparr>current := Some h\<rparr>) = Returns m"
    and "(timed_step v0)\<^sup>*\<^sup>* \<lparr>mach = m, cpus = (cpus s)[i := current m]\<rparr> s'"
    and "(called_by (frames (mach s)))\<^sup>*\<^sup>* h x"
  shows "current m = None \<and> ready m = ready (mach s) \<and> frames (mach s') ! x = frames m ! x"
proof -
  have "cluster_inv (started v0 bs w) (map (\<lambda>i. Chain [i] (bs ! i) [] False) [0..<length bs])"
    using run_inv_started [of bs v0 w] by (simp add: run_inv_def)
  from timed_steps_lost [OF assms(1) this] obtain cs where "cluster_inv s cs"
    by (auto simp: leaves_lost_def)
  from awaits_timer_lost [OF this assms(2,3,5)] assms(4,7) obtain ds where
    ds: "leaves_lost s cs \<lparr>mach = m, cpus = (cpus s)[i := current m]\<rparr> ds"
      "x \<in> lost \<lparr>mach = m, cpus = (cpus s)[i := current m]\<rparr> ds"
    by blast
  then have "cluster_inv \<lparr>mach = m, cpus = (cpus s)[i := current m]\<rparr> ds" by (simp add: leaves_lost_def)
  from timed_steps_lost [OF assms(6) this] ds(2) have "frames (mach s') ! x = frames m ! x"
    by (auto simp: leaves_lost_def)
  moreover have "current m = None \<and> ready m = ready (mach s)"
    using assms(4,5) by (auto simp: await_timer_def timer_suspend_def transfer_def set_code_def)
  ultimately show ?thesis by blast
qed

text \<open>A coroutine that sleeps for five units, called by a root, next to another root.\<close>

theorem sleeper_never_wakes_witness:
  "\<exists>s m s'. (timed_step ())\<^sup>*\<^sup>* (started () [CoAwait (CoReturn ()) (\<lambda>r. CoReturn ()), CoReturn ()] 1) s \<and>
     cpus s = [Some 2] \<and> await_timer 3 (sleepFor 2 3 5) 2 (CoReturn ()) ((mach s)\<lparr>current := Some 2\<rparr>) = Returns m \<and>
     timed_step () \<lparr>mach = m, cpus = [current m]\<rparr> s' \<and> cpus s' = [Some 1] \<and> frames (mach s') ! 0 = frames m ! 0"
proof -
  let ?k = "\<lambda>r. CoReturn ()"
  let ?p = "(new_promise ())\<lparr>detached := True\<rparr>"
  let ?root = "\<lambda>b. \<lparr>promise = ?p, code = b\<rparr>"
  let ?child = "\<lambda>b. \<lparr>promise = (new_promise ())\<lparr>prevCoro := Some 0\<rparr>, code = b\<rparr>"
  let ?st = "started () [CoAwait (CoReturn ()) ?k, CoReturn ()] 1"
  let ?s1 = "\<lparr>mach = \<lparr>frames = [?root (Active (CoAwait (CoReturn ()) ?k)), ?root (Suspended (CoReturn ()))],
    current = Some 0, ready = [1], escaped = None\<rparr>, cpus = [Some 0]\<rparr>"
  let ?m = "\<lambda>c b. \<lparr>frames = [?root (Awaiting 2 ?k), ?root (Suspended (CoReturn ())), ?child b],
    current = c, ready = [1], escaped = None\<rparr>"
  let ?s2 = "\<lparr>mach = ?m (Some 2) (Active (CoReturn ())), cpus = [Some 2]\<rparr>"
  let ?m3 = "?m None (Suspended (CoReturn ()))"
  let ?s4 = "\<lparr>mach = \<lparr>frames = [?root (Awaiting 2 ?k), ?root (Active (CoReturn ())), ?child (Suspended (CoReturn ()))],
    current = Some 1, ready = [], escaped = None\<rparr>, cpus = [Some 1]\<rparr>"
  have "cluster_step () ?st ?s1"
    using cluster_step.take_ready [where ?v0.0 = "()" and s = ?st and i = 0 and h = 0]
    by (simp add: started_def spawn_result no_frames_def resume_def set_code_def numeral_2_eq_2)
  moreover have "cluster_step () ?s1 ?s2"
    using cluster_step.run_current [where ?v0.0 = "()" and s = ?s1 and i = 0 and h = 0]
    by (simp add: machine_step_def await_task_def transfer_def resume_def set_code_def Let_def numeral_2_eq_2)
  ultimately have steps: "(timed_step ())\<^sup>*\<^sup>* ?st ?s2"
    by (meson goes_on rtranclp.rtrancl_into_rtrancl rtranclp.rtrancl_refl)
  have sleep: "await_timer 3 (sleepFor 2 3 5) 2 (CoReturn ()) ((mach ?s2)\<lparr>current := Some 2\<rparr>) = Returns ?m3"
    by (simp add: await_timer_def timer_ready_def sleepFor_def timer_suspend_def transfer_def set_code_def)
  have "cluster_step () \<lparr>mach = ?m3, cpus = [None]\<rparr> ?s4"
    using cluster_step.take_ready [where ?v0.0 = "()" and s = "\<lparr>mach = ?m3, cpus = [None]\<rparr>" and i = 0 and h = 1]
    by (simp add: resume_def set_code_def)
  then have on: "timed_step () \<lparr>mach = ?m3, cpus = [None]\<rparr> ?s4" by (rule goes_on)
  have "\<not> timer_ready 3 (sleepFor 2 3 5)" by (simp add: timer_ready_def sleepFor_def)
  moreover have "(called_by (frames (mach ?s2)))\<^sup>*\<^sup>* 2 0"
    by (rule r_into_rtranclp) (simp add: called_by_def)
  ultimately have "frames (mach ?s4) ! 0 = frames ?m3 ! 0"
    using sleeper_never_wakes [OF steps, of 0 2 3 "sleepFor 2 3 5" "CoReturn ()" ?m3 ?s4 0] sleep on by simp
  then show ?thesis
    using steps sleep on by (intro exI [of _ ?s2] exI [of _ ?m3] exI [of _ ?s4]) simp
qed

end
