(* ===== verification/Generators.thy ===== *)
theory Generators
  imports Tasks
begin

text \<open>
  Generators and \<^verbatim>\<open>whenAll\<close>: the promises \<^verbatim>\<open>yieldPromiseType\<close> and
  \<^verbatim>\<open>retPrevPromiseType\<close> of \<^verbatim>\<open>include/async/Tasks.hpp\<close>, and
  \<^verbatim>\<open>include/async/WhenAll.hpp\<close>.

  A generator runs from one suspension point to the next; the tasks it awaits in between count as calls,
  as the machine of \<open>Tasks\<close> justifies.  The class \<^verbatim>\<open>loopInstance\<close> that
  \<^verbatim>\<open>whenAll\<close> uses is not part of the repository: its two functions are parameters, and nothing is
  supposed about what they do with the coroutines they are given.
\<close>

subsection \<open>A generator\<close>

datatype 'v gbody =
    GYield 'v "'v gbody"
  | GReturn 'v
  | GThrow exc
  | GAwait "'v body" "exc + 'v \<Rightarrow> 'v gbody"

record 'v generator =
  gpromise :: "'v promise"
  ended :: bool
  grest :: "'v gbody option"    \<comment> \<open>none when the coroutine is done\<close>

definition new_generator :: "'v \<Rightarrow> 'v gbody \<Rightarrow> 'v generator" where
  "new_generator v0 b = \<lparr>gpromise = new_promise v0, ended = False, grest = Some b\<rparr>"

definition gen_return_value :: "'v \<Rightarrow> 'v generator \<Rightarrow> 'v generator" where
  "gen_return_value v g = g\<lparr>ended := True, gpromise := return_value v (gpromise g)\<rparr>"

definition gen_done :: "'v generator \<Rightarrow> bool" where
  "gen_done g \<longleftrightarrow> grest g = None"

text \<open>
  Running to the next suspension point: the coroutine that runs next, or the exception that leaves the
  generator.
\<close>

primrec gen_run :: "'v gbody \<Rightarrow> 'v generator \<Rightarrow> (exc + coro option) \<times> 'v generator" where
  "gen_run (GYield v b) g =
     (case yield_value v (gpromise g) of
        (p, target) \<Rightarrow> (Inr target, g\<lparr>gpromise := p, grest := Some b\<rparr>))"
| "gen_run (GReturn v) g =
     (let g = gen_return_value v g
      in (Inr (final_suspend (gpromise g)), g\<lparr>grest := None\<rparr>))"
| "gen_run (GThrow e) g =
     (case unhandled_exception e (gpromise g) of
        Inl e \<Rightarrow> (Inl e, g\<lparr>grest := None\<rparr>)
      | Inr p \<Rightarrow> (Inr (final_suspend p), g\<lparr>gpromise := p, grest := None\<rparr>))"
| "gen_run (GAwait b k) g = (let r = eval b in gen_run (k r) g)"

text \<open>
  \<^verbatim>\<open>co_await gen\<close> in the coroutine \<open>h\<close>.  A generator that is done must not be resumed; one that
  does not hand control back to its caller leaves it suspended (\<open>None\<close>).
\<close>

definition gen_await :: "coro \<Rightarrow> 'v generator \<Rightarrow> ((exc + 'v) option \<times> 'v generator) outcome" where
  "gen_await h g =
     (case grest g of
        None \<Rightarrow> Undefined
      | Some b \<Rightarrow>
          (case gen_run b (g\<lparr>gpromise := (gpromise g)\<lparr>prevCoro := Some h\<rparr>\<rparr>) of
             (Inl e, g) \<Rightarrow> Throws e
           | (Inr target, g) \<Rightarrow>
               Returns (if target = Some h then Some (getValue (gpromise g)) else None, g)))"

text \<open>
  The loop \<^verbatim>\<open>while (!gen.selfCoro.done()) { auto i = co_await gen; ... }\<close> of a consumer: the values
  it saw and the exception that ended it, with a bound on its turns.
\<close>

fun consume :: "nat \<Rightarrow> coro \<Rightarrow> 'v generator \<Rightarrow> ('v list \<times> exc option) option outcome" where
  "consume 0 h g = Returns None"
| "consume (Suc n) h g =
     (if gen_done g then Returns (Some ([], None))
      else outcome_bind (gen_await h g) (\<lambda>(r, g).
             case r of
               None \<Rightarrow> Returns None
             | Some (Inl e) \<Rightarrow> Returns (Some ([], Some e))
             | Some (Inr v) \<Rightarrow>
                 outcome_bind (consume n h g) (\<lambda>q. Returns (map_option (apfst (\<lambda>vs. v # vs)) q))))"

text \<open>The reference: what a body yields and returns, and the exception that leaves it.\<close>

primrec gvalues :: "'v gbody \<Rightarrow> 'v list \<times> exc option" where
  "gvalues (GYield v b) = apfst (\<lambda>vs. v # vs) (gvalues b)"
| "gvalues (GReturn v) = ([v], None)"
| "gvalues (GThrow e) = ([], Some e)"
| "gvalues (GAwait b k) = (let r = eval b in gvalues (k r))"

text \<open>One resumption, from a promise that is not detached and holds no exception.\<close>

lemma gen_run_result:
  assumes "\<not> detached (gpromise g)" and "returnException (gpromise g) = None" and "prevCoro (gpromise g) = Some h"
  shows "\<exists>g'. gen_run b g = (Inr (Some h), g') \<and> \<not> detached (gpromise g') \<and>
    (case gvalues b of
       ([], e) \<Rightarrow> \<exists>x. e = Some x \<and> getValue (gpromise g') = Inl x
     | (v # vs, e) \<Rightarrow> getValue (gpromise g') = Inr v \<and> returnException (gpromise g') = None \<and>
         (case grest g' of
            None \<Rightarrow> vs = [] \<and> e = None
          | Some b' \<Rightarrow> gvalues b' = (vs, e)))"
proof (induction b)
  case (GYield v b)
  then show ?case using assms
    by (cases "gvalues b") (simp add: yield_value_def returnPrevAwaiter_suspend_def getValue_def)
next
  case (GReturn v)
  then show ?case using assms
    by (simp add: gen_return_value_def return_value_def final_suspend_def returnPrevAwaiter_suspend_def getValue_def)
next
  case (GThrow e)
  then show ?case using assms
    by (simp add: unhandled_exception_def final_suspend_def returnPrevAwaiter_suspend_def getValue_def)
next
  case (GAwait b k)
  then show ?case by (simp add: Let_def)
qed

lemma consume_result:
  assumes "\<not> detached (gpromise g)" and "returnException (gpromise g) = None" and "grest g = Some b"
    and "length (fst (gvalues b)) < n"
  shows "consume n h g = Returns (Some (gvalues b))"
  using assms
proof (induction n arbitrary: g b)
  case (Suc n)
  let ?g = "g\<lparr>gpromise := (gpromise g)\<lparr>prevCoro := Some h\<rparr>\<rparr>"
  obtain g' where g': "gen_run b ?g = (Inr (Some h), g')" "\<not> detached (gpromise g')"
    "case gvalues b of
       ([], e) \<Rightarrow> \<exists>x. e = Some x \<and> getValue (gpromise g') = Inl x
     | (v # vs, e) \<Rightarrow> getValue (gpromise g') = Inr v \<and> returnException (gpromise g') = None \<and>
         (case grest g' of None \<Rightarrow> vs = [] \<and> e = None | Some b' \<Rightarrow> gvalues b' = (vs, e))"
    using gen_run_result [of ?g h b] Suc.prems(1,2) by auto
  have a: "gen_await h g = Returns (Some (getValue (gpromise g')), g')" "\<not> gen_done g"
    using g'(1) Suc.prems(3) by (simp_all add: gen_await_def gen_done_def)
  obtain vs e where b: "gvalues b = (vs, e)" by fastforce
  show ?case
  proof (cases vs)
    case Nil
    then show ?thesis using a b g'(3) by auto
  next
    case (Cons v vs')
    then have v: "getValue (gpromise g') = Inr v" "returnException (gpromise g') = None"
      and rest: "case grest g' of None \<Rightarrow> vs' = [] \<and> e = None | Some b' \<Rightarrow> gvalues b' = (vs', e)"
      using g'(3) b by auto
    have "consume n h g' = Returns (Some (vs', e))"
    proof (cases "grest g'")
      case None
      moreover obtain k where "n = Suc k" using Suc.prems(4) b Cons by (cases n) auto
      ultimately show ?thesis using rest by (simp add: gen_done_def)
    next
      case (Some b')
      then show ?thesis using Suc.IH [OF g'(2) v(2) Some] rest Suc.prems(4) b Cons by simp
    qed
    then show ?thesis using a v(1) b Cons by simp
  qed
qed simp

text \<open>
  C30: a consumer sees what a generator yields.  The loop that awaits a generator until it is done gets
  exactly the yielded values in order and then the returned one, or, when the body throws, the values
  before and then the exception; the generator is never resumed after its end, and the loop ends after one
  turn for each value.
\<close>

theorem generator_gives_values:
  assumes "length (fst (gvalues b)) < n"
  shows "consume n h (new_generator v0 b) = Returns (Some (gvalues b))"
  using assms by (intro consume_result) (simp_all add: new_generator_def new_promise_def)

definition demo_gen :: "nat gbody" where
  "demo_gen = GYield 0 (GAwait (CoSchedule (CoReturn 5)) (\<lambda>r. case r of Inr v \<Rightarrow> GYield v (GReturn 3) | Inl e \<Rightarrow> GThrow e))"

theorem generator_gives_values_witness:
  "consume 4 7 (new_generator 9 demo_gen) = Returns (Some ([0, 5, 3], None))"
proof -
  have "gvalues demo_gen = ([0, 5, 3], None)" by (simp add: demo_gen_def)
  then show ?thesis using generator_gives_values [of demo_gen 4 7 9] by simp
qed

subsection \<open>whenAll\<close>

record whenAllCtlBlock =
  ctl_count :: nat
  callerCoro :: "coro option"

record 'v when_all =
  ctlBlock :: whenAllCtlBlock
  ret_vals :: "'v list"      \<comment> \<open>the result tuple\<close>

text \<open>
  The end of the helper of task \<open>i\<close>, whose await gave \<open>r\<close>: the coroutine it names in
  \<^verbatim>\<open>co_return\<close> (none: the noop coroutine), which its promise stores as the previous one.
\<close>

definition whenAllHelper :: "nat \<Rightarrow> exc + 'v \<Rightarrow> 'v when_all \<Rightarrow> (exc + coro option) \<times> 'v when_all" where
  "whenAllHelper i r st =
     (case r of
        Inl e \<Rightarrow> (Inl e, st)
      | Inr v \<Rightarrow>
          (let st = st\<lparr>ret_vals := (ret_vals st)[i := v]\<rparr>;
               st = st\<lparr>ctlBlock := (ctlBlock st)\<lparr>ctl_count := ctl_count (ctlBlock st) - 1\<rparr>\<rparr>
           in (Inr (if ctl_count (ctlBlock st) = 0 then callerCoro (ctlBlock st) else None), st)))"

definition ret_prev_return_value :: "coro option \<Rightarrow> 'v promise \<Rightarrow> 'v promise" where
  "ret_prev_return_value coro p = p\<lparr>prevCoro := coro\<rparr>"

text \<open>The coroutine a detached helper hands control to at its end.\<close>

definition helper_target :: "'v \<Rightarrow> coro option \<Rightarrow> coro option" where
  "helper_target v0 coro = final_suspend (ret_prev_return_value coro ((new_promise v0)\<lparr>detached := True\<rparr>))"

text \<open>
  \<^verbatim>\<open>whenAllAwaiter::await_suspend\<close>: the coroutines are added, \<^verbatim>\<open>runAll\<close> is called, and control goes back
  to the caller.  The functions of \<^verbatim>\<open>loopInstance\<close> are given; they act on the state \<open>w\<close> of everything, of
  which the result tuple and the control block of this call are a part.
\<close>

definition whenAllAwaiter_suspend ::
  "(coro \<Rightarrow> 'l \<Rightarrow> 'l) \<Rightarrow> ('l \<Rightarrow> 'l) \<Rightarrow> coro list \<Rightarrow> coro \<Rightarrow> 'l \<Rightarrow> coro \<times> 'l" where
  "whenAllAwaiter_suspend addTask runAll taskCoros caller w = (caller, runAll (fold addTask taskCoros w))"

text \<open>The tuple starts with default values; the result, the coroutine that goes on, and the state after that.\<close>

definition whenAllImpl ::
  "(coro \<Rightarrow> 'l \<times> 'v when_all \<Rightarrow> 'l \<times> 'v when_all) \<Rightarrow> ('l \<times> 'v when_all \<Rightarrow> 'l \<times> 'v when_all) \<Rightarrow> 'v \<Rightarrow>
     coro list \<Rightarrow> coro \<Rightarrow> 'l \<Rightarrow> coro \<times> 'v list \<times> 'l" where
  "whenAllImpl addTask runAll v0 taskCoros self w =
     (let n = length taskCoros;
          st = \<lparr>ctlBlock = \<lparr>ctl_count = n, callerCoro = Some self\<rparr>, ret_vals = replicate n v0\<rparr>
      in case whenAllAwaiter_suspend addTask runAll taskCoros self (w, st) of
           (target, w, st) \<Rightarrow> (target, ret_vals st, w))"

text \<open>
  Whoever runs the helpers, the last of them does not resume the caller, although it names it: the promise of
  a detached coroutine goes back to nobody.
\<close>

lemma helper_target_none: "helper_target v0 c = None"
  by (simp add: helper_target_def ret_prev_return_value_def final_suspend_def returnPrevAwaiter_suspend_def)

text \<open>The ends of some helpers, in the order in which they happen, with what their tasks gave.\<close>

definition helpers_end :: "(nat \<times> (exc + 'v)) list \<Rightarrow> 'v when_all \<Rightarrow> 'v when_all" where
  "helpers_end ends st = fold (\<lambda>(i, r) st. snd (whenAllHelper i r st)) ends st"

lemma whenAllHelper_values:
  "ret_vals (snd (whenAllHelper j r st)) = (case r of Inl e \<Rightarrow> ret_vals st | Inr v \<Rightarrow> (ret_vals st)[j := v])"
  by (simp add: whenAllHelper_def Let_def split: sum.split)

lemma helpers_end_length [simp]: "length (ret_vals (helpers_end ends st)) = length (ret_vals st)"
  by (induction ends arbitrary: st) (auto simp: helpers_end_def whenAllHelper_values split: sum.split)

lemma helpers_end_value:
  "distinct (map fst ends) \<Longrightarrow> i < length (ret_vals st) \<Longrightarrow>
     ret_vals (helpers_end ends st) ! i = (case map_of ends i of Some (Inr v) \<Rightarrow> v | _ \<Rightarrow> ret_vals st ! i)"
proof (induction ends arbitrary: st)
  case Nil
  then show ?case by (simp add: helpers_end_def)
next
  case (Cons e ends)
  obtain j r where e: "e = (j, r)" by fastforce
  let ?st = "snd (whenAllHelper j r st)"
  have l: "length (ret_vals ?st) = length (ret_vals st)"
    "ret_vals ?st ! i = (if i = j then (case r of Inr v \<Rightarrow> v | Inl x \<Rightarrow> ret_vals st ! i) else ret_vals st ! i)"
    using Cons.prems(2) by (simp_all add: whenAllHelper_values split: sum.split)
  have n: "map_of ends i = None" if "i = j" using Cons.prems(1) that e by (simp add: map_of_eq_None_iff)
  have "helpers_end (e # ends) st = helpers_end ends ?st" by (simp add: helpers_end_def e)
  then have "ret_vals (helpers_end (e # ends) st) ! i = (case map_of ends i of Some (Inr v) \<Rightarrow> v | _ \<Rightarrow> ret_vals ?st ! i)"
    using Cons.IH [of ?st] Cons.prems l(1) by simp
  then show ?case unfolding l(2) using n e by (simp split: option.split sum.split)
qed

text \<open>
  What \<^verbatim>\<open>whenAll\<close> gives depends on which helpers have ended when \<^verbatim>\<open>runAll\<close> returns: the value of a task whose helper has
  ended is in its place, every other place still holds the default value, and the caller goes on in any case.
\<close>

lemma when_all_result:
  assumes "runAll (fold addTask taskCoros (w, st)) = (w', helpers_end ends st)" and "distinct (map fst ends)"
    and "st = \<lparr>ctlBlock = \<lparr>ctl_count = length taskCoros, callerCoro = Some self\<rparr>, ret_vals = replicate (length taskCoros) v0\<rparr>"
  shows "whenAllImpl addTask runAll v0 taskCoros self w =
    (self, map (\<lambda>i. case map_of ends i of Some (Inr v) \<Rightarrow> v | _ \<Rightarrow> v0) [0..<length taskCoros], w')"
proof -
  have "ret_vals (helpers_end ends st) = map (\<lambda>i. case map_of ends i of Some (Inr v) \<Rightarrow> v | _ \<Rightarrow> v0) [0..<length taskCoros]"
    using helpers_end_value [OF assms(2)] assms(3)
    by (intro nth_equalityI) (simp_all split: option.split sum.split)
  then show ?thesis using assms(1,3) by (simp add: whenAllImpl_def whenAllAwaiter_suspend_def)
qed

end
