(* ===== verification/Uring.thy ===== *)
theory Uring
  imports Loop "HOL-Library.Word"
begin

text \<open>
  The io_uring event loop (\<^verbatim>\<open>include/async/Uring.hpp\<close>) and the awaiters that use it
  (\<^verbatim>\<open>include/uring/Socket.hpp\<close>).

  liburing is not part of the repository: the ring is an unknown state \<open>'u\<close> with the operations of
  \<open>uring_ops\<close>, and \<open>ring_laws\<close> states what its manual pages promise of a submission.  The user data
  objects live in the awaiters; the ring only knows their addresses, so they are a store from
  addresses to objects.  A handler that is called makes a new coroutine.
\<close>

subsection \<open>The ring\<close>

datatype request =
    Send int nat "64 word" int            \<comment> \<open>file, buffer, length, flags\<close>
  | Recv int nat "64 word" int
  | MultishotAccept int int               \<comment> \<open>file, flags\<close>

record cqe =
  user_data :: nat
  res :: int
  cqe_flags :: "32 word"

definition IORING_CQE_F_MORE :: "32 word" where "IORING_CQE_F_MORE = 2"

record 'u uring_ops =
  get_sqe :: "'u \<Rightarrow> nat option \<times> 'u"
  sqe_set_data :: "nat \<Rightarrow> nat \<Rightarrow> 'u \<Rightarrow> 'u"
  sqe_prep :: "nat \<Rightarrow> request \<Rightarrow> 'u \<Rightarrow> 'u"
  submit :: "'u \<Rightarrow> 'u"
  peek_cqe :: "'u \<Rightarrow> int \<times> cqe option \<times> 'u"
  cqe_seen :: "cqe \<Rightarrow> 'u \<Rightarrow> 'u"
  submitted :: "'u \<Rightarrow> (request \<times> nat) list"   \<comment> \<open>what the kernel has been given, not called by the code\<close>

text \<open>
  A full submission queue gives no entry and changes nothing; an entry that was got, given its data,
  prepared and submitted reaches the kernel with that data; looking at the completions submits nothing.
  (The data is set before the request is
  prepared: this relies on \<^verbatim>\<open>io_uring_prep_*\<close> leaving the data of the entry alone.)
\<close>

definition ring_laws :: "'u uring_ops \<Rightarrow> bool" where
  "ring_laws U \<longleftrightarrow>
     (\<forall>u rv c u'. peek_cqe U u = (rv, c, u') \<longrightarrow> submitted U u' = submitted U u)
     \<and> (\<forall>u c. submitted U (cqe_seen U c u) = submitted U u)
     \<and> (\<forall>u u'. get_sqe U u = (None, u') \<longrightarrow> submitted U u' = submitted U u)
     \<and> (\<forall>u u' s d r. get_sqe U u = (Some s, u') \<longrightarrow>
          submitted U (submit U (sqe_prep U s r (sqe_set_data U s d u'))) = submitted U u @ [(r, d)])"

subsection \<open>State\<close>

record userData =
  multishot :: bool
  handle :: hnd
  returnVal :: "error_code + int"
  multishotHandler :: nat     \<comment> \<open>which handler\<close>

record 'u uringInstance =
  uring :: 'u
  uringFd :: int
  uring_pool :: threadPool
  heap :: "nat \<Rightarrow> userData"
  next_coro :: hnd
  handler_calls :: "(hnd \<times> nat \<times> int) list"   \<comment> \<open>the coroutines made by handlers: handler and argument\<close>

subsection \<open>Submitting\<close>

text \<open>The three functions differ in the request only.\<close>

definition prep_request ::
  "'u uring_ops \<Rightarrow> request \<Rightarrow> nat \<Rightarrow> 'u uringInstance \<Rightarrow> (error_code + unit) \<times> 'u uringInstance" where
  "prep_request U r usr st =
     (case get_sqe U (uring st) of
        (None, u) \<Rightarrow> (Inl (uring_error SqeBusy), st\<lparr>uring := u\<rparr>)
      | (Some sqe, u) \<Rightarrow>
          (let u = sqe_set_data U sqe usr u;
               u = sqe_prep U sqe r u;
               u = submit U u
           in (Inr (), st\<lparr>uring := u\<rparr>)))"

definition prep_send where
  "prep_send U fd buf len flags usr = prep_request U (Send fd buf len flags) usr"

definition prep_recv where
  "prep_recv U fd buf len flags usr = prep_request U (Recv fd buf len flags) usr"

definition prep_multishot_accept_and_process where
  "prep_multishot_accept_and_process U fd flags usr = prep_request U (MultishotAccept fd flags) usr"

subsection \<open>Awaiters\<close>

text \<open>
  An awaiter is given by the address of its \<^verbatim>\<open>callerData\<close>; the result of
  \<^verbatim>\<open>await_suspend\<close> is whether the coroutine is suspended.
\<close>

definition set_returnVal :: "nat \<Rightarrow> error_code + int \<Rightarrow> 'u uringInstance \<Rightarrow> 'u uringInstance" where
  "set_returnVal d r st = st\<lparr>heap := (heap st)(d := (heap st d)\<lparr>returnVal := r\<rparr>)\<rparr>"

definition suspend_result :: "nat \<Rightarrow> (error_code + unit) \<times> 'u uringInstance \<Rightarrow> bool \<times> 'u uringInstance" where
  "suspend_result d r =
     (case r of
        (Inl e, st) \<Rightarrow> (False, set_returnVal d (Inl e) st)
      | (Inr _, st) \<Rightarrow> (True, st))"

definition sendAwaiter_suspend where
  "sendAwaiter_suspend U fd buf len flags d coro st =
     (let st = st\<lparr>heap := (heap st)(d := (heap st d)\<lparr>handle := coro, multishot := False\<rparr>)\<rparr>
      in suspend_result d (prep_send U fd buf len flags d st))"

definition recvAwaiter_suspend where
  "recvAwaiter_suspend U fd buf len flags d coro st =
     (let st = st\<lparr>heap := (heap st)(d := (heap st d)\<lparr>handle := coro, multishot := False\<rparr>)\<rparr>
      in suspend_result d (prep_recv U fd buf len flags d st))"

definition multishotAcceptAwaiter_suspend where
  "multishotAcceptAwaiter_suspend U fd handler d coro st =
     (let st = st\<lparr>heap := (heap st)(d := (heap st d)\<lparr>handle := coro, multishot := True,
                                                      multishotHandler := handler\<rparr>)\<rparr>
      in suspend_result d (prep_multishot_accept_and_process U fd 0 d st))"

definition await_resume :: "nat \<Rightarrow> 'u uringInstance \<Rightarrow> error_code + int" where
  "await_resume d st = returnVal (heap st d)"

subsection \<open>reapIOs\<close>

definition wake :: "hnd \<Rightarrow> 'u uringInstance \<Rightarrow> 'u uringInstance outcome" where
  "wake h st = outcome_bind (addTask h (uring_pool st)) (\<lambda>p. Returns (st\<lparr>uring_pool := p\<rparr>))"

text \<open>Calling the handler: a new coroutine, detached and added.\<close>

definition call_handler :: "nat \<Rightarrow> int \<Rightarrow> 'u uringInstance \<Rightarrow> 'u uringInstance outcome" where
  "call_handler f v st =
     wake (next_coro st)
       (st\<lparr>next_coro := Suc (next_coro st), handler_calls := handler_calls st @ [(next_coro st, f, v)]\<rparr>)"

definition cqe_result :: "cqe \<Rightarrow> error_code + int" where
  "cqe_result c = (if res c < 0 then Inl (generic_error (- res c)) else Inr (res c))"

definition cqe_more :: "cqe \<Rightarrow> bool" where
  "cqe_more c \<longleftrightarrow> and (cqe_flags c) IORING_CQE_F_MORE \<noteq> 0"

definition process_cqe :: "cqe \<Rightarrow> 'u uringInstance \<Rightarrow> 'u uringInstance outcome" where
  "process_cqe c st =
     (let d = user_data c;
          st = set_returnVal d (cqe_result c) st;
          caller = heap st d
      in if \<not> multishot caller then wake (handle caller) st
         else
           outcome_bind
             (if 0 \<le> res c then call_handler (multishotHandler caller) (res c) st else Returns st)
             (\<lambda>st. if \<not> cqe_more c then wake (handle caller) st else Returns st))"

text \<open>
  One turn of the loop; the flag says that the turn ends with \<^verbatim>\<open>co_await pool.scheduler\<close>.
\<close>

definition reap_turn :: "'u uring_ops \<Rightarrow> 'u uringInstance \<Rightarrow> (bool \<times> 'u uringInstance) outcome" where
  "reap_turn U st =
     (case peek_cqe U (uring st) of
        (rv, c, u) \<Rightarrow>
          (let st = st\<lparr>uring := u\<rparr>
           in if rv < 0 then
                if rv = - EAGAIN then
                  (case c of
                     None \<Rightarrow> Returns (True, st)
                   | Some c \<Rightarrow> Returns (True, st\<lparr>uring := cqe_seen U c (uring st)\<rparr>))
                else Throws (SystemError (generic_error (- rv)))
              else
                (case c of
                   None \<Rightarrow> Returns (True, st)
                 | Some c \<Rightarrow>
                     outcome_bind (process_cqe c st)
                       (\<lambda>st. Returns (False, st\<lparr>uring := cqe_seen U c (uring st)\<rparr>)))))"

text \<open>The loop until it hands control to the scheduler, with a bound on the turns.\<close>

fun reapIOs :: "'u uring_ops \<Rightarrow> nat \<Rightarrow> 'u uringInstance \<Rightarrow> (bool \<times> 'u uringInstance) outcome" where
  "reapIOs U 0 st = Returns (False, st)"
| "reapIOs U (Suc n) st =
     outcome_bind (reap_turn U st) (\<lambda>(yields, st). if yields then Returns (True, st) else reapIOs U n st)"

subsection \<open>asyncAccept\<close>

text \<open>What the loop does with the result of the await: go on or throw.\<close>

definition accept_turn :: "error_code + int \<Rightarrow> unit outcome" where
  "accept_turn acceptRes =
     (case acceptRes of
        Inr _ \<Rightarrow> Returns ()
      | Inl e \<Rightarrow>
          if e = generic_error EWOULDBLOCK \<or> e = generic_error EAGAIN
             \<or> e = uring_error SqeBusy \<or> e = generic_error ECANCELED
          then Returns ()
          else Throws (SystemError e))"

subsection \<open>One completion\<close>

lemma wake_result:
  "pool_inv (uring_pool st) \<Longrightarrow>
     \<exists>p. wake h st = Returns (st\<lparr>uring_pool := p\<rparr>) \<and> pool_inv p \<and> waiting p = add_mset h (waiting (uring_pool st))"
  using tp.add_step [of "uring_pool st" h] by (auto simp: wake_def)

definition terminal :: "(nat \<Rightarrow> userData) \<Rightarrow> cqe \<Rightarrow> bool" where
  "terminal hp c \<longleftrightarrow> \<not> (multishot (hp (user_data c)) \<and> cqe_more c)"

definition accepted :: "(nat \<Rightarrow> userData) \<Rightarrow> cqe \<Rightarrow> bool" where
  "accepted hp c \<longleftrightarrow> multishot (hp (user_data c)) \<and> 0 \<le> res c"

lemma process_cqe_result:
  assumes "pool_inv (uring_pool st)"
  shows "\<exists>p. process_cqe c st = Returns
      ((set_returnVal (user_data c) (cqe_result c) st)\<lparr>uring_pool := p,
         next_coro := next_coro st + (if accepted (heap st) c then 1 else 0),
         handler_calls := handler_calls st @
           (if accepted (heap st) c then [(next_coro st, multishotHandler (heap st (user_data c)), res c)] else [])\<rparr>)
    \<and> pool_inv p
    \<and> waiting p = waiting (uring_pool st)
        + (if accepted (heap st) c then {#next_coro st#} else {#})
        + (if terminal (heap st) c then {#handle (heap st (user_data c))#} else {#})"
proof -
  let ?d = "user_data c"
  let ?s = "set_returnVal ?d (cqe_result c) st"
  have heap: "multishot (heap ?s ?d) = multishot (heap st ?d)" "handle (heap ?s ?d) = handle (heap st ?d)"
    "multishotHandler (heap ?s ?d) = multishotHandler (heap st ?d)" "uring_pool ?s = uring_pool st"
    "next_coro ?s = next_coro st" "handler_calls ?s = handler_calls st"
    by (simp_all add: set_returnVal_def)
  note upd = set_returnVal_def
  show ?thesis
  proof (cases "accepted (heap st) c")
    case False
    obtain p where p: "wake (handle (heap st ?d)) ?s = Returns (?s\<lparr>uring_pool := p\<rparr>)" "pool_inv p"
      "waiting p = add_mset (handle (heap st ?d)) (waiting (uring_pool st))"
      using wake_result [of ?s] assms heap(4) by metis
    show ?thesis
    proof (cases "terminal (heap st) c")
      case True
      with False p heap show ?thesis
        by (intro exI [of _ p]) (auto simp: process_cqe_def Let_def accepted_def terminal_def)
    next
      case final: False
      with False assms heap show ?thesis
        by (intro exI [of _ "uring_pool st"]) (auto simp: process_cqe_def Let_def accepted_def terminal_def upd)
    qed
  next
    case True
    then have m: "multishot (heap st ?d)" "0 \<le> res c" by (simp_all add: accepted_def)
    let ?t = "?s\<lparr>next_coro := Suc (next_coro st),
      handler_calls := handler_calls st @ [(next_coro st, multishotHandler (heap st ?d), res c)]\<rparr>"
    have "pool_inv (uring_pool ?t)" using assms heap(4) by simp
    from wake_result [OF this, of "next_coro st"] obtain p where
      p: "call_handler (multishotHandler (heap st ?d)) (res c) ?s = Returns (?t\<lparr>uring_pool := p\<rparr>)" "pool_inv p"
        "waiting p = add_mset (next_coro st) (waiting (uring_pool st))"
      using heap by (auto simp: call_handler_def)
    show ?thesis
    proof (cases "terminal (heap st) c")
      case False
      with True m p heap show ?thesis
        by (intro exI [of _ p]) (auto simp: process_cqe_def Let_def terminal_def)
    next
      case final: True
      have "pool_inv (uring_pool (?t\<lparr>uring_pool := p\<rparr>))" using p(2) by simp
      from wake_result [OF this, of "handle (heap st ?d)"] obtain p' where
        "wake (handle (heap st ?d)) (?t\<lparr>uring_pool := p\<rparr>) = Returns (?t\<lparr>uring_pool := p'\<rparr>)" "pool_inv p'"
        "waiting p' = add_mset (handle (heap st ?d)) (waiting p)" by auto
      with final True m p heap show ?thesis
        by (intro exI [of _ p']) (auto simp: process_cqe_def Let_def terminal_def upd)
    qed
  qed
qed

subsection \<open>A run of the loop\<close>

text \<open>The ring has the completions \<open>cs\<close> ready, one after the other, and then none.\<close>

fun ring_gives :: "'u uring_ops \<Rightarrow> 'u \<Rightarrow> cqe list \<Rightarrow> bool" where
  "ring_gives U u [] =
     (case peek_cqe U u of
        (rv, None, _) \<Rightarrow> rv = - EAGAIN \<or> 0 \<le> rv
      | _ \<Rightarrow> False)"
| "ring_gives U u (c # cs) =
     (case peek_cqe U u of
        (rv, Some c', u') \<Rightarrow> 0 \<le> rv \<and> c' = c \<and> ring_gives U (cqe_seen U c u') cs
      | _ \<Rightarrow> False)"

text \<open>What a run does, as a function of the completions and of the user data at the start.\<close>

definition woken :: "(nat \<Rightarrow> userData) \<Rightarrow> cqe list \<Rightarrow> hnd list" where
  "woken hp cs = map (\<lambda>c. handle (hp (user_data c))) (filter (terminal hp) cs)"

fun handled :: "(nat \<Rightarrow> userData) \<Rightarrow> hnd \<Rightarrow> cqe list \<Rightarrow> (hnd \<times> nat \<times> int) list" where
  "handled hp n [] = []"
| "handled hp n (c # cs) =
     (if accepted hp c then (n, multishotHandler (hp (user_data c)), res c) # handled hp (Suc n) cs
      else handled hp n cs)"

definition last_result :: "nat \<Rightarrow> cqe list \<Rightarrow> error_code + int \<Rightarrow> error_code + int" where
  "last_result d cs r = fold (\<lambda>c r. if user_data c = d then cqe_result c else r) cs r"

definition same_requests :: "(nat \<Rightarrow> userData) \<Rightarrow> (nat \<Rightarrow> userData) \<Rightarrow> bool" where
  "same_requests hp hp' \<longleftrightarrow> (\<forall>d. multishot (hp' d) = multishot (hp d) \<and> handle (hp' d) = handle (hp d) \<and>
     multishotHandler (hp' d) = multishotHandler (hp d))"

lemma same_requests_facts:
  assumes "same_requests hp hp'"
  shows "terminal hp' = terminal hp" and "accepted hp' = accepted hp" and "woken hp' cs = woken hp cs"
    and "handled hp' n cs = handled hp n cs"
proof -
  show t: "terminal hp' = terminal hp" and a: "accepted hp' = accepted hp"
    using assms by (auto simp: fun_eq_iff terminal_def accepted_def same_requests_def)
  show "woken hp' cs = woken hp cs" using assms by (simp add: woken_def t same_requests_def)
  show "handled hp' n cs = handled hp n cs"
    using assms by (induction cs arbitrary: n) (simp_all add: a same_requests_def)
qed

lemma reapIOs_result:
  assumes "pool_inv (uring_pool st)" and "ring_gives U (uring st) cs"
  shows "\<exists>st'. reapIOs U (Suc (length cs)) st = Returns (True, st') \<and> pool_inv (uring_pool st') \<and>
    waiting (uring_pool st') = waiting (uring_pool st) + mset (woken (heap st) cs) +
      mset (map fst (handled (heap st) (next_coro st) cs)) \<and>
    handler_calls st' = handler_calls st @ handled (heap st) (next_coro st) cs \<and>
    same_requests (heap st) (heap st') \<and>
    (\<forall>d. returnVal (heap st' d) = last_result d cs (returnVal (heap st d)))"
  using assms
proof (induction cs arbitrary: st)
  case Nil
  obtain rv u where "peek_cqe U (uring st) = (rv, None, u)" "rv = - EAGAIN \<or> 0 \<le> rv"
    using Nil.prems(2) by (auto split: prod.splits option.splits)
  then have "reap_turn U st = Returns (True, st\<lparr>uring := u\<rparr>)" by (auto simp: reap_turn_def EAGAIN_def)
  then show ?case using Nil.prems(1)
    by (simp add: woken_def last_result_def same_requests_def)
next
  case (Cons c cs)
  let ?a = "accepted (heap st) c"
  obtain rv u where peek: "peek_cqe U (uring st) = (rv, Some c, u)" "0 \<le> rv"
    and rest: "ring_gives U (cqe_seen U c u) cs"
    using Cons.prems(2) by (auto split: prod.splits option.splits)
  let ?s = "st\<lparr>uring := u\<rparr>"
  have "pool_inv (uring_pool ?s)" using Cons.prems(1) by simp
  from process_cqe_result [OF this, of c] obtain p where
    p: "process_cqe c ?s = Returns ((set_returnVal (user_data c) (cqe_result c) ?s)\<lparr>uring_pool := p,
         next_coro := next_coro st + (if ?a then 1 else 0),
         handler_calls := handler_calls st @
           (if ?a then [(next_coro st, multishotHandler (heap st (user_data c)), res c)] else [])\<rparr>)"
      "pool_inv p" "waiting p = waiting (uring_pool st) + (if ?a then {#next_coro st#} else {#})
        + (if terminal (heap st) c then {#handle (heap st (user_data c))#} else {#})"
    by (auto cong: if_cong)
  let ?st = "(set_returnVal (user_data c) (cqe_result c) ?s)\<lparr>uring_pool := p,
         next_coro := next_coro st + (if ?a then 1 else 0),
         handler_calls := handler_calls st @
           (if ?a then [(next_coro st, multishotHandler (heap st (user_data c)), res c)] else []),
         uring := cqe_seen U c u\<rparr>"
  have turn: "reap_turn U st = Returns (False, ?st)"
    using peek p(1) by (simp add: reap_turn_def set_returnVal_def)
  have same: "same_requests (heap st) (heap ?st)" by (simp add: same_requests_def set_returnVal_def)
  have "pool_inv (uring_pool ?st)" "ring_gives U (uring ?st) cs" using p(2) rest by simp_all
  from Cons.IH [OF this] obtain st' where st':
    "reapIOs U (Suc (length cs)) ?st = Returns (True, st')" "pool_inv (uring_pool st')"
    "waiting (uring_pool st') = waiting p + mset (woken (heap st) cs) +
       mset (map fst (handled (heap st) (next_coro ?st) cs))"
    "handler_calls st' = handler_calls ?st @ handled (heap st) (next_coro ?st) cs"
    "same_requests (heap ?st) (heap st')"
    "\<forall>d. returnVal (heap st' d) = last_result d cs (returnVal (heap ?st d))"
    unfolding same_requests_facts [OF same] by auto
  have "same_requests (heap st) (heap st')" using same st'(5) by (simp add: same_requests_def)
  moreover have "returnVal (heap st' d) = last_result d (c # cs) (returnVal (heap st d))" for d
    using st'(6) by (simp add: last_result_def set_returnVal_def)
  moreover have "waiting (uring_pool st') = waiting (uring_pool st) + mset (woken (heap st) (c # cs)) +
      mset (map fst (handled (heap st) (next_coro st) (c # cs)))"
    using st'(3) p(3) by (simp add: woken_def)
  moreover have "handler_calls st' = handler_calls st @ handled (heap st) (next_coro st) (c # cs)"
    using st'(4) by simp
  ultimately show ?case using turn st'(1,2) by (intro exI [of _ st']) simp
qed

subsection \<open>A concrete ring\<close>

record demo_ring =
  room :: nat
  cur_req :: "request option"
  cur_data :: nat
  subs :: "(request \<times> nat) list"
  cq :: "cqe list"

definition demo_uring :: "demo_ring uring_ops" where
  "demo_uring =
     \<lparr>get_sqe = (\<lambda>u. if room u = 0 then (None, u) else (Some 0, u\<lparr>room := room u - 1\<rparr>)),
      sqe_set_data = (\<lambda>s d u. u\<lparr>cur_data := d\<rparr>),
      sqe_prep = (\<lambda>s r u. u\<lparr>cur_req := Some r\<rparr>),
      submit = (\<lambda>u. u\<lparr>subs := subs u @ [(the (cur_req u), cur_data u)]\<rparr>),
      peek_cqe = (\<lambda>u. case cq u of [] \<Rightarrow> (- EAGAIN, None, u) | c # cs \<Rightarrow> (0, Some c, u)),
      cqe_seen = (\<lambda>c u. u\<lparr>cq := tl (cq u)\<rparr>),
      submitted = subs\<rparr>"

lemma demo_uring_laws: "ring_laws demo_uring"
  by (auto simp: ring_laws_def demo_uring_def split: if_splits list.splits)

definition demo_instance :: "nat \<Rightarrow> cqe list \<Rightarrow> demo_ring uringInstance" where
  "demo_instance n cs =
     \<lparr>uring = \<lparr>room = n, cur_req = None, cur_data = 0, subs = [], cq = cs\<rparr>, uringFd = 4, uring_pool = new_pool 2,
      heap = (\<lambda>d. \<lparr>multishot = (d = 1), handle = d, returnVal = Inr 0, multishotHandler = 7\<rparr>),
      next_coro = 100, handler_calls = []\<rparr>"

definition demo_cqes :: "cqe list" where
  "demo_cqes = [\<lparr>user_data = 1, res = 9, cqe_flags = 2\<rparr>, \<lparr>user_data = 5, res = 3, cqe_flags = 0\<rparr>,
                \<lparr>user_data = 1, res = - 24, cqe_flags = 0\<rparr>]"

lemma demo_cqes_given: "ring_gives demo_uring (uring (demo_instance n demo_cqes)) demo_cqes"
  by (simp add: demo_uring_def demo_instance_def demo_cqes_def)

subsection \<open>What it means for the program\<close>

text \<open>
  C14: every completion is delivered exactly once.  When the ring has the completions \<open>cs\<close> ready, the
  loop processes them all and hands control to the scheduler.  The coroutines added to the pool are
  exactly the caller of each completion that is not an intermediate one of a multishot request, and
  one new coroutine for each successful completion of a multishot request, made by its handler for
  that result; every caller finds the result of its last completion.
\<close>

theorem reap_delivers_once:
  assumes "pool_inv (uring_pool st)" and "ring_gives U (uring st) cs"
  shows "\<exists>st'. reapIOs U (Suc (length cs)) st = Returns (True, st') \<and> pool_inv (uring_pool st') \<and>
    waiting (uring_pool st') = waiting (uring_pool st) + mset (woken (heap st) cs) +
      mset (map fst (handled (heap st) (next_coro st) cs)) \<and>
    handler_calls st' = handler_calls st @ handled (heap st) (next_coro st) cs \<and>
    (\<forall>d. returnVal (heap st' d) = last_result d cs (returnVal (heap st d)))"
  using reapIOs_result [OF assms] by blast

theorem reap_delivers_once_witness:
  "\<exists>st'. reapIOs demo_uring 4 (demo_instance 8 demo_cqes) = Returns (True, st') \<and>
     waiting (uring_pool st') = {#1, 5, 100#} \<and> handler_calls st' = [(100, 7, 9)] \<and>
     returnVal (heap st' 1) = Inl (generic_error EMFILE) \<and> returnVal (heap st' 5) = Inr 3"
proof -
  have "pool_inv (uring_pool (demo_instance 8 demo_cqes))" by (simp add: demo_instance_def pool_inv_new)
  from reap_delivers_once [OF this demo_cqes_given]
  obtain st' where st': "reapIOs demo_uring (Suc (length demo_cqes)) (demo_instance 8 demo_cqes) = Returns (True, st')"
    "waiting (uring_pool st') = waiting (new_pool 2) + mset (woken (heap (demo_instance 8 demo_cqes)) demo_cqes) +
       mset (map fst (handled (heap (demo_instance 8 demo_cqes)) 100 demo_cqes))"
    "handler_calls st' = handled (heap (demo_instance 8 demo_cqes)) 100 demo_cqes"
    "\<forall>d. returnVal (heap st' d) = last_result d demo_cqes (Inr 0)"
    by (auto simp: demo_instance_def)
  have h: "handled (heap (demo_instance 8 demo_cqes)) 100 demo_cqes = [(100, 7, 9)]"
    by (simp add: demo_instance_def demo_cqes_def accepted_def)
  have w: "woken (heap (demo_instance 8 demo_cqes)) demo_cqes = [5, 1]"
    by (simp add: demo_instance_def demo_cqes_def woken_def terminal_def cqe_more_def IORING_CQE_F_MORE_def)
  have n: "waiting (new_pool 2) = {#}" by (simp add: waiting_def new_pool_def numeral_2_eq_2)
  have "waiting (uring_pool st') = {#1, 5, 100#}" using st'(2) unfolding h w n by simp
  moreover have "handler_calls st' = [(100, 7, 9)]" using st'(3) unfolding h .
  moreover have "last_result 1 demo_cqes (Inr 0) = Inl (generic_error EMFILE)" "last_result 5 demo_cqes (Inr 0) = Inr 3"
    by (simp_all add: demo_cqes_def last_result_def cqe_result_def EMFILE_def)
  moreover have "Suc (length demo_cqes) = 4" by (simp add: demo_cqes_def)
  ultimately show ?thesis using st'(1,4) by metis
qed

lemma last_result_filter: "last_result d cs r = last_result d (filter (\<lambda>c. user_data c = d) cs) r"
  by (induction cs arbitrary: r) (simp_all add: last_result_def)

text \<open>
  An awaited send.  When \<^verbatim>\<open>await_suspend\<close> suspends the coroutine, exactly this request
  has been given to the kernel, with the address of the caller's data; and when the loop later reaps
  its one completion, among any others, the coroutine is added to the pool and the await returns the
  result of that completion: the number of bytes, or the error as a generic error code.
\<close>

lemma send_completion:
  assumes "ring_laws U" and "pool_inv (uring_pool st)"
    and "sendAwaiter_suspend U fd buf len flags d h st = (True, st1)"
    and "ring_gives U (uring st1) cs" and "filter (\<lambda>c. user_data c = d) cs = [c]"
  shows "submitted U (uring st1) = submitted U (uring st) @ [(Send fd buf len flags, d)] \<and>
    (\<exists>st2. reapIOs U (Suc (length cs)) st1 = Returns (True, st2) \<and> h \<in># waiting (uring_pool st2) \<and>
       await_resume d st2 = (if res c < 0 then Inl (generic_error (- res c)) else Inr (res c)))"
proof -
  obtain s u where g: "get_sqe U (uring st) = (Some s, u)"
    and st1: "st1 = st\<lparr>heap := (heap st)(d := (heap st d)\<lparr>handle := h, multishot := False\<rparr>),
      uring := submit U (sqe_prep U s (Send fd buf len flags) (sqe_set_data U s d u))\<rparr>"
    using assms(3)
    by (auto simp: sendAwaiter_suspend_def suspend_result_def prep_send_def prep_request_def Let_def
        split: prod.splits option.splits)
  have sub: "submitted U (uring st1) = submitted U (uring st) @ [(Send fd buf len flags, d)]"
    using assms(1) g by (simp add: ring_laws_def st1)
  have "pool_inv (uring_pool st1)" using assms(2) by (simp add: st1)
  from reapIOs_result [OF this assms(4)] obtain st2 where r:
    "reapIOs U (Suc (length cs)) st1 = Returns (True, st2)"
    "waiting (uring_pool st2) = waiting (uring_pool st1) + mset (woken (heap st1) cs) +
      mset (map fst (handled (heap st1) (next_coro st1) cs))"
    "\<forall>d. returnVal (heap st2 d) = last_result d cs (returnVal (heap st1 d))" by blast
  have "c \<in> set cs" "user_data c = d" using assms(5) filter_eq_ConsD [OF assms(5)] by auto
  then have "h \<in> set (woken (heap st1) cs)"
    by (force simp: woken_def terminal_def st1)
  moreover have "last_result d cs x = cqe_result c" for x
    using last_result_filter [of d cs x] assms(5) \<open>user_data c = d\<close> by (simp add: last_result_def)
  ultimately show ?thesis using sub r by (simp add: await_resume_def cqe_result_def)
qed

text \<open>
  A full submission queue.  When an awaiter does not suspend its coroutine, nothing was submitted,
  the pool is untouched and the await returns \<^verbatim>\<open>sqeBusy\<close> at once.
\<close>

lemma full_ring_is_busy:
  assumes "ring_laws U"
    and "sendAwaiter_suspend U fd buf len flags d h st = (False, st1) \<or>
      recvAwaiter_suspend U fd buf len flags d h st = (False, st1) \<or>
      multishotAcceptAwaiter_suspend U fd f d h st = (False, st1)"
  shows "submitted U (uring st1) = submitted U (uring st) \<and> uring_pool st1 = uring_pool st \<and>
    await_resume d st1 = Inl (uring_error SqeBusy)"
proof -
  obtain u where "get_sqe U (uring st) = (None, u)" and "uring st1 = u" and "uring_pool st1 = uring_pool st"
    and "await_resume d st1 = Inl (uring_error SqeBusy)"
    using assms(2)
    by (auto simp: sendAwaiter_suspend_def recvAwaiter_suspend_def multishotAcceptAwaiter_suspend_def
        suspend_result_def prep_send_def prep_recv_def prep_multishot_accept_and_process_def
        prep_request_def set_returnVal_def await_resume_def Let_def split: prod.splits option.splits)
  then show ?thesis using assms(1) by (auto simp: ring_laws_def)
qed

text \<open>
  What ends the accept loop.  After the last completion of an accept request the loop asks again
  if the result was a connection, \<^verbatim>\<open>EAGAIN\<close> or \<^verbatim>\<open>ECANCELED\<close>; every other error, among
  them \<^verbatim>\<open>EMFILE\<close> when the descriptors have run out, is thrown.
\<close>

lemma accept_turn_results:
  "accept_turn (cqe_result c) =
     (if 0 \<le> res c \<or> res c = - EAGAIN \<or> res c = - ECANCELED then Returns ()
      else Throws (SystemError (generic_error (- res c))))"
  by (auto simp: accept_turn_def cqe_result_def EAGAIN_def EWOULDBLOCK_def ECANCELED_def generic_error_def
      uring_error_def)

end
