(* ===== verification/Epoll.thy ===== *)
theory Epoll
  imports Loop "HOL-Library.Word"
begin

text \<open>
  The epoll event loop (\<^verbatim>\<open>include/async/Epoll.hpp\<close>).

  The kernel is an unknown state \<open>'w\<close> with the three system calls.  An event carries in
  \<^verbatim>\<open>data.ptr\<close> the address of the coroutine to schedule.
\<close>

subsection \<open>The kernel\<close>

record epoll_event =
  events :: "32 word"
  data_ptr :: hnd

datatype epoll_op = EPOLL_CTL_ADD | EPOLL_CTL_MOD | EPOLL_CTL_DEL

definition EPOLLIN :: "32 word" where "EPOLLIN = 0x001"
definition EPOLLRDHUP :: "32 word" where "EPOLLRDHUP = 0x2000"
definition EPOLLET :: "32 word" where "EPOLLET = 0x80000000"

record 'w epoll_os =
  epoll_create1 :: "'w \<Rightarrow> sysret \<times> 'w"
  epoll_ctl :: "int \<Rightarrow> epoll_op \<Rightarrow> int \<Rightarrow> epoll_event option \<Rightarrow> 'w \<Rightarrow> sysret \<times> 'w"
  epoll_wait :: "int \<Rightarrow> nat \<Rightarrow> int \<Rightarrow> 'w \<Rightarrow> sysret \<times> epoll_event list \<times> 'w"

subsection \<open>epollInstance\<close>

record epollInstance =
  epfd :: int

text \<open>The constructor throws when no descriptor is given.\<close>

definition epollInstance_ctor :: "'w epoll_os \<Rightarrow> 'w \<Rightarrow> (exc + epollInstance) \<times> 'w" where
  "epollInstance_ctor E w =
     (case epoll_create1 E w of
        (r, w) \<Rightarrow>
          (case or_throw (checkError r) of
             Inl e \<Rightarrow> (Inl e, w)
           | Inr n \<Rightarrow> (Inr \<lparr>epfd = n\<rparr>, w)))"

definition addEvent where
  "addEvent E ep fd event w = map_prod checkError id (epoll_ctl E (epfd ep) EPOLL_CTL_ADD fd (Some event) w)"

definition modifyEvent where
  "modifyEvent E ep fd event w = map_prod checkError id (epoll_ctl E (epfd ep) EPOLL_CTL_MOD fd (Some event) w)"

definition deleteEvent where
  "deleteEvent E ep fd w = map_prod checkError id (epoll_ctl E (epfd ep) EPOLL_CTL_DEL fd None w)"

definition maxevents :: nat where "maxevents = 128"

text \<open>
  One turn of the loop of \<^verbatim>\<open>epollWaitEvent\<close>, up to \<^verbatim>\<open>co_await pool.scheduler\<close>.  The range
  \<^verbatim>\<open>iota(0, fds)\<close> requires \<open>0 \<le> fds\<close>; an event the kernel did not write is not initialised.
\<close>

definition epollWaitEvent_turn ::
  "'w epoll_os \<Rightarrow> epollInstance \<Rightarrow> int \<Rightarrow> threadPool \<Rightarrow> 'w \<Rightarrow> threadPool outcome \<times> 'w" where
  "epollWaitEvent_turn E ep timeout p w =
     (case epoll_wait E (epfd ep) maxevents timeout w of
        (r, evs, w) \<Rightarrow>
          (let fds = ret r
           in if fds < 0 then (Undefined, w)
              else if length evs < nat fds then (Undefined, w)
              else (addTasks (map data_ptr (take (nat fds) evs)) p, w)))"

text \<open>
  What the coroutine does when it is resumed: a turn, after which it gives way.  \<open>self\<close> is its own handle, which
  \<^verbatim>\<open>co_await pool.scheduler\<close> adds to the pool again.
\<close>

definition epollWaitEvent ::
  "'w epoll_os \<Rightarrow> epollInstance \<Rightarrow> int \<Rightarrow> hnd \<Rightarrow> threadPool \<Rightarrow> 'w \<Rightarrow> threadPool outcome \<times> 'w" where
  "epollWaitEvent E ep timeout self p w =
     (case epollWaitEvent_turn E ep timeout p w of
        (r, w) \<Rightarrow> (outcome_bind r (await_scheduler self), w))"

lemma epoll_turn_result:
  assumes "pool_inv p" and "epoll_wait E (epfd ep) maxevents timeout w = (r, buf, w')"
    and "ret r = int (length evs)" and "take (length evs) buf = evs"
  shows "\<exists>p'. epollWaitEvent_turn E ep timeout p w = (Returns p', w') \<and> pool_inv p' \<and>
    waiting p' = waiting p + mset (map data_ptr evs)"
proof -
  have "length evs \<le> length buf" by (metis assms(4) length_take min.cobounded1)
  then show ?thesis
    using addTasks_result [OF assms(1), of "map data_ptr evs"] assms(2-4)
    by (simp add: epollWaitEvent_turn_def Let_def)
qed

subsection \<open>The loop and the pool\<close>

text \<open>
  The loop next to the workers that take tasks, its own among them, and to coroutines that add tasks.
\<close>

record 'w eloop =
  el_pool :: threadPool
  el_world :: 'w
  el_running :: bool           \<comment> \<open>a worker has taken the loop's coroutine and not yet resumed it\<close>
  el_turns :: nat
  el_reported :: "hnd list"    \<comment> \<open>of the events that the kernel reported\<close>
  el_added :: "hnd multiset"   \<comment> \<open>by others\<close>
  el_taken :: "hnd multiset"   \<comment> \<open>by the workers\<close>

inductive eloop_step :: "'w epoll_os \<Rightarrow> epollInstance \<Rightarrow> int \<Rightarrow> hnd \<Rightarrow> 'w eloop \<Rightarrow> 'w eloop \<Rightarrow> bool"
  for E ep timeout self where
  el_resumed:
    "\<lbrakk>el_running s; epoll_wait E (epfd ep) maxevents timeout (el_world s) = (r, evs, w);
      epollWaitEvent E ep timeout self (el_pool s) (el_world s) = (Returns p, w)\<rbrakk> \<Longrightarrow>
     eloop_step E ep timeout self s
       (s\<lparr>el_pool := p, el_world := w, el_running := False, el_turns := Suc (el_turns s),
          el_reported := el_reported s @ map data_ptr (take (nat (ret r)) evs)\<rparr>)"
| el_takes:
    "\<lbrakk>i < length (queueList (el_pool s)); popTask i (el_pool s) = Some (h, p)\<rbrakk> \<Longrightarrow>
     eloop_step E ep timeout self s
       (s\<lparr>el_pool := p, el_running := (el_running s \<or> h = self), el_taken := add_mset h (el_taken s)\<rparr>)"
| el_adds:
    "addTask h (el_pool s) = Returns p \<Longrightarrow>
     eloop_step E ep timeout self s (s\<lparr>el_pool := p, el_added := add_mset h (el_added s)\<rparr>)"
| el_outside: "eloop_step E ep timeout self s (s\<lparr>el_world := w\<rparr>)"

text \<open>The coroutine of the loop has been taken for the first time.\<close>

definition eloop_start :: "threadPool \<Rightarrow> 'w \<Rightarrow> 'w eloop" where
  "eloop_start p w = \<lparr>el_pool = p, el_world = w, el_running = True, el_turns = 0, el_reported = [],
     el_added = {#}, el_taken = {#}\<rparr>"

lemma epollWaitEvent_result:
  assumes "pool_inv p" and "epoll_wait E (epfd ep) maxevents timeout w = (r, evs, w')"
    and "0 \<le> ret r" and "nat (ret r) \<le> length evs"
  shows "\<exists>p'. epollWaitEvent E ep timeout self p w = (Returns p', w') \<and> pool_inv p' \<and>
    waiting p' = add_mset self (waiting p + mset (map data_ptr (take (nat (ret r)) evs)))"
proof -
  from epoll_turn_result [OF assms(1,2), of "take (nat (ret r)) evs"] assms(3,4) obtain p1 where
    p1: "epollWaitEvent_turn E ep timeout p w = (Returns p1, w')" "pool_inv p1"
      "waiting p1 = waiting p + mset (map data_ptr (take (nat (ret r)) evs))" by auto
  from tp.add_step [OF p1(2), of self] obtain p2 where
    "addTask self p1 = Returns p2" "pool_inv p2" "waiting p2 = add_mset self (waiting p1)" by blast
  then show ?thesis using p1(1,3) by (simp add: epollWaitEvent_def await_scheduler_def schedule_ready_def schedule_suspend_def)
qed

lemma epollWaitEvent_returns:
  assumes "epoll_wait E (epfd ep) maxevents timeout w = (r, evs, w')" and "epollWaitEvent E ep timeout self p w = (Returns p', w')"
  shows "0 \<le> ret r \<and> nat (ret r) \<le> length evs"
  using assms by (auto simp: epollWaitEvent_def epollWaitEvent_turn_def Let_def split: if_splits)

definition eloop_inv :: "threadPool \<Rightarrow> hnd \<Rightarrow> 'w eloop \<Rightarrow> bool" where
  "eloop_inv p0 self s \<longleftrightarrow>
     pool_inv (el_pool s)
     \<and> waiting (el_pool s) + el_taken s =
         waiting p0 + mset (el_reported s) + el_added s + replicate_mset (el_turns s) self
     \<and> (el_running s \<or> self \<in># waiting (el_pool s))"

lemma eloop_inv_step:
  assumes inv: "eloop_inv p0 self s" and step: "eloop_step E ep timeout self s t"
  shows "eloop_inv p0 self t"
proof -
  have p: "pool_inv (el_pool s)"
    and w: "waiting (el_pool s) + el_taken s =
      waiting p0 + mset (el_reported s) + el_added s + replicate_mset (el_turns s) self"
    and self: "el_running s \<or> self \<in># waiting (el_pool s)"
    using inv by (simp_all add: eloop_inv_def)
  from step show ?thesis
  proof cases
    case (el_resumed r evs w' q)
    from epollWaitEvent_returns [OF el_resumed(3,4)] have n: "0 \<le> ret r" "nat (ret r) \<le> length evs" by simp_all
    have "pool_inv q \<and> waiting q = add_mset self (waiting (el_pool s) + mset (map data_ptr (take (nat (ret r)) evs)))"
      using epollWaitEvent_result [OF p el_resumed(3) n, of self] el_resumed(4) by auto
    then show ?thesis using w el_resumed(1) by (simp add: eloop_inv_def ac_simps)
  next
    case (el_takes i h q)
    have "pool_inv q \<and> waiting (el_pool s) = add_mset h (waiting q)"
      using popTask_inv [OF p el_takes(2,3)] by blast
    then show ?thesis using w self el_takes(1) by (auto simp: eloop_inv_def)
  next
    case (el_adds h q)
    have "pool_inv q" "waiting q = add_mset h (waiting (el_pool s))"
      using tp.add_invar [OF p el_adds(2)] tp.add_pending [OF p el_adds(2)] by simp_all
    then show ?thesis using w self el_adds(1) by (auto simp: eloop_inv_def ac_simps)
  next
    case (el_outside w')
    then show ?thesis using inv by (simp add: eloop_inv_def)
  qed
qed

lemma eloop_inv_start: "pool_inv p \<Longrightarrow> eloop_inv p self (eloop_start p w)"
  by (simp add: eloop_inv_def eloop_start_def)

lemma eloop_inv_run:
  "(eloop_step E ep timeout self)\<^sup>*\<^sup>* (eloop_start p w) s \<Longrightarrow> pool_inv p \<Longrightarrow> eloop_inv p self s"
  by (induction rule: rtranclp_induct) (auto simp: eloop_inv_start intro: eloop_inv_step)

text \<open>
  C29: every event schedules its coroutine exactly once, and the loop goes on.  Whatever the workers take and
  others add meanwhile, the tasks that wait and those that were taken are together those that waited at the start,
  one for each event the kernel reported, those that others added, and the loop's own coroutine once for each of its
  turns; that coroutine is always taken or waiting; and when it is resumed its turn ends, if the kernel reports
  no error.
\<close>

theorem epoll_delivers_once:
  assumes "pool_inv p" and "(eloop_step E ep timeout self)\<^sup>*\<^sup>* (eloop_start p w) s"
  shows "waiting (el_pool s) + el_taken s =
      waiting p + mset (el_reported s) + el_added s + replicate_mset (el_turns s) self
    \<and> (el_running s \<or> self \<in># waiting (el_pool s))
    \<and> (\<forall>r evs w'. epoll_wait E (epfd ep) maxevents timeout (el_world s) = (r, evs, w') \<longrightarrow> 0 \<le> ret r \<longrightarrow>
         nat (ret r) \<le> length evs \<longrightarrow> (\<exists>p'. epollWaitEvent E ep timeout self (el_pool s) (el_world s) = (Returns p', w')))"
proof -
  have i: "eloop_inv p self s" by (rule eloop_inv_run [OF assms(2,1)])
  then have "pool_inv (el_pool s)" by (simp add: eloop_inv_def)
  note r = epollWaitEvent_result [OF this]
  have "\<exists>p'. epollWaitEvent E ep timeout self (el_pool s) (el_world s) = (Returns p', w')"
    if "epoll_wait E (epfd ep) maxevents timeout (el_world s) = (r, evs, w')" "0 \<le> ret r" "nat (ret r) \<le> length evs"
    for r evs w' using r [OF that, of self] by blast
  then show ?thesis using i by (simp add: eloop_inv_def)
qed

text \<open>
  A failing wait.  When \<^verbatim>\<open>epoll_wait\<close> fails, for instance because a signal interrupts it, the loop does not look
  at the error: it builds the range \<^verbatim>\<open>iota(0, -1)\<close>, which is undefined.
\<close>

lemma failed_wait_is_undefined:
  "ret (fst (epoll_wait E (epfd ep) maxevents timeout w)) = -1 \<Longrightarrow>
     fst (epollWaitEvent E ep timeout self p w) = Undefined"
  by (auto simp: epollWaitEvent_def epollWaitEvent_turn_def split: prod.splits)

text \<open>A kernel that reports the lists of events of its state.\<close>

definition demo_epoll :: "(sysret \<times> epoll_event list) list epoll_os" where
  "demo_epoll =
     \<lparr>epoll_create1 = (\<lambda>w. (\<lparr>ret = 3, errno = 0\<rparr>, w)),
      epoll_ctl = (\<lambda>n operation fd ev w. (\<lparr>ret = 0, errno = 0\<rparr>, w)),
      epoll_wait = (\<lambda>n k timeout w. case w of [] \<Rightarrow> (\<lparr>ret = -1, errno = 4\<rparr>, [], []) | (r, evs) # w \<Rightarrow> (r, evs, w))\<rparr>"

theorem epoll_delivers_once_witness:
  "\<exists>s. (eloop_step demo_epoll \<lparr>epfd = 3\<rparr> 100 9)\<^sup>*\<^sup>*
      (eloop_start (new_pool 2) [(\<lparr>ret = 2, errno = 0\<rparr>, [\<lparr>events = 1, data_ptr = 5\<rparr>, \<lparr>events = 1, data_ptr = 6\<rparr>])]) s
    \<and> el_turns s = 1 \<and> waiting (el_pool s) + el_taken s = {#5, 6, 9#} \<and> 9 \<in># waiting (el_pool s)"
proof -
  let ?evs = "[\<lparr>events = 1, data_ptr = 5\<rparr>, \<lparr>events = 1, data_ptr = 6\<rparr>] :: epoll_event list"
  let ?w = "[(\<lparr>ret = 2, errno = 0\<rparr>, ?evs)]"
  let ?s = "eloop_start (new_pool 2) ?w"
  have p: "pool_inv (new_pool 2)" by (simp add: pool_inv_new)
  have e: "epoll_wait demo_epoll (epfd \<lparr>epfd = 3\<rparr>) maxevents 100 (el_world ?s) = (\<lparr>ret = 2, errno = 0\<rparr>, ?evs, [])"
    by (simp add: demo_epoll_def eloop_start_def)
  obtain q where q: "epollWaitEvent demo_epoll \<lparr>epfd = 3\<rparr> 100 9 (el_pool ?s) (el_world ?s) = (Returns q, [])"
    using epollWaitEvent_result [of "el_pool ?s", OF _ e, of 9] p by (auto simp: eloop_start_def)
  let ?t = "?s\<lparr>el_pool := q, el_world := [], el_running := False, el_turns := Suc (el_turns ?s),
      el_reported := el_reported ?s @ map data_ptr (take (nat (ret \<lparr>ret = 2, errno = 0\<rparr>)) ?evs)\<rparr>"
  have "eloop_step demo_epoll \<lparr>epfd = 3\<rparr> 100 9 ?s ?t"
    using e q by (intro el_resumed) (simp_all add: eloop_start_def)
  then have r: "(eloop_step demo_epoll \<lparr>epfd = 3\<rparr> 100 9)\<^sup>*\<^sup>* ?s ?t" by (rule r_into_rtranclp)
  from epoll_delivers_once [OF p r] have "waiting (el_pool ?t) + el_taken ?t = {#5, 6, 9#}" "9 \<in># waiting (el_pool ?t)"
    by (simp_all add: eloop_start_def waiting_def new_pool_def numeral_2_eq_2)
  with r show ?thesis by (intro exI [of _ ?t]) (simp add: eloop_start_def)
qed

end
