(* ===== verification/Sockets.thy ===== *)
theory Sockets
  imports Epoll
begin

text \<open>
  Sockets and the accept loop (\<^verbatim>\<open>include/http/Socket.hpp\<close>; the move operations are also those of
  \<^verbatim>\<open>asyncSocket\<close> in \<^verbatim>\<open>include/uring/Socket.hpp\<close>).

  The system calls are operations on an unknown state \<open>'w\<close> of the outside world, added to those of
  the epoll instance.  The laws say which calls open and close descriptors, which allocate and free
  address lists, and which change the interest list of the epoll instance.
\<close>

subsection \<open>System calls\<close>

datatype io_call =
    IoRead nat int            \<comment> \<open>buffer, size\<close>
  | IoWrite nat int
  | IoRecv nat int
  | IoSend nat int
  | IoSendfile int nat nat    \<comment> \<open>file, offset, count\<close>

record 'w net_os = "'w epoll_os" +
  sys_getaddrinfo :: "string \<Rightarrow> 'w \<Rightarrow> sysret \<times> nat \<times> 'w"
  sys_freeaddrinfo :: "nat \<Rightarrow> 'w \<Rightarrow> 'w"
  sys_socket :: "nat \<Rightarrow> 'w \<Rightarrow> sysret \<times> 'w"
  sys_setsockopt :: "int \<Rightarrow> int \<Rightarrow> int \<Rightarrow> 'w \<Rightarrow> sysret \<times> 'w"
  sys_set_nonblock :: "int \<Rightarrow> 'w \<Rightarrow> sysret \<times> 'w"
  sys_bind :: "int \<Rightarrow> nat \<Rightarrow> 'w \<Rightarrow> sysret \<times> 'w"
  sys_listen :: "int \<Rightarrow> int \<Rightarrow> 'w \<Rightarrow> sysret \<times> 'w"
  sys_accept :: "int \<Rightarrow> 'w \<Rightarrow> sysret \<times> 'w"
  sys_close :: "int \<Rightarrow> 'w \<Rightarrow> 'w"
  sys_io :: "io_call \<Rightarrow> int \<Rightarrow> 'w \<Rightarrow> sysret \<times> 'w"

subsection \<open>socketBase\<close>

record socketBase =
  fd :: int

definition new_socketBase :: socketBase where
  "new_socketBase = \<lparr>fd = -1\<rparr>"

definition socketBase_destroy :: "('w, 'z) net_os_scheme \<Rightarrow> socketBase \<Rightarrow> 'w \<Rightarrow> 'w" where
  "socketBase_destroy N s w = (if 0 \<le> fd s then sys_close N (fd s) w else w)"

text \<open>The new object and what is left of the other one.\<close>

definition socketBase_move :: "socketBase \<Rightarrow> socketBase \<times> socketBase" where
  "socketBase_move other = (\<lparr>fd = fd other\<rparr>, other\<lparr>fd := -1\<rparr>)"

definition socketBase_assign :: "socketBase \<Rightarrow> socketBase \<Rightarrow> socketBase \<times> socketBase" where
  "socketBase_assign this other = (this\<lparr>fd := fd other\<rparr>, other\<lparr>fd := -1\<rparr>)"

subsection \<open>serverSocket\<close>

definition SO_REUSEADDR :: int where "SO_REUSEADDR = 2"
definition SO_REUSEPORT :: int where "SO_REUSEPORT = 15"

text \<open>
  When the constructor throws, the base object is destroyed, which closes its descriptor.
\<close>

definition serverSocket_ctor ::
  "('w, 'z) net_os_scheme \<Rightarrow> string \<Rightarrow> 'w \<Rightarrow> (exc + socketBase) \<times> 'w" where
  "serverSocket_ctor N port w =
     (case sys_getaddrinfo N port w of
        (r, addrs, w) \<Rightarrow>
          (case or_throw (checkError r) of
             Inl e \<Rightarrow> (Inl e, socketBase_destroy N new_socketBase w)
           | Inr _ \<Rightarrow>
               (case sys_socket N addrs w of
                  (r, w) \<Rightarrow>
                    (case or_throw (checkError r) of
                       Inl e \<Rightarrow> (Inl e, socketBase_destroy N new_socketBase w)
                     | Inr n \<Rightarrow>
                         (let s = \<lparr>fd = n\<rparr>;
                              (_, w) = sys_setsockopt N n (or SO_REUSEADDR SO_REUSEPORT) 1 w;
                              (r, w) = sys_set_nonblock N n w
                          in case or_throw (checkError r) of
                               Inl e \<Rightarrow> (Inl e, socketBase_destroy N s w)
                             | Inr _ \<Rightarrow>
                                 (case sys_bind N n addrs w of
                                    (r, w) \<Rightarrow>
                                      (case or_throw (checkError r) of
                                         Inl e \<Rightarrow> (Inl e, socketBase_destroy N s w)
                                       | Inr _ \<Rightarrow> (Inr s, sys_freeaddrinfo N addrs w))))))))"

definition serverSocket_listen ::
  "('w, 'z) net_os_scheme \<Rightarrow> int \<Rightarrow> socketBase \<Rightarrow> 'w \<Rightarrow> (exc + int) \<times> 'w" where
  "serverSocket_listen N backlog s w =
     (case sys_listen N (fd s) backlog w of (r, w) \<Rightarrow> (or_throw (checkError r), w))"

lemma reuse_option: "or SO_REUSEADDR SO_REUSEPORT = SO_REUSEPORT"
  by (simp add: SO_REUSEADDR_def SO_REUSEPORT_def)

subsection \<open>reactorSocket\<close>

definition reactorSocket_ctor ::
  "('w, 'z) net_os_scheme \<Rightarrow> int \<Rightarrow> 'w \<Rightarrow> (exc + socketBase) \<times> 'w" where
  "reactorSocket_ctor N n w =
     (case sys_set_nonblock N n w of
        (r, w) \<Rightarrow>
          (case or_throw (checkError r) of
             Inl e \<Rightarrow> (Inl e, socketBase_destroy N \<lparr>fd = n\<rparr> w)
           | Inr _ \<Rightarrow> (Inr \<lparr>fd = n\<rparr>, w)))"

definition checked_io ::
  "('w, 'z) net_os_scheme \<Rightarrow> socketError \<Rightarrow> io_call \<Rightarrow> socketBase \<Rightarrow> 'w \<Rightarrow> (error_code + int) \<times> 'w" where
  "checked_io N err c s w =
     (if fd s < 0 then (Inl (socket_error err), w)
      else case sys_io N c (fd s) w of (r, w) \<Rightarrow> (checkError r, w))"

definition reactorSocket_read where
  "reactorSocket_read N buffer n s w = checked_io N ReadError (IoRead buffer n) s w"

definition reactorSocket_write where
  "reactorSocket_write N buffer n s w = checked_io N WriteError (IoWrite buffer n) s w"

definition reactorSocket_recv where
  "reactorSocket_recv N buffer n s w = checked_io N RecvError (IoRecv buffer n) s w"

definition reactorSocket_send where
  "reactorSocket_send N buffer n s w = checked_io N SendError (IoSend buffer n) s w"

definition reactorSocket_sendfile where
  "reactorSocket_sendfile N in_fd offset n s w = checked_io N SendError (IoSendfile in_fd offset n) s w"

subsection \<open>acceptAll\<close>

text \<open>
  The handler makes a new coroutine for the client; \<open>handlers\<close> lists the coroutines and their client
  descriptors.
\<close>

record 'w acceptor =
  world :: 'w
  next_handler :: hnd
  handlers :: "(hnd \<times> int) list"

datatype accept_end = AcceptSuspended | AcceptThrows exc | AcceptTerminates

definition client_events :: "32 word" where
  "client_events = or (or EPOLLIN EPOLLRDHUP) EPOLLET"

text \<open>One turn of the loop; \<open>None\<close> means that the loop goes on.\<close>

definition acceptAll_turn ::
  "('w, 'z) net_os_scheme \<Rightarrow> epollInstance \<Rightarrow> socketBase \<Rightarrow> 'w acceptor \<Rightarrow> accept_end option \<times> 'w acceptor" where
  "acceptAll_turn N ep server st =
     (case sys_accept N (fd server) (world st) of
        (r, w) \<Rightarrow>
          if ret r < 0 then
            (if errno r = EAGAIN \<or> errno r = EWOULDBLOCK \<or> errno r = EMFILE \<or> errno r = ENFILE
             then (Some AcceptSuspended, st\<lparr>world := w\<rparr>)
             else (Some (AcceptThrows (SystemError (system_error_code (errno r)))), st\<lparr>world := w\<rparr>))
          else
            (case reactorSocket_ctor N (ret r) w of
               (Inl e, w) \<Rightarrow> (Some (AcceptThrows e), st\<lparr>world := w\<rparr>)
             | (Inr client, w) \<Rightarrow>
                 (let task = next_handler st;
                      event = \<lparr>events = client_events, data_ptr = task\<rparr>;
                      (added, w) = addEvent N ep (ret r) event w;
                      st = st\<lparr>world := w, next_handler := Suc task, handlers := handlers st @ [(task, ret r)]\<rparr>
                  in (case added of
                        Inl _ \<Rightarrow> (Some AcceptTerminates, st)
                      | Inr _ \<Rightarrow> (None, st)))))"

fun acceptAll ::
  "('w, 'z) net_os_scheme \<Rightarrow> epollInstance \<Rightarrow> socketBase \<Rightarrow> nat \<Rightarrow> 'w acceptor \<Rightarrow> accept_end option \<times> 'w acceptor" where
  "acceptAll N ep server 0 st = (None, st)"
| "acceptAll N ep server (Suc n) st =
     (case acceptAll_turn N ep server st of
        (None, st) \<Rightarrow> acceptAll N ep server n st
      | (Some e, st) \<Rightarrow> (Some e, st))"

subsection \<open>Laws of the system calls\<close>

text \<open>
  Descriptors \<open>fds\<close> and address lists \<open>infos\<close>: which calls allocate and free them.
\<close>

definition net_fd_laws :: "('w, 'z) net_os_scheme \<Rightarrow> ('w \<Rightarrow> int set) \<Rightarrow> ('w \<Rightarrow> nat set) \<Rightarrow> bool" where
  "net_fd_laws N fds infos \<longleftrightarrow>
     (\<forall>port w r a w'. sys_getaddrinfo N port w = (r, a, w') \<longrightarrow> fds w' = fds w \<and>
        (if ret r < 0 then infos w' = infos w else a \<notin> infos w \<and> infos w' = insert a (infos w)))
     \<and> (\<forall>a w. fds (sys_freeaddrinfo N a w) = fds w \<and> infos (sys_freeaddrinfo N a w) = infos w - {a})
     \<and> (\<forall>a w r w'. sys_socket N a w = (r, w') \<longrightarrow> infos w' = infos w \<and>
        (if ret r < 0 then fds w' = fds w else ret r \<notin> fds w \<and> fds w' = insert (ret r) (fds w)))
     \<and> (\<forall>n o' v w. fds (snd (sys_setsockopt N n o' v w)) = fds w \<and> infos (snd (sys_setsockopt N n o' v w)) = infos w)
     \<and> (\<forall>n w. fds (snd (sys_set_nonblock N n w)) = fds w \<and> infos (snd (sys_set_nonblock N n w)) = infos w)
     \<and> (\<forall>n a w. fds (snd (sys_bind N n a w)) = fds w \<and> infos (snd (sys_bind N n a w)) = infos w)
     \<and> (\<forall>n w. fds (sys_close N n w) = fds w - {n} \<and> infos (sys_close N n w) = infos w)"

lemma net_fd_lawsD:
  assumes "net_fd_laws N fds infos"
  shows "sys_getaddrinfo N port w = (r, a, w') \<Longrightarrow> fds w' = fds w \<and>
      (if ret r < 0 then infos w' = infos w else a \<notin> infos w \<and> infos w' = insert a (infos w))"
    and "fds (sys_freeaddrinfo N a w) = fds w" and "infos (sys_freeaddrinfo N a w) = infos w - {a}"
    and "sys_socket N a w = (r, w') \<Longrightarrow> infos w' = infos w \<and>
      (if ret r < 0 then fds w' = fds w else ret r \<notin> fds w \<and> fds w' = insert (ret r) (fds w))"
    and "sys_setsockopt N n v x w = (r, w') \<Longrightarrow> fds w' = fds w \<and> infos w' = infos w"
    and "sys_set_nonblock N n w = (r, w') \<Longrightarrow> fds w' = fds w \<and> infos w' = infos w"
    and "sys_bind N n a w = (r, w') \<Longrightarrow> fds w' = fds w \<and> infos w' = infos w"
    and "fds (sys_close N n w) = fds w - {n}" and "infos (sys_close N n w) = infos w"
proof -
  note l = assms [unfolded net_fd_laws_def]
  show "sys_getaddrinfo N port w = (r, a, w') \<Longrightarrow> fds w' = fds w \<and>
      (if ret r < 0 then infos w' = infos w else a \<notin> infos w \<and> infos w' = insert a (infos w))"
    by (rule l [THEN conjunct1, rule_format])
  note l = l [THEN conjunct2]
  show "fds (sys_freeaddrinfo N a w) = fds w" and "infos (sys_freeaddrinfo N a w) = infos w - {a}"
    using l [THEN conjunct1, rule_format, of a w] by simp_all
  note l = l [THEN conjunct2]
  show "sys_socket N a w = (r, w') \<Longrightarrow> infos w' = infos w \<and>
      (if ret r < 0 then fds w' = fds w else ret r \<notin> fds w \<and> fds w' = insert (ret r) (fds w))"
    by (rule l [THEN conjunct1, rule_format])
  note l = l [THEN conjunct2]
  show "sys_setsockopt N n v x w = (r, w') \<Longrightarrow> fds w' = fds w \<and> infos w' = infos w"
    using l [THEN conjunct1, rule_format, of n v x w] by simp
  note l = l [THEN conjunct2]
  show "sys_set_nonblock N n w = (r, w') \<Longrightarrow> fds w' = fds w \<and> infos w' = infos w"
    using l [THEN conjunct1, rule_format, of n w] by simp
  note l = l [THEN conjunct2]
  show "sys_bind N n a w = (r, w') \<Longrightarrow> fds w' = fds w \<and> infos w' = infos w"
    using l [THEN conjunct1, rule_format, of n a w] by simp
  show "fds (sys_close N n w) = fds w - {n}" and "infos (sys_close N n w) = infos w"
    using l [THEN conjunct2, rule_format, of n w] by simp_all
qed

lemma or_throw_checkError: "or_throw (checkError r) = (if ret r < 0 then Inl (SystemError (generic_error (errno r))) else Inr (ret r))"
  by (simp add: or_throw_def checkError_def)

text \<open>The paths of the constructor.\<close>

lemma server_ctor_paths:
  assumes "net_fd_laws N fds infos" and "sys_getaddrinfo N port w = (g, a, w1)"
    and "serverSocket_ctor N port w = (r, w')"
  shows "(if ret g < 0 then \<exists>e. r = Inl e \<and> fds w' = fds w \<and> infos w' = infos w
    else (\<exists>e. r = Inl e \<and> fds w' = fds w \<and> infos w' = insert a (infos w)) \<or>
      (\<exists>n. r = Inr \<lparr>fd = n\<rparr> \<and> 0 \<le> n \<and> n \<notin> fds w \<and> fds w' = insert n (fds w) \<and> infos w' = infos w))"
proof (cases "ret g < 0")
  case True
  then show ?thesis
    using net_fd_lawsD(1) [OF assms(1,2)] assms(2,3)
    by (auto simp: serverSocket_ctor_def or_throw_checkError new_socketBase_def socketBase_destroy_def)
next
  case g: False
  note d = net_fd_lawsD [OF assms(1)]
  have w1: "fds w1 = fds w" "a \<notin> infos w" "infos w1 = insert a (infos w)"
    using d(1) [OF assms(2)] g by simp_all
  obtain s w2 where s: "sys_socket N a w1 = (s, w2)" by fastforce
  show ?thesis
  proof (cases "ret s < 0")
    case True
    then show ?thesis
      using d(4) [OF s] w1 s g assms(2,3)
      by (auto simp: serverSocket_ctor_def or_throw_checkError new_socketBase_def socketBase_destroy_def)
  next
    case sock: False
    obtain r3 w3 where o: "sys_setsockopt N (ret s) (or SO_REUSEADDR SO_REUSEPORT) 1 w2 = (r3, w3)" by fastforce
    obtain r4 w4 where n: "sys_set_nonblock N (ret s) w3 = (r4, w4)" by fastforce
    obtain r5 w5 where b: "sys_bind N (ret s) a w4 = (r5, w5)" by fastforce
    have w5: "ret s \<notin> fds w" "fds w4 = insert (ret s) (fds w)" "fds w5 = insert (ret s) (fds w)"
      "infos w4 = insert a (infos w)" "infos w5 = insert a (infos w)"
      using d(4) [OF s] d(5) [OF o] d(6) [OF n] d(7) [OF b] w1 sock by simp_all
    have ctor: "serverSocket_ctor N port w =
      (if ret r4 < 0 then (Inl (SystemError (generic_error (errno r4))), sys_close N (ret s) w4)
       else if ret r5 < 0 then (Inl (SystemError (generic_error (errno r5))), sys_close N (ret s) w5)
       else (Inr \<lparr>fd = ret s\<rparr>, sys_freeaddrinfo N a w5))"
      using g sock s o n b assms(2)
      by (simp add: serverSocket_ctor_def or_throw_checkError socketBase_destroy_def Let_def)
    show ?thesis
      using ctor assms(3) g sock w1(2) w5 d(2,3,8,9) by (auto split: if_splits)
  qed
qed

text \<open>The interest list of the epoll instance.\<close>

definition interest_laws :: "('w, 'z) net_os_scheme \<Rightarrow> epollInstance \<Rightarrow> ('w \<Rightarrow> (int \<times> epoll_event) list) \<Rightarrow> bool" where
  "interest_laws N ep interest \<longleftrightarrow>
     (\<forall>n w. interest (snd (sys_accept N n w)) = interest w)
     \<and> (\<forall>n w. interest (snd (sys_set_nonblock N n w)) = interest w)
     \<and> (\<forall>n ev w r w'. epoll_ctl N (epfd ep) EPOLL_CTL_ADD n (Some ev) w = (r, w') \<longrightarrow>
          interest w' = (if ret r < 0 then interest w else interest w @ [(n, ev)]))"

text \<open>
  The clients \<open>cs\<close> wait at the listening socket, each can be made non-blocking and added, and then
  there are no more or the descriptors have run out.
\<close>

fun clients_wait ::
  "('w, 'z) net_os_scheme \<Rightarrow> epollInstance \<Rightarrow> socketBase \<Rightarrow> hnd \<Rightarrow> int list \<Rightarrow> 'w \<Rightarrow> bool" where
  "clients_wait N ep server h [] w =
     (let r = fst (sys_accept N (fd server) w)
      in ret r < 0 \<and> errno r \<in> {EAGAIN, EWOULDBLOCK, EMFILE, ENFILE})"
| "clients_wait N ep server h (c # cs) w =
     (case sys_accept N (fd server) w of
        (r, w) \<Rightarrow> ret r = c \<and> 0 \<le> c \<and>
          (case sys_set_nonblock N c w of
             (r, w) \<Rightarrow> 0 \<le> ret r \<and>
               (case epoll_ctl N (epfd ep) EPOLL_CTL_ADD c (Some \<lparr>events = client_events, data_ptr = h\<rparr>) w of
                  (r, w) \<Rightarrow> 0 \<le> ret r \<and> clients_wait N ep server (Suc h) cs w)))"

lemma acceptAll_turn_client:
  assumes "sys_accept N (fd server) (world st) = (r, w1)" and "0 \<le> ret r"
    and "sys_set_nonblock N (ret r) w1 = (r2, w2)" and "0 \<le> ret r2"
    and "epoll_ctl N (epfd ep) EPOLL_CTL_ADD (ret r) (Some \<lparr>events = client_events, data_ptr = next_handler st\<rparr>) w2 = (r3, w3)"
    and "0 \<le> ret r3"
  shows "acceptAll_turn N ep server st = (None, st\<lparr>world := w3, next_handler := Suc (next_handler st),
    handlers := handlers st @ [(next_handler st, ret r)]\<rparr>)"
  using assms
  by (simp add: acceptAll_turn_def reactorSocket_ctor_def or_throw_def addEvent_def checkError_def Let_def)

subsection \<open>Properties\<close>

text \<open>
  The accept loop serves everybody who waits.  When the clients \<open>cs\<close> wait, the loop accepts all of
  them before it suspends; each gets a new coroutine of the handler, in order, and its descriptor is
  in the interest list exactly once more, edge-triggered, with the address of its own coroutine.
\<close>

lemma accept_registers_all:
  assumes "interest_laws N ep interest" and "clients_wait N ep server (next_handler st) cs (world st)"
  shows "\<exists>st'. acceptAll N ep server (Suc (length cs)) st = (Some AcceptSuspended, st') \<and>
    handlers st' = handlers st @ enumerate (next_handler st) cs \<and>
    interest (world st') = interest (world st) @
      map (\<lambda>(h, c). (c, \<lparr>events = client_events, data_ptr = h\<rparr>)) (enumerate (next_handler st) cs)"
  using assms(2)
proof (induction cs arbitrary: st)
  case Nil
  obtain r w where a: "sys_accept N (fd server) (world st) = (r, w)" by fastforce
  have "acceptAll_turn N ep server st = (Some AcceptSuspended, st\<lparr>world := w\<rparr>)"
    using Nil.prems a by (auto simp: acceptAll_turn_def Let_def)
  moreover have "interest w = interest (world st)"
    using assms(1) [unfolded interest_laws_def, THEN conjunct1, rule_format, of "fd server" "world st"] a by simp
  ultimately show ?case by simp
next
  case (Cons c cs)
  obtain r w1 r2 w2 r3 w3 where k: "sys_accept N (fd server) (world st) = (r, w1)" "ret r = c" "0 \<le> c"
    "sys_set_nonblock N c w1 = (r2, w2)" "0 \<le> ret r2"
    "epoll_ctl N (epfd ep) EPOLL_CTL_ADD c (Some \<lparr>events = client_events, data_ptr = next_handler st\<rparr>) w2 = (r3, w3)"
    "0 \<le> ret r3" "clients_wait N ep server (Suc (next_handler st)) cs w3"
    using Cons.prems by (auto split: prod.splits)
  note l = assms(1) [unfolded interest_laws_def]
  have i: "interest w3 = interest (world st) @ [(c, \<lparr>events = client_events, data_ptr = next_handler st\<rparr>)]"
    using l [THEN conjunct1, rule_format, of "fd server" "world st"]
      l [THEN conjunct2, THEN conjunct1, rule_format, of c w1]
      l [THEN conjunct2, THEN conjunct2, rule_format, OF k(6)] k(1,4,7) by simp
  let ?st = "st\<lparr>world := w3, next_handler := Suc (next_handler st), handlers := handlers st @ [(next_handler st, c)]\<rparr>"
  have t: "acceptAll_turn N ep server st = (None, ?st)"
    using acceptAll_turn_client [OF k(1), of r2 w2 ep r3 w3] k by simp
  have "clients_wait N ep server (next_handler ?st) cs (world ?st)" using k(8) by simp
  from Cons.IH [OF this] t i show ?case by auto
qed

text \<open>
  What the constructor of the server socket allocates.  On success the socket has a new open
  descriptor and nothing else is left allocated; when it throws, no descriptor is left open, but the
  address list, once it was obtained, is never freed.
\<close>

lemma server_ctor_resources:
  assumes "net_fd_laws N fds infos" and "serverSocket_ctor N port w = (r, w')"
  shows "(\<forall>s. r = Inr s \<longrightarrow> 0 \<le> fd s \<and> fd s \<notin> fds w \<and> fds w' = insert (fd s) (fds w) \<and> infos w' = infos w) \<and>
    (\<forall>e. r = Inl e \<longrightarrow> fds w' = fds w \<and>
       (0 \<le> ret (fst (sys_getaddrinfo N port w)) \<longrightarrow>
          infos w' = insert (fst (snd (sys_getaddrinfo N port w))) (infos w)))"
proof -
  obtain g a w1 where "sys_getaddrinfo N port w = (g, a, w1)" by (metis prod.exhaust)
  from server_ctor_paths [OF assms(1) this assms(2)] this show ?thesis by (auto split: if_splits)
qed

text \<open>
  Move assignment loses the descriptor of its target.  After an assignment from one open socket to
  another, both objects can be destroyed and the descriptor the target had is still open.
\<close>

lemma move_assignment_leaks:
  assumes "net_fd_laws N fds infos" and "0 \<le> fd a" and "fd a \<in> fds w" and "fd a \<noteq> fd b"
    and "socketBase_assign a b = (a', b')"
  shows "fds (socketBase_destroy N b' (socketBase_destroy N a' w)) = fds w - (if 0 \<le> fd b then {fd b} else {}) \<and>
    fd a \<in> fds (socketBase_destroy N b' (socketBase_destroy N a' w))"
  using assms net_fd_lawsD(8) [OF assms(1)]
  by (auto simp: socketBase_assign_def socketBase_destroy_def)

subsection \<open>A concrete system\<close>

record demo_net =
  nfds :: "nat list"
  ninfos :: "nat list"
  backlog :: "int list"
  ninterest :: "(int \<times> epoll_event) list"

definition demo_net_os :: "int \<Rightarrow> demo_net net_os" where
  "demo_net_os bind_result =
     \<lparr>epoll_create1 = (\<lambda>w. (\<lparr>ret = 3, errno = 0\<rparr>, w)),
      epoll_ctl = (\<lambda>n operation c ev w. case (operation, ev) of
          (EPOLL_CTL_ADD, Some ev) \<Rightarrow> (\<lparr>ret = 0, errno = 0\<rparr>, w\<lparr>ninterest := ninterest w @ [(c, ev)]\<rparr>)
        | _ \<Rightarrow> (\<lparr>ret = 0, errno = 0\<rparr>, w)),
      epoll_wait = (\<lambda>n k timeout w. (\<lparr>ret = 0, errno = 0\<rparr>, [], w)),
      sys_getaddrinfo = (\<lambda>port w. (\<lparr>ret = 0, errno = 0\<rparr>, Suc (sum_list (ninfos w)),
        w\<lparr>ninfos := Suc (sum_list (ninfos w)) # ninfos w\<rparr>)),
      sys_freeaddrinfo = (\<lambda>a w. w\<lparr>ninfos := removeAll a (ninfos w)\<rparr>),
      sys_socket = (\<lambda>a w. (\<lparr>ret = int (Suc (sum_list (nfds w))), errno = 0\<rparr>,
        w\<lparr>nfds := Suc (sum_list (nfds w)) # nfds w\<rparr>)),
      sys_setsockopt = (\<lambda>n v x w. (\<lparr>ret = 0, errno = 0\<rparr>, w)),
      sys_set_nonblock = (\<lambda>n w. (\<lparr>ret = 0, errno = 0\<rparr>, w)),
      sys_bind = (\<lambda>n a w. (\<lparr>ret = bind_result, errno = 98\<rparr>, w)),
      sys_listen = (\<lambda>n b w. (\<lparr>ret = 0, errno = 0\<rparr>, w)),
      sys_accept = (\<lambda>n w. case backlog w of [] \<Rightarrow> (\<lparr>ret = -1, errno = EAGAIN\<rparr>, w)
        | c # cs \<Rightarrow> (\<lparr>ret = c, errno = 0\<rparr>, w\<lparr>backlog := cs\<rparr>)),
      sys_close = (\<lambda>n w. w\<lparr>nfds := filter (\<lambda>x. int x \<noteq> n) (nfds w)\<rparr>),
      sys_io = (\<lambda>c n w. (\<lparr>ret = 0, errno = 0\<rparr>, w))\<rparr>"

lemma sum_fresh: "x \<in> set (xs::nat list) \<Longrightarrow> x \<le> sum_list xs"
  by (rule member_le_sum_list) simp_all

lemma demo_net_fd_laws: "net_fd_laws (demo_net_os b) (\<lambda>w. int ` set (nfds w)) (\<lambda>w. set (ninfos w))"
proof -
  have "Suc (sum_list (ninfos w)) \<notin> set (ninfos w)" and "1 + int (sum_list (nfds w)) \<notin> int ` set (nfds w)" for w
    using sum_fresh [of "Suc (sum_list (ninfos w))" "ninfos w"] by (auto dest!: sum_fresh)
  then show ?thesis by (auto simp: net_fd_laws_def demo_net_os_def)
qed

lemma demo_interest_laws: "interest_laws (demo_net_os b) ep ninterest"
  by (auto simp: interest_laws_def demo_net_os_def split: list.splits)

definition demo_net0 :: demo_net where
  "demo_net0 = \<lparr>nfds = [4, 6], ninfos = [], backlog = [8, 9], ninterest = []\<rparr>"

end
