(* ===== verification/Connections.thy ===== *)
theory Connections
  imports Sockets
begin

text \<open>
  The connections of the epoll server, from accept to close: how the accept loop
  (\<^verbatim>\<open>include/http/Socket.hpp\<close>), the event loop (\<^verbatim>\<open>include/async/Epoll.hpp\<close>), the handlers
  (\<^verbatim>\<open>demo/httptest.cpp\<close>) and the cleaner of the pool (\<^verbatim>\<open>include/async/Loop.hpp\<close>) share the
  sockets of the clients.

  A client's socket is owned by shared pointers, and those pointers are parameters of coroutines: of the session
  (\<^verbatim>\<open>httpHandle\<close>) and of its responders.  A parameter lives in the coroutine's frame and is destroyed
  with it, not when the coroutine ends, and the frames of detached coroutines are destroyed by
  \<^verbatim>\<open>cleanTasks\<close> only.  The socket is closed with the last pointer.

  A step is one turn of the accept loop, one event, one responder started, the end of a coroutine or one turn of the
  cleaner; the outside may change as long as it keeps the open descriptors and the interest list.
  Handles are not used again.  The files a responder opens are closed when it returns and are left out.
\<close>

subsection \<open>State and operations\<close>

record client =
  csock :: socketBase
  chandler :: hnd       \<comment> \<open>the coroutine whose address is registered with the descriptor\<close>

record 'w conns =
  kernel :: 'w
  tasks :: threadPool
  next_frame :: hnd
  clients :: "client list"
  params :: "(hnd \<times> nat) list"     \<comment> \<open>the frames that hold a pointer to a client\<close>
  finished :: "hnd set"
  freed :: "hnd set"

text \<open>One turn of the accept loop: the handler's frame holds the only pointer when the turn ends.\<close>

definition accept_client ::
  "('w, 'z) net_os_scheme \<Rightarrow> epollInstance \<Rightarrow> socketBase \<Rightarrow> 'w conns \<Rightarrow> accept_end option \<times> 'w conns" where
  "accept_client N ep server s =
     (case acceptAll_turn N ep server \<lparr>world = kernel s, next_handler = next_frame s, handlers = []\<rparr> of
        (out, st) \<Rightarrow>
          (out, s\<lparr>kernel := world st, next_frame := next_handler st,
                  clients := clients s @ map (\<lambda>(h, n). \<lparr>csock = \<lparr>fd = n\<rparr>, chandler = h\<rparr>) (handlers st),
                  params := params s @ map (\<lambda>(h, n). (h, length (clients s))) (handlers st)\<rparr>))"

text \<open>A session starts a responder: the pointer is copied into the new frame, which is handed to the pool.\<close>

definition spawn_responder :: "hnd \<Rightarrow> 'w conns \<Rightarrow> 'w conns outcome" where
  "spawn_responder h s =
     (case map_of (params s) h of
        None \<Rightarrow> Undefined
      | Some c \<Rightarrow>
          (let r = next_frame s
           in outcome_bind (addTask r (tasks s)) (\<lambda>p.
                Returns (s\<lparr>tasks := p, next_frame := Suc r, params := params s @ [(r, c)]\<rparr>))))"

text \<open>Destroying a frame releases its pointer, and the last one destroys the socket.\<close>

definition destroy_frame :: "('w, 'z) net_os_scheme \<Rightarrow> hnd \<Rightarrow> 'w conns \<Rightarrow> 'w conns" where
  "destroy_frame N h s =
     (let s = s\<lparr>freed := insert h (freed s)\<rparr>
      in case map_of (params s) h of
           None \<Rightarrow> s
         | Some c \<Rightarrow>
             (let ps = filter (\<lambda>(g, _). g \<noteq> h) (params s)
              in s\<lparr>params := ps,
                   kernel := (if c \<in> snd ` set ps then kernel s
                              else socketBase_destroy N (csock (clients s ! c)) (kernel s))\<rparr>))"

definition clean_connections :: "('w, 'z) net_os_scheme \<Rightarrow> 'w conns \<Rightarrow> 'w conns outcome" where
  "clean_connections N s =
     outcome_bind (cleanTasks_turn (\<lambda>h. h \<in> finished s) (tasks s))
       (\<lambda>(p, ds). Returns (fold (destroy_frame N) ds (s\<lparr>tasks := p\<rparr>)))"

abbreviation bound :: "'w conns \<Rightarrow> hnd set" where
  "bound s \<equiv> fst ` set (taskBinding (tasks s))"

abbreviation live :: "'w conns \<Rightarrow> nat set" where
  "live s \<equiv> snd ` set (params s)"

definition cfd :: "'w conns \<Rightarrow> nat \<Rightarrow> int" where
  "cfd s c = fd (csock (clients s ! c))"

text \<open>
  A coroutine makes a step only after it was handed to the pool.  An event whose address is that of a
  destroyed coroutine has no defined behaviour; there is no step for it.
\<close>

inductive conn_step ::
  "('w, 'z) net_os_scheme \<Rightarrow> epollInstance \<Rightarrow> socketBase \<Rightarrow> ('w \<Rightarrow> int set) \<Rightarrow> ('w \<Rightarrow> (int \<times> epoll_event) list) \<Rightarrow>
     'w conns \<Rightarrow> 'w conns \<Rightarrow> bool"
  for N ep server fds interest where
  accepts:
    "\<lbrakk>accept_client N ep server s = (out, s'); out \<in> {None, Some AcceptSuspended}\<rbrakk> \<Longrightarrow>
     conn_step N ep server fds interest s s'"
| event_arrives:
    "\<lbrakk>(n, ev) \<in> set (interest (kernel s)); data_ptr ev \<notin> freed s; addTask (data_ptr ev) (tasks s) = Returns p\<rbrakk> \<Longrightarrow>
     conn_step N ep server fds interest s (s\<lparr>tasks := p\<rparr>)"
| responds:
    "\<lbrakk>(h, c) \<in> set (params s); chandler (clients s ! c) = h; h \<in> bound s; h \<notin> finished s;
      spawn_responder h s = Returns s'\<rbrakk> \<Longrightarrow>
     conn_step N ep server fds interest s s'"
| finishes:
    "\<lbrakk>h \<in> fst ` set (params s); h \<in> bound s; h \<notin> finished s\<rbrakk> \<Longrightarrow>
     conn_step N ep server fds interest s (s\<lparr>finished := insert h (finished s)\<rparr>)"
| cleans:
    "clean_connections N s = Returns s' \<Longrightarrow> conn_step N ep server fds interest s s'"
| outside:
    "\<lbrakk>fds w = fds (kernel s); interest w = interest (kernel s)\<rbrakk> \<Longrightarrow>
     conn_step N ep server fds interest s (s\<lparr>kernel := w\<rparr>)"

inductive_cases conn_stepE: "conn_step N ep server fds interest s s'"

text \<open>The server has started: the coroutines below \<open>n\<close> are its own, there is no client yet.\<close>

definition conn_start :: "threadPool \<Rightarrow> hnd \<Rightarrow> 'w \<Rightarrow> 'w conns" where
  "conn_start p n w = \<lparr>kernel = w, tasks = p, next_frame = n, clients = [], params = [], finished = {}, freed = {}\<rparr>"

definition start_ok :: "('w \<Rightarrow> int set) \<Rightarrow> ('w \<Rightarrow> (int \<times> epoll_event) list) \<Rightarrow> threadPool \<Rightarrow> hnd \<Rightarrow> 'w \<Rightarrow> bool" where
  "start_ok fds interest p n w \<longleftrightarrow>
     pool_inv p \<and> fst ` set (taskBinding p) \<subseteq> {..<n} \<and>
     (\<forall>(m, ev) \<in> set (interest w). m \<in> fds w \<and> data_ptr ev < n)"

subsection \<open>Laws of the kernel\<close>

text \<open>
  Besides the laws of \<open>Sockets\<close>: \<^verbatim>\<open>accept\<close> opens a new descriptor, but not when \<open>limit\<close> are open;
  \<^verbatim>\<open>close\<close> also removes the descriptor from the interest list.
\<close>

definition conn_laws ::
  "('w, 'z) net_os_scheme \<Rightarrow> epollInstance \<Rightarrow> ('w \<Rightarrow> int set) \<Rightarrow> ('w \<Rightarrow> (int \<times> epoll_event) list) \<Rightarrow> nat \<Rightarrow> bool" where
  "conn_laws N ep fds interest limit \<longleftrightarrow>
     (\<exists>infos. net_fd_laws N fds infos) \<and> interest_laws N ep interest
     \<and> (\<forall>n w r w'. sys_accept N n w = (r, w') \<longrightarrow>
          (if ret r < 0 then fds w' = fds w
           else card (fds w) < limit \<and> ret r \<notin> fds w \<and> fds w' = insert (ret r) (fds w)))
     \<and> (\<forall>n x m ev w. fds (snd (epoll_ctl N n x m ev w)) = fds w)
     \<and> (\<forall>n w. interest (sys_close N n w) = filter (\<lambda>(m, _). m \<noteq> n) (interest w))"

lemma conn_lawsD:
  assumes "conn_laws N ep fds interest limit"
  shows "sys_accept N n w = (r, w') \<Longrightarrow> interest w' = interest w \<and>
      (if ret r < 0 then fds w' = fds w
       else card (fds w) < limit \<and> ret r \<notin> fds w \<and> fds w' = insert (ret r) (fds w))"
    and "sys_set_nonblock N n w = (r, w') \<Longrightarrow> fds w' = fds w \<and> interest w' = interest w"
    and "epoll_ctl N (epfd ep) EPOLL_CTL_ADD n (Some ev) w = (r, w') \<Longrightarrow> fds w' = fds w \<and>
      interest w' = (if ret r < 0 then interest w else interest w @ [(n, ev)])"
    and "fds (sys_close N n w) = fds w - {n}"
    and "interest (sys_close N n w) = filter (\<lambda>(m, _). m \<noteq> n) (interest w)"
proof -
  note l = assms [unfolded conn_laws_def]
  obtain infos where f: "net_fd_laws N fds infos" using l by blast
  have i: "interest_laws N ep interest" using l by blast
  note i = i [unfolded interest_laws_def]
  note k = l [THEN conjunct2, THEN conjunct2]
  show "sys_accept N n w = (r, w') \<Longrightarrow> interest w' = interest w \<and>
      (if ret r < 0 then fds w' = fds w
       else card (fds w) < limit \<and> ret r \<notin> fds w \<and> fds w' = insert (ret r) (fds w))"
    using k [THEN conjunct1, rule_format, of n w r w'] i [THEN conjunct1, rule_format, of n w] by simp
  show "sys_set_nonblock N n w = (r, w') \<Longrightarrow> fds w' = fds w \<and> interest w' = interest w"
    using net_fd_lawsD(6) [OF f] i [THEN conjunct2, THEN conjunct1, rule_format, of n w] by simp
  show "epoll_ctl N (epfd ep) EPOLL_CTL_ADD n (Some ev) w = (r, w') \<Longrightarrow> fds w' = fds w \<and>
      interest w' = (if ret r < 0 then interest w else interest w @ [(n, ev)])"
    using k [THEN conjunct2, THEN conjunct1, rule_format, of "epfd ep" EPOLL_CTL_ADD n "Some ev" w]
      i [THEN conjunct2, THEN conjunct2, rule_format, of n ev w r w'] by simp
  show "fds (sys_close N n w) = fds w - {n}" by (rule net_fd_lawsD(8) [OF f])
  show "interest (sys_close N n w) = filter (\<lambda>(m, _). m \<noteq> n) (interest w)"
    using k [THEN conjunct2, THEN conjunct2] by blast
qed

subsection \<open>The invariant\<close>

text \<open>The entry of a client in the interest list.\<close>

definition entry :: "'w conns \<Rightarrow> nat \<Rightarrow> int \<times> epoll_event" where
  "entry s c = (cfd s c, \<lparr>events = client_events, data_ptr = chandler (clients s ! c)\<rparr>)"

lemma cfd_cong: "clients t = clients s \<Longrightarrow> cfd t = cfd s" "clients t = clients s \<Longrightarrow> entry t = entry s"
  by (simp_all add: cfd_def entry_def fun_eq_iff)

lemmas same_clients [simp] =
  cfd_cong [of "s\<lparr>kernel := w\<rparr>" s for s w, simplified] cfd_cong [of "s\<lparr>tasks := p\<rparr>" s for s p, simplified]
  cfd_cong [of "s\<lparr>finished := h\<rparr>" s for s h, simplified]
  cfd_cong [of "s\<lparr>tasks := p, next_frame := n, params := ps\<rparr>" s for s p n ps, simplified]

text \<open>
  The open descriptors are those the server had at its start and one for each client that a frame points
  to; the interest list has the entries of those clients, in the order they came; a client whose handler
  has no frame any more had it destroyed.
\<close>

definition frames_inv ::
  "('w \<Rightarrow> int set) \<Rightarrow> ('w \<Rightarrow> (int \<times> epoll_event) list) \<Rightarrow> hnd \<Rightarrow> 'w \<Rightarrow> 'w conns \<Rightarrow> bool" where
  "frames_inv fds interest n0 w0 s \<longleftrightarrow>
     n0 \<le> next_frame s
     \<and> distinct (map fst (params s))
     \<and> (\<forall>(h, c) \<in> set (params s). n0 \<le> h \<and> h < next_frame s \<and> c < length (clients s))
     \<and> (\<forall>c < length (clients s). (chandler (clients s ! c), c) \<in> set (params s) \<or> chandler (clients s ! c) \<in> freed s)
     \<and> freed s \<subseteq> {n0..<next_frame s} - fst ` set (params s)
     \<and> (\<forall>c \<in> live s. 0 \<le> cfd s c \<and> cfd s c \<notin> fds w0)
     \<and> inj_on (cfd s) (live s)
     \<and> fds (kernel s) = fds w0 \<union> cfd s ` live s
     \<and> interest (kernel s) = interest w0 @ map (entry s) (filter (\<lambda>c. c \<in> live s) [0..<length (clients s)])"

definition conn_inv ::
  "('w \<Rightarrow> int set) \<Rightarrow> ('w \<Rightarrow> (int \<times> epoll_event) list) \<Rightarrow> hnd \<Rightarrow> 'w \<Rightarrow> 'w conns \<Rightarrow> bool" where
  "conn_inv fds interest n0 w0 s \<longleftrightarrow>
     frames_inv fds interest n0 w0 s
     \<and> pool_inv (tasks s)
     \<and> bound s \<subseteq> {..<next_frame s} - freed s
     \<and> finished s \<subseteq> freed s \<union> (fst ` set (params s) \<inter> bound s)"

lemma conn_inv_start: "start_ok fds interest p n w \<Longrightarrow> conn_inv fds interest n w (conn_start p n w)"
  by (simp add: conn_inv_def frames_inv_def conn_start_def start_ok_def)

text \<open>One turn of the accept loop: nobody came, or one client did.\<close>

lemma accept_client_result:
  assumes "conn_laws N ep fds interest limit" and "accept_client N ep server s = (out, s')"
    and "out \<in> {None, Some AcceptSuspended}"
  shows "(\<exists>w. s' = s\<lparr>kernel := w\<rparr> \<and> fds w = fds (kernel s) \<and> interest w = interest (kernel s)) \<or>
    (\<exists>n w. s' = s\<lparr>kernel := w, next_frame := Suc (next_frame s),
         clients := clients s @ [\<lparr>csock = \<lparr>fd = n\<rparr>, chandler = next_frame s\<rparr>],
         params := params s @ [(next_frame s, length (clients s))]\<rparr> \<and>
       0 \<le> n \<and> n \<notin> fds (kernel s) \<and> card (fds (kernel s)) < limit \<and> fds w = insert n (fds (kernel s)) \<and>
       interest w = interest (kernel s) @ [(n, \<lparr>events = client_events, data_ptr = next_frame s\<rparr>)])"
proof -
  note d = conn_lawsD [OF assms(1)]
  obtain r w where a: "sys_accept N (fd server) (kernel s) = (r, w)" by fastforce
  show ?thesis
  proof (cases "ret r < 0")
    case True
    then show ?thesis using d(1) [OF a] a assms(2,3)
      by (auto simp: accept_client_def acceptAll_turn_def split: if_splits)
  next
    case r: False
    obtain r2 w2 where b: "sys_set_nonblock N (ret r) w = (r2, w2)" by fastforce
    let ?ev = "\<lparr>events = client_events, data_ptr = next_frame s\<rparr>"
    obtain r3 w3 where c: "epoll_ctl N (epfd ep) EPOLL_CTL_ADD (ret r) (Some ?ev) w2 = (r3, w3)" by fastforce
    have ctor: "reactorSocket_ctor N (ret r) w =
        (if ret r2 < 0 then (Inl (SystemError (generic_error (errno r2))), socketBase_destroy N \<lparr>fd = ret r\<rparr> w2)
         else (Inr \<lparr>fd = ret r\<rparr>, w2))"
      by (simp add: reactorSocket_ctor_def or_throw_checkError b)
    have add: "addEvent N ep (ret r) ?ev w2 =
        ((if ret r3 < 0 then Inl (generic_error (errno r3)) else Inr (ret r3)), w3)"
      by (simp add: addEvent_def checkError_def c)
    have ok: "\<not> ret r2 < 0" "\<not> ret r3 < 0" using r a ctor add assms(2,3)
      by (auto simp: accept_client_def acceptAll_turn_def Let_def split: if_splits)
    have s': "s' = s\<lparr>kernel := w3, next_frame := Suc (next_frame s),
        clients := clients s @ [\<lparr>csock = \<lparr>fd = ret r\<rparr>, chandler = next_frame s\<rparr>],
        params := params s @ [(next_frame s, length (clients s))]\<rparr>"
      using r ok a ctor add assms(2) by (simp add: accept_client_def acceptAll_turn_def Let_def)
    show ?thesis
      using s' r ok d(1) [OF a] d(2) [OF b] d(3) [OF c]
      by (intro disjI2 exI [of _ "ret r"] exI [of _ w3]) auto
  qed
qed

lemma frames_invD:
  assumes "frames_inv fds interest n0 w0 s"
  shows "n0 \<le> next_frame s" and "distinct (map fst (params s))"
    and "(h, c) \<in> set (params s) \<Longrightarrow> n0 \<le> h \<and> h < next_frame s \<and> c < length (clients s)"
    and "c < length (clients s) \<Longrightarrow> (chandler (clients s ! c), c) \<in> set (params s) \<or> chandler (clients s ! c) \<in> freed s"
    and "h \<in> freed s \<Longrightarrow> n0 \<le> h \<and> h < next_frame s \<and> h \<notin> fst ` set (params s)"
    and "c \<in> live s \<Longrightarrow> 0 \<le> cfd s c \<and> cfd s c \<notin> fds w0 \<and> c < length (clients s)"
    and "inj_on (cfd s) (live s)" and "fds (kernel s) = fds w0 \<union> cfd s ` live s"
    and "interest (kernel s) = interest w0 @ map (entry s) (filter (\<lambda>c. c \<in> live s) [0..<length (clients s)])"
  using assms unfolding frames_inv_def by auto

lemma frames_inv_accept:
  assumes inv: "frames_inv fds interest n0 w0 s" and n: "0 \<le> n" "n \<notin> fds (kernel s)" "fds w = insert n (fds (kernel s))"
    and i: "interest w = interest (kernel s) @ [(n, \<lparr>events = client_events, data_ptr = next_frame s\<rparr>)]"
  shows "frames_inv fds interest n0 w0 (s\<lparr>kernel := w, next_frame := Suc (next_frame s),
      clients := clients s @ [\<lparr>csock = \<lparr>fd = n\<rparr>, chandler = next_frame s\<rparr>],
      params := params s @ [(next_frame s, length (clients s))]\<rparr>)" (is "frames_inv _ _ _ _ ?s")
proof -
  let ?m = "length (clients s)"
  note d = frames_invD [OF inv]
  have lt: "\<And>c. c \<in> live s \<Longrightarrow> c < ?m" using d(6) by blast
  then have same: "\<And>c. c \<in> live s \<Longrightarrow> cfd ?s c = cfd s c" "cfd ?s ?m = n"
    by (auto simp: cfd_def nth_append)
  have e: "\<And>c. c < ?m \<Longrightarrow> entry ?s c = entry s c" by (simp add: entry_def cfd_def nth_append)
  have l: "live ?s = insert ?m (live s)" by auto
  have "map (entry ?s) (filter (\<lambda>c. c \<in> live ?s) [0..<length (clients ?s)]) =
      map (entry s) (filter (\<lambda>c. c \<in> live s) [0..<?m]) @ [(n, \<lparr>events = client_events, data_ptr = next_frame s\<rparr>)]"
  proof -
    have "filter (\<lambda>c. c \<in> live ?s) [0..<length (clients ?s)] = filter (\<lambda>c. c \<in> live s) [0..<?m] @ [?m]"
      by (auto intro!: filter_cong)
    moreover have "entry ?s ?m = (n, \<lparr>events = client_events, data_ptr = next_frame s\<rparr>)"
      by (simp add: entry_def same(2))
    ultimately show ?thesis using e by simp
  qed
  then have i: "interest (kernel ?s) =
      interest w0 @ map (entry ?s) (filter (\<lambda>c. c \<in> live ?s) [0..<length (clients ?s)])"
    using d(9) i by simp
  have im: "cfd ?s ` live ?s = insert n (cfd s ` live s)" using same by (simp add: l)
  have fresh: "n \<notin> fds w0" "n \<notin> cfd s ` live s" using d(8) n(2) by auto
  have inj: "inj_on (cfd ?s) (live s) = inj_on (cfd s) (live s)" using same(1) by (rule inj_on_cong)
  show ?thesis
    unfolding frames_inv_def
  proof (intro conjI)
    show "n0 \<le> next_frame ?s" using d(1) by simp
    have "next_frame s \<notin> fst ` set (params s)" using d(3) by fastforce
    then show "distinct (map fst (params ?s))" using d(2) by simp
    show "\<forall>(h, c) \<in> set (params ?s). n0 \<le> h \<and> h < next_frame ?s \<and> c < length (clients ?s)"
      using d(1,3) by fastforce
    show "\<forall>c < length (clients ?s). (chandler (clients ?s ! c), c) \<in> set (params ?s) \<or> chandler (clients ?s ! c) \<in> freed ?s"
      using d(4) by (simp add: nth_append less_Suc_eq)
    show "freed ?s \<subseteq> {n0..<next_frame ?s} - fst ` set (params ?s)"
    proof
      fix h assume "h \<in> freed ?s"
      then have "h \<in> freed s" by simp
      from d(5) [OF this] show "h \<in> {n0..<next_frame ?s} - fst ` set (params ?s)" by auto
    qed
    show "\<forall>c \<in> live ?s. 0 \<le> cfd ?s c \<and> cfd ?s c \<notin> fds w0"
      using d(6) n(1) same fresh(1) unfolding l by simp
    note d(7)
    moreover have "cfd ?s ?m \<notin> cfd ?s ` (live s - {?m})" using fresh(2) same by (auto simp: image_iff)
    ultimately show "inj_on (cfd ?s) (live ?s)" unfolding l inj_on_insert inj by blast
    show "fds (kernel ?s) = fds w0 \<union> cfd ?s ` live ?s" unfolding im using d(8) n(3) by simp
  qed (rule i)
qed

text \<open>Destroying the frame of a coroutine.\<close>

lemma frames_inv_destroy:
  assumes laws: "conn_laws N ep fds interest limit" and inv: "frames_inv fds interest n0 w0 s"
    and base: "\<forall>(m, ev) \<in> set (interest w0). m \<in> fds w0" and h: "h \<in> fst ` set (params s)"
  shows "frames_inv fds interest n0 w0 (destroy_frame N h s) \<and>
    params (destroy_frame N h s) = filter (\<lambda>(g, _). g \<noteq> h) (params s)"
proof -
  note d = frames_invD [OF inv] and k = conn_lawsD [OF laws]
  obtain c where c: "(h, c) \<in> set (params s)" using h by auto
  then have m: "map_of (params s) h = Some c" using d(2) by simp
  let ?ps = "filter (\<lambda>(g, _). g \<noteq> h) (params s)"
  let ?w = "if c \<in> snd ` set ?ps then kernel s else socketBase_destroy N (csock (clients s ! c)) (kernel s)"
  let ?s = "s\<lparr>freed := insert h (freed s), params := ?ps, kernel := ?w\<rparr>"
  have r: "destroy_frame N h s = ?s" by (simp add: destroy_frame_def Let_def m)
  have cf: "cfd ?s = cfd s" "entry ?s = entry s" by (simp_all add: cfd_def entry_def fun_eq_iff)
  have cl: "c \<in> live s" using c by force
  define L where "L = live ?s"
  have l: "live s = insert c L"
  proof -
    have "x \<in> L" if "(g, x) \<in> set (params s)" and "x \<noteq> c" for g x
    proof -
      have "g \<noteq> h" using that c eq_key_imp_eq_value [OF d(2)] by blast
      then show ?thesis using that(1) by (force simp: L_def)
    qed
    then show ?thesis using cl by (force simp: L_def)
  qed
  have inj: "inj_on (cfd s) L" by (rule inj_on_subset [OF d(7)]) (simp add: l subset_insertI)
  have cL: "c \<in> snd ` set ?ps \<longleftrightarrow> c \<in> L" by (simp add: L_def)
  have w: "fds ?w = fds w0 \<union> cfd s ` L \<and>
    interest ?w = interest w0 @ map (entry s) (filter (\<lambda>x. x \<in> L) [0..<length (clients s)])"
  proof (cases "c \<in> L")
    case True
    then have "L = live s" unfolding l by (simp only: insert_absorb)
    then show ?thesis using True d(8,9) by (simp only: cL if_True)
  next
    case False
    have c0: "0 \<le> cfd s c" "cfd s c \<notin> fds w0" using d(6) [OF cl] by simp_all
    have ne: "cfd s x \<noteq> cfd s c" if "x \<in> L" for x
      using inj_onD [OF d(7), of x c] that l cl False by blast
    have w: "?w = sys_close N (cfd s c) (kernel s)"
      unfolding cL using False c0 by (simp add: socketBase_destroy_def cfd_def)
    have "cfd s c \<notin> cfd s ` L"
    proof
      assume "cfd s c \<in> cfd s ` L"
      then obtain x where x: "cfd s c = cfd s x" "x \<in> L" by (rule imageE)
      show False using ne [OF x(2)] x(1) by simp
    qed
    then have f: "fds (kernel s) - {cfd s c} = fds w0 \<union> cfd s ` L" using c0(2) by (auto simp: d(8) l)
    have b: "filter (\<lambda>(m, _). m \<noteq> cfd s c) (interest w0) = interest w0"
      using base c0(2) by (auto simp: filter_id_conv)
    have "((x = c \<or> x \<in> L) \<and> cfd s x \<noteq> cfd s c) = (x \<in> L)" for x using ne [of x] by metis
    then have "filter (\<lambda>(m, _). m \<noteq> cfd s c) (map (entry s) (filter (\<lambda>x. x \<in> live s) [0..<length (clients s)])) =
        map (entry s) (filter (\<lambda>x. x \<in> L) [0..<length (clients s)])"
      by (simp add: l filter_map o_def entry_def)
    with f b show ?thesis unfolding w k(4,5) d(9) by simp
  qed
  have "frames_inv fds interest n0 w0 ?s"
    unfolding frames_inv_def cf
  proof (intro conjI)
    show "n0 \<le> next_frame ?s" using d(1) by simp
    show "distinct (map fst (params ?s))" using d(2) by (simp add: distinct_map_filter)
    show "\<forall>(h, c) \<in> set (params ?s). n0 \<le> h \<and> h < next_frame ?s \<and> c < length (clients ?s)"
      using d(3) by auto
    show "\<forall>c < length (clients ?s). (chandler (clients ?s ! c), c) \<in> set (params ?s) \<or> chandler (clients ?s ! c) \<in> freed ?s"
      using d(4) by auto
    show "freed ?s \<subseteq> {n0..<next_frame ?s} - fst ` set (params ?s)"
    proof
      fix g assume "g \<in> freed ?s"
      then consider "g = h" | "g \<in> freed s" by auto
      then show "g \<in> {n0..<next_frame ?s} - fst ` set (params ?s)"
        by cases (use d(3) [OF c] d(5) in auto)
    qed
    show "\<forall>c \<in> live ?s. 0 \<le> cfd s c \<and> cfd s c \<notin> fds w0" using d(6) l unfolding L_def [symmetric] by blast
    show "inj_on (cfd s) (live ?s)" using inj unfolding L_def .
    show "fds (kernel ?s) = fds w0 \<union> cfd s ` live ?s" using w unfolding L_def [symmetric] by simp
    show "interest (kernel ?s) = interest w0 @ map (entry s) (filter (\<lambda>c. c \<in> live ?s) [0..<length (clients ?s)])"
      using w unfolding L_def [symmetric] by simp
  qed
  then show ?thesis by (simp add: r)
qed

lemma destroy_frame_rest [simp]:
  "tasks (destroy_frame N h s) = tasks s" "finished (destroy_frame N h s) = finished s"
  "freed (destroy_frame N h s) = insert h (freed s)" "next_frame (destroy_frame N h s) = next_frame s"
  "clients (destroy_frame N h s) = clients s"
  by (simp_all add: destroy_frame_def Let_def split: option.splits)

lemma frames_inv_destroys:
  assumes "conn_laws N ep fds interest limit" and "frames_inv fds interest n0 w0 s"
    and "\<forall>(m, ev) \<in> set (interest w0). m \<in> fds w0" and "set ds \<subseteq> fst ` set (params s)" and "distinct ds"
  shows "frames_inv fds interest n0 w0 (fold (destroy_frame N) ds s) \<and>
    params (fold (destroy_frame N) ds s) = filter (\<lambda>(g, _). g \<notin> set ds) (params s) \<and>
    tasks (fold (destroy_frame N) ds s) = tasks s \<and> finished (fold (destroy_frame N) ds s) = finished s \<and>
    freed (fold (destroy_frame N) ds s) = set ds \<union> freed s \<and> next_frame (fold (destroy_frame N) ds s) = next_frame s \<and>
    clients (fold (destroy_frame N) ds s) = clients s"
  using assms(2,4,5)
proof (induction ds arbitrary: s)
  case Nil
  then show ?case by (simp add: case_prod_unfold)
next
  case (Cons h ds)
  let ?t = "destroy_frame N h s"
  have t: "frames_inv fds interest n0 w0 ?t" "params ?t = filter (\<lambda>(g, _). g \<noteq> h) (params s)"
    using frames_inv_destroy [OF assms(1) Cons.prems(1) assms(3), of h] Cons.prems(2) by auto
  have "set ds \<subseteq> fst ` set (params ?t)" using Cons.prems(2,3) by (force simp: t(2))
  from Cons.IH [OF t(1) this] Cons.prems(3) show ?case
    by (auto simp: t(2) case_prod_unfold intro!: filter_cong)
qed

text \<open>A turn of the cleaner.\<close>

lemma bound_iff: "h \<in> bound s \<longleftrightarrow> map_of (taskBinding (tasks s)) h \<noteq> None"
  by (simp add: map_of_eq_None_iff)

lemma clean_connections_result:
  assumes laws: "conn_laws N ep fds interest limit" and inv: "conn_inv fds interest n0 w0 s"
    and base: "\<forall>(m, ev) \<in> set (interest w0). m \<in> fds w0"
  shows "\<exists>s'. clean_connections N s = Returns s' \<and> conn_inv fds interest n0 w0 s' \<and>
    next_frame s' = next_frame s \<and> clients s' = clients s \<and>
    (if length (taskBinding (tasks s)) < clean_threshold then s' = s
     else params s' = filter (\<lambda>(h, _). h \<notin> finished s) (params s) \<and> freed s' = freed s \<union> finished s)"
proof (cases "length (taskBinding (tasks s)) < clean_threshold")
  case True
  then have "clean_connections N s = Returns s" by (simp add: clean_connections_def cleanTasks_turn_def)
  with True inv show ?thesis by auto
next
  case False
  have p: "pool_inv (tasks s)" and fr: "frames_inv fds interest n0 w0 s"
    and bd: "bound s \<subseteq> {..<next_frame s} - freed s" and fi: "finished s \<subseteq> freed s \<union> (fst ` set (params s) \<inter> bound s)"
    using inv by (auto simp: conn_inv_def)
  obtain p ds where c: "cleanWork (\<lambda>h. h \<in> finished s) (tasks s) = Returns (p, ds)" "pool_inv p"
    "\<And>h. map_of (taskBinding p) h = (if h \<in> finished s then None else map_of (taskBinding (tasks s)) h)"
    "distinct ds" "set ds = {h \<in> bound s. h \<in> finished s}"
    using cleanWork_result [OF p, of "\<lambda>h. h \<in> finished s"] by blast
  let ?s = "s\<lparr>tasks := p\<rparr>"
  have sub: "set ds \<subseteq> fst ` set (params ?s)" using c(5) bd fi by auto
  have fr': "frames_inv fds interest n0 w0 ?s" using fr by (simp add: frames_inv_def)
  note f = frames_inv_destroys [OF laws fr' base sub c(4)]
  let ?t = "fold (destroy_frame N) ds ?s"
  have r: "clean_connections N s = Returns ?t" using c(1) False by (simp add: clean_connections_def cleanTasks_turn_def)
  have fin: "freed ?t = freed s \<union> finished s" using f c(5) fi by auto
  have ps: "params ?t = filter (\<lambda>(h, _). h \<notin> finished s) (params s)"
  proof -
    have "h \<in> set ds \<longleftrightarrow> h \<in> finished s" if "(h, x) \<in> set (params s)" for h x
      using that c(5) fi frames_invD(5) [OF fr, of h] by force
    then show ?thesis using f by (auto intro!: filter_cong)
  qed
  have b: "h \<in> bound ?t \<longleftrightarrow> h \<in> bound s \<and> h \<notin> finished s" for h
    unfolding bound_iff using f c(3) [of h] by simp
  have "conn_inv fds interest n0 w0 ?t"
    unfolding conn_inv_def
  proof (intro conjI)
    show "frames_inv fds interest n0 w0 ?t" "pool_inv (tasks ?t)" using f c(2) by simp_all
    show "bound ?t \<subseteq> {..<next_frame ?t} - freed ?t"
    proof
      fix h assume "h \<in> bound ?t"
      then have "h \<in> bound s \<and> h \<notin> finished s" by (rule b [THEN iffD1])
      then show "h \<in> {..<next_frame ?t} - freed ?t" using bd f fin by auto
    qed
    show "finished ?t \<subseteq> freed ?t \<union> (fst ` set (params ?t) \<inter> bound ?t)" using f fin by auto
  qed
  with r f fin ps False show ?thesis by auto
qed

lemma conn_inv_step:
  assumes laws: "conn_laws N ep fds interest limit" and base: "\<forall>(m, ev) \<in> set (interest w0). m \<in> fds w0 \<and> data_ptr ev < n0"
    and "conn_step N ep server fds interest s s'" and inv: "conn_inv fds interest n0 w0 s"
  shows "conn_inv fds interest n0 w0 s'"
proof -
  have p: "pool_inv (tasks s)" and fr: "frames_inv fds interest n0 w0 s"
    and bd: "bound s \<subseteq> {..<next_frame s} - freed s" and fi: "finished s \<subseteq> freed s \<union> (fst ` set (params s) \<inter> bound s)"
    using inv by (auto simp: conn_inv_def)
  note d = frames_invD [OF fr]
  from assms(3) show ?thesis
  proof cases
    case (accepts out)
    from accept_client_result [OF laws accepts] show ?thesis
    proof (elim disjE exE conjE)
      fix w assume "s' = s\<lparr>kernel := w\<rparr>" "fds w = fds (kernel s)" "interest w = interest (kernel s)"
      then show ?thesis using inv by (simp add: conn_inv_def frames_inv_def)
    next
      fix n w
      let ?s = "s\<lparr>kernel := w, next_frame := Suc (next_frame s),
        clients := clients s @ [\<lparr>csock = \<lparr>fd = n\<rparr>, chandler = next_frame s\<rparr>],
        params := params s @ [(next_frame s, length (clients s))]\<rparr>"
      assume s': "s' = ?s" and n: "0 \<le> n" "n \<notin> fds (kernel s)" "fds w = insert n (fds (kernel s))"
        and i: "interest w = interest (kernel s) @ [(n, \<lparr>events = client_events, data_ptr = next_frame s\<rparr>)]"
      have "frames_inv fds interest n0 w0 ?s" by (rule frames_inv_accept [OF fr n i])
      moreover have "bound ?s \<subseteq> {..<next_frame ?s} - freed ?s" using bd by (simp add: less_Suc_eq subset_iff)
      moreover have "finished ?s \<subseteq> freed ?s \<union> (fst ` set (params ?s) \<inter> bound ?s)" using fi by auto
      ultimately show ?thesis unfolding s' conn_inv_def using p by simp
    qed
  next
    case (event_arrives n ev q)
    have lt: "data_ptr ev < next_frame s"
    proof -
      from event_arrives(2) d(9) consider "(n, ev) \<in> set (interest w0)" |
        c where "c \<in> live s" "(n, ev) = entry s c" by auto
      then show ?thesis
      proof cases
        case 1
        then show ?thesis using base d(1) by fastforce
      next
        case 2
        then have "c < length (clients s)" "data_ptr ev = chandler (clients s ! c)"
          using d(6) by (simp_all add: entry_def)
        then show ?thesis using d(4) [of c] d(3,5) by auto
      qed
    qed
    obtain i where a: "pool_inv q" "fst ` set (taskBinding q) = insert (data_ptr ev) (bound s)"
      using addTask_result [OF p, of "data_ptr ev"] event_arrives(4) by (metis outcome.inject(1))
    have "frames_inv fds interest n0 w0 s'"
      using fr by (simp add: event_arrives(1) frames_inv_def)
    then show ?thesis using a lt bd fi event_arrives(1,3) by (auto simp: conn_inv_def)
  next
    case (responds h c)
    have m: "map_of (params s) h = Some c" using responds(1) d(2) by simp
    let ?r = "next_frame s"
    obtain q where a: "addTask ?r (tasks s) = Returns q" "pool_inv q" "fst ` set (taskBinding q) = insert ?r (bound s)"
      using addTask_result [OF p, of ?r] by metis
    let ?s = "s\<lparr>tasks := q, next_frame := Suc ?r, params := params s @ [(?r, c)]\<rparr>"
    have s': "s' = ?s" using responds(5) a(1) by (simp add: spawn_responder_def m Let_def)
    have lv: "live ?s = live s" using responds(1) by force
    have "frames_inv fds interest n0 w0 ?s"
      unfolding frames_inv_def
    proof (intro conjI)
      show "n0 \<le> next_frame ?s" using d(1) by simp
      have "?r \<notin> fst ` set (params s)" using d(3) by fastforce
      then show "distinct (map fst (params ?s))" using d(2) by simp
      show "\<forall>(h, c) \<in> set (params ?s). n0 \<le> h \<and> h < next_frame ?s \<and> c < length (clients ?s)"
        using d(1,3) responds(1) by fastforce
      show "\<forall>c < length (clients ?s). (chandler (clients ?s ! c), c) \<in> set (params ?s) \<or> chandler (clients ?s ! c) \<in> freed ?s"
        using d(4) by auto
      show "freed ?s \<subseteq> {n0..<next_frame ?s} - fst ` set (params ?s)"
      proof
        fix g assume "g \<in> freed ?s"
        then have "g \<in> freed s" by simp
        from d(5) [OF this] show "g \<in> {n0..<next_frame ?s} - fst ` set (params ?s)" by auto
      qed
    qed (use d(6-9) in \<open>simp_all only: lv, simp_all\<close>)
    moreover have "bound ?s \<subseteq> {..<next_frame ?s} - freed ?s" using bd a(3) d(5) [of ?r] by (auto simp: less_Suc_eq)
    moreover have "finished ?s \<subseteq> freed ?s \<union> (fst ` set (params ?s) \<inter> bound ?s)" using fi a(3) by auto
    ultimately show ?thesis unfolding s' conn_inv_def using a(2) by simp
  next
    case (finishes h)
    then show ?thesis
      using inv by (simp add: conn_inv_def frames_inv_def)
  next
    case cleans
    have "\<forall>(m, ev) \<in> set (interest w0). m \<in> fds w0" using base by auto
    with clean_connections_result [OF laws inv] cleans show ?thesis by auto
  next
    case (outside w)
    then show ?thesis using inv by (simp add: conn_inv_def frames_inv_def)
  qed
qed

lemma conn_inv_reachable:
  assumes "conn_laws N ep fds interest limit" and "start_ok fds interest p n w"
    and "(conn_step N ep server fds interest)\<^sup>*\<^sup>* (conn_start p n w) s"
  shows "conn_inv fds interest n w s"
  using assms(3)
proof (induction rule: rtranclp_induct)
  case base
  show ?case by (rule conn_inv_start [OF assms(2)])
next
  case (step s t)
  have "\<forall>(m, ev) \<in> set (interest w). m \<in> fds w \<and> data_ptr ev < n" using assms(2) by (simp add: start_ok_def)
  with conn_inv_step [OF assms(1) _ step(2,3)] show ?case by blast
qed

lemma bindings_card: "pool_inv p \<Longrightarrow> length (taskBinding p) = card (fst ` set (taskBinding p))"
  using distinct_card [of "map fst (taskBinding p)"] by (simp add: pool_inv_def)

subsection \<open>Properties\<close>

text \<open>
  C20: nobody uses a closed descriptor, and none is lost.  However the steps of all clients, coroutines and
  threads interleave, the descriptor of every client that a coroutine's frame points to is open and is not the
  descriptor of another client or of the server; and every open descriptor that the server did not have
  at its start belongs to such a client.
\<close>

theorem client_open_while_used:
  assumes "conn_laws N ep fds interest limit" and "start_ok fds interest p n w"
    and "(conn_step N ep server fds interest)\<^sup>*\<^sup>* (conn_start p n w) s"
  shows "fds (kernel s) = fds w \<union> cfd s ` live s \<and> cfd s ` live s \<inter> fds w = {} \<and> inj_on (cfd s) (live s)"
proof -
  have "frames_inv fds interest n w s" using conn_inv_reachable [OF assms] by (simp add: conn_inv_def)
  from frames_invD(6-8) [OF this] show ?thesis by auto
qed

text \<open>
  What the cleaner closes.  When enough tasks are bound for the cleaner to work, exactly the
  coroutines that have finished are destroyed, and of the clients' descriptors exactly those stay open that an
  unfinished coroutine points to.
\<close>

lemma cleaning_closes_finished:
  assumes "conn_laws N ep fds interest limit" and "start_ok fds interest p n w"
    and "(conn_step N ep server fds interest)\<^sup>*\<^sup>* (conn_start p n w) s"
    and "clean_threshold \<le> length (taskBinding (tasks s))"
  shows "\<exists>s'. clean_connections N s = Returns s' \<and> freed s' = freed s \<union> finished s \<and>
    fds (kernel s') = fds w \<union> {cfd s c | h c. (h, c) \<in> set (params s) \<and> h \<notin> finished s}"
proof -
  note inv = conn_inv_reachable [OF assms(1-3)]
  have base: "\<forall>(m, ev) \<in> set (interest w). m \<in> fds w" using assms(2) by (auto simp: start_ok_def)
  obtain s' where s': "clean_connections N s = Returns s'" "conn_inv fds interest n w s'" "clients s' = clients s"
    "params s' = filter (\<lambda>(h, _). h \<notin> finished s) (params s)" "freed s' = freed s \<union> finished s"
    using clean_connections_result [OF assms(1) inv base] assms(4) by auto
  have "frames_inv fds interest n w s'" using s'(2) by (simp add: conn_inv_def)
  from frames_invD(8) [OF this] have "fds (kernel s') = fds w \<union> cfd s ` live s'" using cfd_cong(1) [OF s'(3)] by simp
  moreover have "cfd s ` live s' = {cfd s c | h c. (h, c) \<in> set (params s) \<and> h \<notin> finished s}" by (force simp: s'(4))
  ultimately show ?thesis using s'(1,5) by auto
qed

text \<open>
  C21: the server runs out of descriptors and stays so.  If as many descriptors are open as the system
  allows and fewer than 10000 coroutines were ever started, then even when every coroutine of every client
  has finished no step of any kind closes a descriptor or accepts a client again, because the cleaner
  does not work before that many tasks are bound, and only coroutines of new clients could be bound.
\<close>

theorem exhausted_server_is_stuck:
  assumes "conn_laws N ep fds interest limit" and "start_ok fds interest p n w"
    and "(conn_step N ep server fds interest)\<^sup>*\<^sup>* (conn_start p n w) s"
    and "limit \<le> card (fds (kernel s))" and "fst ` set (params s) \<subseteq> finished s" and "next_frame s < clean_threshold"
    and "(conn_step N ep server fds interest)\<^sup>*\<^sup>* s t"
  shows "clients t = clients s \<and> fds (kernel t) = fds (kernel s)"
proof -
  have "params t = params s \<and> finished t = finished s \<and> next_frame t = next_frame s \<and> clients t = clients s \<and>
    fds (kernel t) = fds (kernel s)"
    using assms(7)
  proof (induction rule: rtranclp_induct)
    case (step t u)
    have "(conn_step N ep server fds interest)\<^sup>*\<^sup>* (conn_start p n w) t" using assms(3) step(1) by (rule rtranclp_trans)
    note inv = conn_inv_reachable [OF assms(1,2) this]
    then have b: "pool_inv (tasks t)" "bound t \<subseteq> {..<next_frame t}" by (auto simp: conn_inv_def)
    have "card (bound t) \<le> next_frame t" using card_mono [OF _ b(2)] by simp
    then have few: "length (taskBinding (tasks t)) < clean_threshold"
      using bindings_card [OF b(1)] step(3) assms(6) by simp
    from step(2) show ?case
    proof cases
      case (accepts out)
      from accept_client_result [OF assms(1) accepts] assms(4) step(3) show ?thesis by auto
    next
      case cleans
      then show ?thesis using few step(3) by (auto simp: clean_connections_def cleanTasks_turn_def)
    qed (use step(3) assms(5) in force)+
  qed simp
  then show ?thesis by simp
qed

text \<open>
  An event can name a destroyed coroutine.  The interest list still has the address of a client's
  destroyed session exactly when one of the client's responders has outlived the clean-up: the descriptor is
  then still open, and the next event on it makes \<^verbatim>\<open>epollWaitEvent\<close> use that address.
\<close>

lemma event_of_destroyed_session:
  assumes "conn_laws N ep fds interest limit" and "start_ok fds interest p n w"
    and "(conn_step N ep server fds interest)\<^sup>*\<^sup>* (conn_start p n w) s"
  shows "(\<exists>(m, ev) \<in> set (interest (kernel s)). data_ptr ev \<in> freed s) \<longleftrightarrow>
    (\<exists>(r, c) \<in> set (params s). chandler (clients s ! c) \<in> freed s)"
proof -
  have fr: "frames_inv fds interest n w s" using conn_inv_reachable [OF assms] by (simp add: conn_inv_def)
  note d = frames_invD [OF fr]
  have old: "data_ptr (snd x) \<notin> freed s" if "x \<in> set (interest w)" for x
    using assms(2) that d(5) [of "data_ptr (snd x)"] by (auto simp: start_ok_def)
  have new: "data_ptr (snd (entry s c)) = chandler (clients s ! c)" for c by (simp add: entry_def)
  have mem: "set (interest (kernel s)) = set (interest w) \<union> entry s ` {c. c < length (clients s) \<and> c \<in> live s}"
    by (simp only: d(9) set_append set_map set_filter atLeast_upt [symmetric] lessThan_iff)
  have "(\<exists>x \<in> set (interest (kernel s)). data_ptr (snd x) \<in> freed s) \<longleftrightarrow>
      (\<exists>c. c < length (clients s) \<and> c \<in> live s \<and> chandler (clients s ! c) \<in> freed s)"
    unfolding mem bex_Un bex_simps(7) new using old by (simp add: conj_assoc)
  also have "\<dots> \<longleftrightarrow> (\<exists>(r, c) \<in> set (params s). chandler (clients s ! c) \<in> freed s)" using d(3) by force
  finally show ?thesis by (simp only: case_prod_unfold)
qed

subsection \<open>A concrete server\<close>

text \<open>
  A kernel with \<open>limit\<close> descriptors; the server has the epoll instance 3 and listens on 4, and its
  coroutines are the accept loop 1 and the event loop 0.
\<close>

definition demo_conn_os :: "nat \<Rightarrow> demo_net net_os" where
  "demo_conn_os limit = (demo_net_os 0)
     \<lparr>sys_accept := (\<lambda>n w.
        if limit \<le> card (set (nfds w)) then (\<lparr>ret = -1, errno = EMFILE\<rparr>, w)
        else case backlog w of [] \<Rightarrow> (\<lparr>ret = -1, errno = EAGAIN\<rparr>, w)
          | c # cs \<Rightarrow> (\<lparr>ret = int (Suc (sum_list (nfds w))), errno = 0\<rparr>,
                       w\<lparr>backlog := cs, nfds := Suc (sum_list (nfds w)) # nfds w\<rparr>)),
      sys_close := (\<lambda>n w. w\<lparr>nfds := filter (\<lambda>x. int x \<noteq> n) (nfds w),
                            ninterest := filter (\<lambda>(m, _). m \<noteq> n) (ninterest w)\<rparr>)\<rparr>"

abbreviation demo_fds :: "demo_net \<Rightarrow> int set" where
  "demo_fds w \<equiv> int ` set (nfds w)"

lemma demo_conn_laws: "conn_laws (demo_conn_os limit) \<lparr>epfd = 3\<rparr> demo_fds ninterest limit"
proof -
  have fresh: "Suc (sum_list (nfds w)) \<notin> set (nfds w)" "1 + int (sum_list (nfds w)) \<notin> int ` set (nfds w)"
    "Suc (sum_list (ninfos w)) \<notin> set (ninfos w)" for w
    using sum_fresh [of "Suc (sum_list (nfds w))" "nfds w"] sum_fresh [of "Suc (sum_list (ninfos w))" "ninfos w"]
    by (auto dest!: sum_fresh)
  have c: "card (demo_fds w) = card (set (nfds w))" for w by (simp add: card_image inj_on_def)
  show ?thesis
    unfolding conn_laws_def
  proof (intro conjI allI impI exI)
    show "net_fd_laws (demo_conn_os limit) demo_fds (\<lambda>w. set (ninfos w))"
      using fresh by (auto simp: net_fd_laws_def demo_conn_os_def demo_net_os_def)
    show "interest_laws (demo_conn_os limit) \<lparr>epfd = 3\<rparr> ninterest"
      by (auto simp: interest_laws_def demo_conn_os_def demo_net_os_def split: list.splits)
    show "if ret r < 0 then demo_fds w' = demo_fds w
        else card (demo_fds w) < limit \<and> ret r \<notin> demo_fds w \<and> demo_fds w' = insert (ret r) (demo_fds w)"
      if "sys_accept (demo_conn_os limit) n w = (r, w')" for n w r w'
      using that fresh(2) [of w] unfolding c by (auto simp: demo_conn_os_def split: list.splits if_splits)
    show "demo_fds (snd (epoll_ctl (demo_conn_os limit) n x m ev w)) = demo_fds w" for n x m ev w
      by (simp add: demo_conn_os_def demo_net_os_def split: epoll_op.splits option.splits)
    show "ninterest (sys_close (demo_conn_os limit) n w) = filter (\<lambda>(m, _). m \<noteq> n) (ninterest w)" for n w
      by (simp add: demo_conn_os_def)
  qed
qed

definition demo_kernel :: demo_net where
  "demo_kernel = \<lparr>nfds = [3, 4], ninfos = [], backlog = [0], ninterest = [(4, \<lparr>events = EPOLLIN, data_ptr = 1\<rparr>)]\<rparr>"

lemma demo_start: "start_ok demo_fds ninterest (new_pool 2) 2 demo_kernel"
  using pool_inv_new [of 2] by (simp add: start_ok_def demo_kernel_def) (simp add: new_pool_def)

abbreviation demo_step :: "nat \<Rightarrow> demo_net conns \<Rightarrow> demo_net conns \<Rightarrow> bool" where
  "demo_step limit \<equiv> conn_step (demo_conn_os limit) \<lparr>epfd = 3\<rparr> \<lparr>fd = 4\<rparr> demo_fds ninterest"

text \<open>One client has connected, and its session has had its first event.\<close>

definition demo_client :: "demo_net conns" where
  "demo_client = \<lparr>kernel = \<lparr>nfds = [8, 3, 4], ninfos = [], backlog = [],
       ninterest = [(4, \<lparr>events = EPOLLIN, data_ptr = 1\<rparr>), (8, \<lparr>events = client_events, data_ptr = 2\<rparr>)]\<rparr>,
     tasks = \<lparr>queueList = [[2], []], currentQueue = Node 1, taskBinding = [(2, Node 0)]\<rparr>, next_frame = 3,
     clients = [\<lparr>csock = \<lparr>fd = 8\<rparr>, chandler = 2\<rparr>], params = [(2, 0)], finished = {}, freed = {}\<rparr>"

lemma demo_client_reachable:
  assumes "2 < limit"
  shows "(demo_step limit)\<^sup>*\<^sup>* (conn_start (new_pool 2) 2 demo_kernel) demo_client"
proof -
  let ?s = "demo_client\<lparr>tasks := new_pool 2\<rparr>"
  have "accept_client (demo_conn_os limit) \<lparr>epfd = 3\<rparr> \<lparr>fd = 4\<rparr> (conn_start (new_pool 2) 2 demo_kernel) = (None, ?s)"
    using assms
    by (simp add: accept_client_def acceptAll_turn_def conn_start_def demo_kernel_def demo_conn_os_def demo_net_os_def
        reactorSocket_ctor_def or_throw_def addEvent_def checkError_def Let_def demo_client_def)
  then have 1: "demo_step limit (conn_start (new_pool 2) 2 demo_kernel) ?s" by (rule conn_step.accepts) simp
  have "addTask 2 (new_pool 2) = Returns (tasks demo_client)"
    by (simp add: addTask_def bindTask_def pushTask_def new_pool_def demo_client_def iter_next_def numeral_2_eq_2)
  then have "demo_step limit ?s (?s\<lparr>tasks := tasks demo_client\<rparr>)"
    by (intro conn_step.event_arrives [of 8 "\<lparr>events = client_events, data_ptr = 2\<rparr>"]) (simp_all add: demo_client_def)
  then have "demo_step limit ?s demo_client" by (simp add: demo_client_def)
  with 1 show ?thesis by (meson converse_rtranclp_into_rtranclp rtranclp.rtrancl_refl)
qed

text \<open>A session that starts \<open>k\<close> responders.\<close>

lemma many_responders:
  assumes "pool_inv (tasks s)" and "map_of (params s) h = Some c" and "chandler (clients s ! c) = h"
    and "h \<in> bound s" and "h \<notin> finished s"
  shows "\<exists>t. (conn_step N ep server fds interest)\<^sup>*\<^sup>* s t \<and> kernel t = kernel s \<and> clients t = clients s \<and>
    finished t = finished s \<and> freed t = freed s \<and> pool_inv (tasks t) \<and> map_of (params t) h = Some c \<and>
    bound t = bound s \<union> {next_frame s..<next_frame s + k} \<and> next_frame t = next_frame s + k \<and>
    set (params t) = set (params s) \<union> (\<lambda>r. (r, c)) ` {next_frame s..<next_frame s + k}"
proof (induction k)
  case 0
  then show ?case using assms(1,2) by (intro exI [of _ s]) simp
next
  case (Suc k)
  then obtain t where t: "(conn_step N ep server fds interest)\<^sup>*\<^sup>* s t" "kernel t = kernel s" "clients t = clients s"
    "finished t = finished s" "freed t = freed s" "pool_inv (tasks t)" "map_of (params t) h = Some c"
    "bound t = bound s \<union> {next_frame s..<next_frame s + k}" "next_frame t = next_frame s + k"
    "set (params t) = set (params s) \<union> (\<lambda>r. (r, c)) ` {next_frame s..<next_frame s + k}"
    by (elim exE conjE) (rule that)
  let ?r = "next_frame t"
  obtain q where q: "addTask ?r (tasks t) = Returns q" "pool_inv q" "fst ` set (taskBinding q) = insert ?r (bound t)"
    using addTask_result [OF t(6), of ?r] by metis
  let ?u = "t\<lparr>tasks := q, next_frame := Suc ?r, params := params t @ [(?r, c)]\<rparr>"
  have "conn_step N ep server fds interest t ?u"
  proof (rule conn_step.responds)
    show "(h, c) \<in> set (params t)" using t(7) by (rule map_of_SomeD)
    show "chandler (clients t ! c) = h" "h \<in> bound t" "h \<notin> finished t" using assms(3-5) t(3,4,8) by auto
    show "spawn_responder h t = Returns ?u" using t(7) q(1) by (simp add: spawn_responder_def Let_def)
  qed
  with t(1) have st: "(conn_step N ep server fds interest)\<^sup>*\<^sup>* s ?u" by (rule rtranclp.rtrancl_into_rtrancl)
  have up: "{next_frame s..<next_frame s + Suc k} = insert ?r {next_frame s..<next_frame s + k}" by (auto simp: t(9))
  show ?case
    using st q t(2-7,9) unfolding up by (intro exI [of _ ?u]) (simp add: t(8,10) image_iff)
qed

text \<open>The session has started 9999 responders, which have not finished, and has finished itself.\<close>

lemma demo_session_over:
  "\<exists>s. (demo_step 1024)\<^sup>*\<^sup>* (conn_start (new_pool 2) 2 demo_kernel) s \<and> clients s = clients demo_client \<and>
     finished s = {2} \<and> freed s = {} \<and> clean_threshold \<le> length (taskBinding (tasks s)) \<and>
     set (params s) = insert (2, 0) ((\<lambda>r. (r, 0)) ` {3..<10002})"
proof -
  have p: "pool_inv (tasks demo_client)"
    by (auto simp: pool_inv_def demo_client_def less_Suc_eq)
  obtain s where s: "(demo_step 1024)\<^sup>*\<^sup>* demo_client s" "clients s = clients demo_client" "finished s = {}" "freed s = {}"
    "pool_inv (tasks s)" "bound s = insert 2 {3..<10002}" "set (params s) = insert (2, 0) ((\<lambda>r. (r, 0)) ` {3..<10002})"
    using many_responders [OF p, of 2 0 "demo_conn_os 1024" "\<lparr>epfd = 3\<rparr>" "\<lparr>fd = 4\<rparr>" demo_fds ninterest 9999]
    by (auto simp: demo_client_def)
  have st: "demo_step 1024 s (s\<lparr>finished := insert 2 (finished s)\<rparr>)"
    by (rule conn_step.finishes) (simp_all add: s)
  have r: "(demo_step 1024)\<^sup>*\<^sup>* (conn_start (new_pool 2) 2 demo_kernel) (s\<lparr>finished := insert 2 (finished s)\<rparr>)"
  proof (rule rtranclp.rtrancl_into_rtrancl)
    show "(demo_step 1024)\<^sup>*\<^sup>* (conn_start (new_pool 2) 2 demo_kernel) s"
      by (rule rtranclp_trans [OF demo_client_reachable s(1)]) simp
  qed (rule st)
  have "length (taskBinding (tasks s)) = 10000" using bindings_card [OF s(5)] by (simp add: s(6))
  with r s show ?thesis
    by (intro exI [of _ "s\<lparr>finished := insert 2 (finished s)\<rparr>"]) (simp add: clean_threshold_def)
qed

theorem client_open_while_used_witness:
  "(demo_step 3)\<^sup>*\<^sup>* (conn_start (new_pool 2) 2 demo_kernel) demo_client \<and>
   demo_fds (kernel demo_client) = demo_fds demo_kernel \<union> cfd demo_client ` {0}"
  using client_open_while_used [OF demo_conn_laws demo_start demo_client_reachable [of 3]] demo_client_reachable [of 3]
  by (simp add: demo_client_def)

theorem exhausted_server_is_stuck_witness:
  "\<exists>s t. (demo_step 3)\<^sup>*\<^sup>* (conn_start (new_pool 2) 2 demo_kernel) s \<and> demo_step 3 s t \<and>
     finished s = {2} \<and> demo_fds (kernel t) = {3, 4, 8}"
proof -
  let ?s = "demo_client\<lparr>finished := {2}\<rparr>"
  obtain p where "addTask 1 (tasks ?s) = Returns p"
    by (simp add: addTask_def bindTask_def pushTask_def demo_client_def iter_next_def list_begin_def)
  then have st: "demo_step 3 ?s (?s\<lparr>tasks := p\<rparr>)"
    by (intro conn_step.event_arrives [of 4 "\<lparr>events = EPOLLIN, data_ptr = 1\<rparr>"]) (simp_all add: demo_client_def)
  have "demo_step 3 demo_client (demo_client\<lparr>finished := insert 2 (finished demo_client)\<rparr>)"
    by (rule conn_step.finishes) (simp_all add: demo_client_def)
  then have r: "(demo_step 3)\<^sup>*\<^sup>* (conn_start (new_pool 2) 2 demo_kernel) ?s"
    using rtranclp.rtrancl_into_rtrancl [OF demo_client_reachable [of 3]] by (simp add: demo_client_def)
  have st': "(demo_step 3)\<^sup>*\<^sup>* ?s (?s\<lparr>tasks := p\<rparr>)" using st by (rule r_into_rtranclp)
  have "demo_fds (kernel ?s) = {3, 4, 8}" by (auto simp: demo_client_def)
  moreover from this have "demo_fds (kernel (?s\<lparr>tasks := p\<rparr>)) = demo_fds (kernel ?s)"
    using exhausted_server_is_stuck [OF demo_conn_laws demo_start r _ _ _ st']
    by (simp add: demo_client_def clean_threshold_def)
  ultimately show ?thesis using st r
    by (intro exI [of _ ?s] exI [of _ "?s\<lparr>tasks := p\<rparr>"]) simp
qed

end
