(* ===== verification/UringSockets.thy ===== *)
theory UringSockets
  imports Uring Sockets
begin

text \<open>
  Creating the ring (\<^verbatim>\<open>include/async/Uring.hpp\<close>), the objects of
  \<^verbatim>\<open>include/uring/Socket.hpp\<close>, and its accept loop run against the ring.

  The accept loop is a step relation: one step is a turn of its \<^verbatim>\<open>while\<close>, from the request to the
  result of the await, with the completions that the event loop reaps in between.
\<close>

subsection \<open>The ring\<close>

record uring_params =
  params_flags :: "32 word"
  sq_entries :: "32 word"
  cq_entries :: "32 word"
  sq_thread_idle :: "32 word"

record 'u uring_setup =
  queue_init_params :: "32 word \<Rightarrow> uring_params \<Rightarrow> int \<times> 'u"
  ring_fd :: "'u \<Rightarrow> int"
  queue_exit :: "'u \<Rightarrow> 'u"

definition MAX_ENTRIES :: "32 word" where "MAX_ENTRIES = 1024"
definition IORING_SETUP_SQPOLL :: "32 word" where "IORING_SETUP_SQPOLL = 2"
definition IORING_SETUP_CQSIZE :: "32 word" where "IORING_SETUP_CQSIZE = 8"

definition uring_ctor_params :: uring_params where
  "uring_ctor_params =
     (let params = \<lparr>params_flags = 0, sq_entries = 0, cq_entries = 0, sq_thread_idle = 0\<rparr>
      in params\<lparr>params_flags := or (params_flags params) (or IORING_SETUP_SQPOLL IORING_SETUP_CQSIZE),
                sq_entries := MAX_ENTRIES, cq_entries := MAX_ENTRIES * 8, sq_thread_idle := 10000\<rparr>)"

text \<open>The user data objects \<open>hp\<close> and the next new coroutine \<open>n\<close> belong to the model, not to the object.\<close>

definition uringInstance_ctor ::
  "'u uring_setup \<Rightarrow> threadPool \<Rightarrow> (nat \<Rightarrow> userData) \<Rightarrow> hnd \<Rightarrow> 'u uringInstance outcome" where
  "uringInstance_ctor S p hp n =
     (case queue_init_params S MAX_ENTRIES uring_ctor_params of
        (rv, u) \<Rightarrow>
          if rv < 0 then Throws (RuntimeError ''Failed to initialize uring'')
          else Returns \<lparr>uring = u, uringFd = ring_fd S u, uring_pool = p, heap = hp, next_coro = n, handler_calls = []\<rparr>)"

definition uringInstance_destroy :: "'u uring_setup \<Rightarrow> 'u uringInstance \<Rightarrow> 'u uringInstance" where
  "uringInstance_destroy S st = st\<lparr>uring := queue_exit S (uring st)\<rparr>"

subsection \<open>asyncSocket\<close>

record asyncSocket = socketBase +
  closed :: bool

definition asyncSocket_ctor :: "int \<Rightarrow> asyncSocket" where
  "asyncSocket_ctor n = \<lparr>fd = n, closed = False\<rparr>"

text \<open>
  Moving moves the descriptor only: a new object is not closed, an assigned one keeps its flag.
\<close>

definition asyncSocket_move :: "asyncSocket \<Rightarrow> asyncSocket \<times> asyncSocket" where
  "asyncSocket_move other =
     (case socketBase_move (socketBase.truncate other) of
        (this, rest) \<Rightarrow> (asyncSocket_ctor (fd this), other\<lparr>fd := fd rest\<rparr>))"

definition asyncSocket_assign :: "asyncSocket \<Rightarrow> asyncSocket \<Rightarrow> asyncSocket \<times> asyncSocket" where
  "asyncSocket_assign this other =
     (case socketBase_assign (socketBase.truncate this) (socketBase.truncate other) of
        (b, rest) \<Rightarrow> (this\<lparr>fd := fd b\<rparr>, other\<lparr>fd := fd rest\<rparr>))"

subsection \<open>The awaiters\<close>

text \<open>The arguments of a request and the address of the awaiter's \<^verbatim>\<open>callerData\<close>.\<close>

record ioAwaiter =
  aw_fd :: int
  aw_buf :: nat
  aw_len :: "64 word"
  aw_flags :: int
  aw_callerData :: nat

definition sendAwaiter_ctor :: "int \<Rightarrow> nat \<Rightarrow> 64 word \<Rightarrow> int \<Rightarrow> nat \<Rightarrow> ioAwaiter" where
  "sendAwaiter_ctor argFd argBuf argLen argFlags d =
     \<lparr>aw_fd = argFd, aw_buf = argBuf, aw_len = argLen, aw_flags = argFlags, aw_callerData = d\<rparr>"

definition recvAwaiter_ctor :: "int \<Rightarrow> nat \<Rightarrow> 64 word \<Rightarrow> int \<Rightarrow> nat \<Rightarrow> ioAwaiter" where
  "recvAwaiter_ctor argFd argBuf argLen argFlags d =
     \<lparr>aw_fd = argFd, aw_buf = argBuf, aw_len = argLen, aw_flags = argFlags, aw_callerData = d\<rparr>"

definition asyncSocket_send :: "asyncSocket \<Rightarrow> nat \<Rightarrow> 64 word \<Rightarrow> int \<Rightarrow> nat \<Rightarrow> ioAwaiter" where
  "asyncSocket_send s buf len flags d = sendAwaiter_ctor (fd s) buf len flags d"

definition asyncSocket_recv :: "asyncSocket \<Rightarrow> nat \<Rightarrow> 64 word \<Rightarrow> int \<Rightarrow> nat \<Rightarrow> ioAwaiter" where
  "asyncSocket_recv s buf len flags d = recvAwaiter_ctor (fd s) buf len flags d"

definition ioAwaiter_ready :: "ioAwaiter \<Rightarrow> bool" where
  "ioAwaiter_ready a = False"

text \<open>\<^verbatim>\<open>co_await\<close> of an awaiter up to the point where the coroutine is suspended or goes on.\<close>

definition await_send :: "'u uring_ops \<Rightarrow> ioAwaiter \<Rightarrow> hnd \<Rightarrow> 'u uringInstance \<Rightarrow> bool \<times> 'u uringInstance" where
  "await_send U a coro st =
     (if ioAwaiter_ready a then (False, st)
      else sendAwaiter_suspend U (aw_fd a) (aw_buf a) (aw_len a) (aw_flags a) (aw_callerData a) coro st)"

definition await_recv :: "'u uring_ops \<Rightarrow> ioAwaiter \<Rightarrow> hnd \<Rightarrow> 'u uringInstance \<Rightarrow> bool \<times> 'u uringInstance" where
  "await_recv U a coro st =
     (if ioAwaiter_ready a then (False, st)
      else recvAwaiter_suspend U (aw_fd a) (aw_buf a) (aw_len a) (aw_flags a) (aw_callerData a) coro st)"

subsection \<open>The accept loop\<close>

text \<open>Among the completions \<open>cs\<close> are those of one multishot request, up to its last one.\<close>

definition request_ends :: "nat \<Rightarrow> cqe list \<Rightarrow> bool" where
  "request_ends d cs \<longleftrightarrow>
     (let ds = filter (\<lambda>c. user_data c = d) cs
      in ds \<noteq> [] \<and> \<not> cqe_more (last ds) \<and> (\<forall>c \<in> set (butlast ds). cqe_more c))"

text \<open>
  \<open>accept_runs\<close>: turns of \<^verbatim>\<open>asyncAccept\<close> in the coroutine \<open>h\<close>, with the completions reaped during
  each await; the third rule is the turn whose request found no room.
\<close>

inductive accept_runs ::
  "'u uring_ops \<Rightarrow> socketBase \<Rightarrow> nat \<Rightarrow> nat \<Rightarrow> hnd \<Rightarrow> 'u uringInstance \<Rightarrow> cqe list list \<Rightarrow> 'u uringInstance \<Rightarrow> bool"
  for U server f d h where
  accept_start: "accept_runs U server f d h st [] st"
| accept_turned:
    "\<lbrakk>accept_runs U server f d h st css st1;
      multishotAcceptAwaiter_suspend U (fd server) f d h st1 = (True, st2);
      request_ends d cs; ring_gives U (uring st2) cs; reapIOs U (Suc (length cs)) st2 = Returns (True, st3);
      accept_turn (await_resume d st3) = Returns ()\<rbrakk> \<Longrightarrow>
     accept_runs U server f d h st (css @ [cs]) st3"
| accept_busy:
    "\<lbrakk>accept_runs U server f d h st css st1;
      multishotAcceptAwaiter_suspend U (fd server) f d h st1 = (False, st2);
      accept_turn (await_resume d st2) = Returns ()\<rbrakk> \<Longrightarrow>
     accept_runs U server f d h st css st2"

subsection \<open>What the ring is given\<close>

lemma submitted_peek:
  assumes "ring_laws U"
  shows "peek_cqe U u = (rv, c, u') \<Longrightarrow> submitted U u' = submitted U u" and "submitted U (cqe_seen U q u) = submitted U u"
proof -
  note l = assms [unfolded ring_laws_def]
  show "peek_cqe U u = (rv, c, u') \<Longrightarrow> submitted U u' = submitted U u"
    by (rule l [THEN conjunct1, rule_format])
  show "submitted U (cqe_seen U q u) = submitted U u"
    using l [THEN conjunct2, THEN conjunct1, rule_format] .
qed

lemma prep_request_submits:
  assumes "ring_laws U" and "prep_request U r d st = (out, st')"
  shows "submitted U (uring st') = submitted U (uring st) @ (case out of Inl _ \<Rightarrow> [] | Inr _ \<Rightarrow> [(r, d)])"
proof -
  note l = assms(1) [unfolded ring_laws_def, THEN conjunct2, THEN conjunct2]
  have "submitted U u = submitted U (uring st)" if "get_sqe U (uring st) = (None, u)" for u
    using l [THEN conjunct1, rule_format, OF that] .
  moreover have "submitted U (submit U (sqe_prep U s r (sqe_set_data U s d u))) = submitted U (uring st) @ [(r, d)]"
    if "get_sqe U (uring st) = (Some s, u)" for s u
    using l [THEN conjunct2, rule_format, OF that] .
  ultimately show ?thesis using assms(2)
    by (auto simp: prep_request_def Let_def split: prod.splits option.splits)
qed

lemma wake_uring: "wake h st = Returns st' \<Longrightarrow> uring st' = uring st"
  by (cases "addTask h (uring_pool st)") (auto simp: wake_def)

lemma call_handler_uring: "call_handler f v st = Returns st' \<Longrightarrow> uring st' = uring st"
  by (auto simp: call_handler_def dest!: wake_uring)

lemma process_cqe_uring: "process_cqe c st = Returns st' \<Longrightarrow> uring st' = uring st"
  by (auto simp: process_cqe_def Let_def outcome_bind_Returns set_returnVal_def split: if_splits
      dest!: wake_uring call_handler_uring)

lemma reapIOs_submits:
  assumes "ring_laws U" and "reapIOs U n st = Returns (b, st')"
  shows "submitted U (uring st') = submitted U (uring st)"
  using assms(2)
proof (induction n arbitrary: st)
  case (Suc n)
  then obtain y s1 where t: "reap_turn U st = Returns (y, s1)" by (cases "reap_turn U st") auto
  have "submitted U (uring s1) = submitted U (uring st)"
    using t
    by (auto simp: reap_turn_def Let_def outcome_bind_Returns submitted_peek [OF assms(1)]
        split: prod.splits if_splits option.splits dest!: process_cqe_uring)
  with Suc t show ?case by (auto split: if_splits)
qed simp

subsection \<open>The accept loop serves every connection\<close>

lemma accept_suspend_result:
  assumes "ring_laws U" and "multishotAcceptAwaiter_suspend U n f d h st = (b, st2)"
  shows "submitted U (uring st2) = submitted U (uring st) @ (if b then [(MultishotAccept n 0, d)] else [])
    \<and> uring_pool st2 = uring_pool st \<and> handler_calls st2 = handler_calls st
    \<and> multishot (heap st2 d) \<and> multishotHandler (heap st2 d) = f \<and> (\<forall>x. x \<noteq> d \<longrightarrow> heap st2 x = heap st x)"
proof -
  let ?s = "st\<lparr>heap := (heap st)(d := (heap st d)\<lparr>handle := h, multishot := True, multishotHandler := f\<rparr>)\<rparr>"
  obtain out s where p: "prep_request U (MultishotAccept n 0) d ?s = (out, s)" by fastforce
  have keep: "heap s = heap ?s" "uring_pool s = uring_pool st" "handler_calls s = handler_calls st"
    using p by (auto simp: prep_request_def Let_def split: prod.splits option.splits)
  have "b = (out = Inr ())" "st2 = (case out of Inl e \<Rightarrow> set_returnVal d (Inl e) s | Inr _ \<Rightarrow> s)"
    using assms(2) p
    by (auto simp: multishotAcceptAwaiter_suspend_def prep_multishot_accept_and_process_def suspend_result_def
        Let_def split: sum.splits)
  then show ?thesis using keep prep_request_submits [OF assms(1) p]
    by (cases out) (auto simp: set_returnVal_def)
qed

lemma handled_one:
  assumes "multishot (hp d)" and "multishotHandler (hp d) = f"
    and "\<forall>c \<in> set cs. user_data c \<noteq> d \<longrightarrow> \<not> multishot (hp (user_data c))"
  shows "map snd (handled hp n cs) = map (\<lambda>c. (f, res c)) (filter (\<lambda>c. user_data c = d \<and> 0 \<le> res c) cs)"
  using assms(3)
proof (induction cs arbitrary: n)
  case (Cons c cs)
  then show ?case using assms(1,2) by (cases "user_data c = d") (auto simp: accepted_def)
qed simp

text \<open>
  The accept loop serves every connection once.  However many turns \<^verbatim>\<open>asyncAccept\<close> has made,
  and whatever other sends and receives completed in between, the handlers that were called are
  exactly the handler of the loop, once for each accepted descriptor and in order; the
  coroutines they made wait in the pool; and each turn that suspended gave the kernel one
  multishot accept request for the listening socket, no other request was made.
\<close>

lemma accept_loop_serves_all:
  assumes "ring_laws U" and "pool_inv (uring_pool st)" and "accept_runs U server f d h st css st'"
    and "\<forall>c \<in> set (concat css). user_data c \<noteq> d \<longrightarrow> \<not> multishot (heap st (user_data c))"
  shows "\<exists>new. handler_calls st' = handler_calls st @ new \<and>
    map snd new = map (\<lambda>c. (f, res c)) (filter (\<lambda>c. user_data c = d \<and> 0 \<le> res c) (concat css)) \<and>
    mset (map fst new) \<subseteq># waiting (uring_pool st') \<and>
    submitted U (uring st') = submitted U (uring st) @ replicate (length css) (MultishotAccept (fd server) 0, d)"
proof -
  have "(\<exists>new. handler_calls st' = handler_calls st @ new \<and>
      map snd new = map (\<lambda>c. (f, res c)) (filter (\<lambda>c. user_data c = d \<and> 0 \<le> res c) (concat css)) \<and>
      mset (map fst new) \<subseteq># waiting (uring_pool st') \<and>
      submitted U (uring st') = submitted U (uring st) @ replicate (length css) (MultishotAccept (fd server) 0, d)) \<and>
    pool_inv (uring_pool st') \<and> (\<forall>x. x \<noteq> d \<longrightarrow> multishot (heap st' x) = multishot (heap st x))"
    using assms(3,2,4)
  proof (induction rule: accept_runs.induct)
    case (accept_start st)
    then show ?case by simp
  next
    case (accept_busy st css st1 st2)
    then show ?case using accept_suspend_result [OF assms(1) accept_busy.hyps(2)] by auto
  next
    case (accept_turned st css st1 st2 cs st3)
    then obtain new where new: "handler_calls st1 = handler_calls st @ new"
      "map snd new = map (\<lambda>c. (f, res c)) (filter (\<lambda>c. user_data c = d \<and> 0 \<le> res c) (concat css))"
      "mset (map fst new) \<subseteq># waiting (uring_pool st1)"
      "submitted U (uring st1) = submitted U (uring st) @ replicate (length css) (MultishotAccept (fd server) 0, d)"
      and st1: "pool_inv (uring_pool st1)" "\<forall>x. x \<noteq> d \<longrightarrow> multishot (heap st1 x) = multishot (heap st x)"
      by auto
    note st2 = accept_suspend_result [OF assms(1) accept_turned.hyps(2)]
    then have "pool_inv (uring_pool st2)" using st1(1) by simp
    from reapIOs_result [OF this accept_turned.hyps(4)] accept_turned.hyps(5)
    have st3: "pool_inv (uring_pool st3)"
      "waiting (uring_pool st3) = waiting (uring_pool st2) + mset (woken (heap st2) cs) +
         mset (map fst (handled (heap st2) (next_coro st2) cs))"
      "handler_calls st3 = handler_calls st2 @ handled (heap st2) (next_coro st2) cs"
      "same_requests (heap st2) (heap st3)" by auto
    have "map snd (handled (heap st2) (next_coro st2) cs) =
        map (\<lambda>c. (f, res c)) (filter (\<lambda>c. user_data c = d \<and> 0 \<le> res c) cs)"
      using st2 st1(2) accept_turned.prems(2) by (intro handled_one) auto
    moreover have "mset (map fst new) + mset (map fst (handled (heap st2) (next_coro st2) cs))
        \<subseteq># waiting (uring_pool st3)"
      using new(3) st2 st3(2) by (simp add: subset_mset.add_mono subset_mset.le_add_same_cancel1
          subset_mset.order_trans [OF _ mset_subset_eq_add_left])
    moreover have "submitted U (uring st3) = submitted U (uring st2)"
      by (rule reapIOs_submits [OF assms(1) accept_turned.hyps(5)])
    moreover have "\<forall>x. x \<noteq> d \<longrightarrow> multishot (heap st3 x) = multishot (heap st x)"
      using st2 st1(2) st3(4) by (simp add: same_requests_def)
    ultimately show ?case
      using new st2 st3(1,3)
      by (auto simp: replicate_append_same intro!: exI [of _ "new @ handled (heap st2) (next_coro st2) cs"])
  qed
  then show ?thesis by blast
qed

definition demo_accepts :: "cqe list" where
  "demo_accepts = [\<lparr>user_data = 1, res = 9, cqe_flags = 2\<rparr>, \<lparr>user_data = 5, res = 3, cqe_flags = 0\<rparr>,
                   \<lparr>user_data = 1, res = 10, cqe_flags = 0\<rparr>]"

end
