(* ===== verification/UringHttp.thy ===== *)
theory UringHttp
  imports HttpResponse FileCache UringSockets
begin

text \<open>
  The web server on io_uring (\<^verbatim>\<open>demo/uringhttp.cpp\<close>): reading a request, the loop of a session,
  and answering a request.

  What the kernel does is given as the sequence of results of the awaited operations: for
  \<^verbatim>\<open>recv\<close> an error code or the bytes received (none at the end of the stream), for
  \<^verbatim>\<open>send\<close> an error code or the number of bytes taken.  A function that is still waiting when the
  results are used up has not ended yet.  The suspensions in between change nothing here.
\<close>

subsection \<open>readRequest\<close>

type_synonym recv_result = "error_code + string"

definition end_of_stream :: "string \<Rightarrow> error_code + string" where
  "end_of_stream request =
     (if sv_ends_with request crlf2 then Inr request else Inl (http_error BAD_REQUEST))"

text \<open>One turn: \<open>Inr\<close> the message so far when the loop goes on, \<open>Inl\<close> the result of the coroutine.\<close>

definition readRequest_turn ::
  "recv_result \<Rightarrow> asyncSocket \<Rightarrow> string \<Rightarrow> ((error_code + string) + string) \<times> asyncSocket" where
  "readRequest_turn readRes client request =
     (case readRes of
        Inl e \<Rightarrow>
          if e = uring_error SqeBusy then (Inr request, client)
          else if e = generic_error ECONNRESET then (Inl (end_of_stream request), client\<lparr>closed := True\<rparr>)
          else (Inl (Inl e), client)
      | Inr bytes \<Rightarrow>
          if length bytes = 0 then (Inl (end_of_stream request), client\<lparr>closed := True\<rparr>)
          else if 4096 < length bytes + length request then (Inl (Inl (http_error BAD_REQUEST)), client)
          else
            (let request = request @ bytes
             in if sv_ends_with request crlf2 then (Inl (Inr request), client) else (Inr request, client)))"

fun read_loop ::
  "recv_result list \<Rightarrow> asyncSocket \<Rightarrow> string \<Rightarrow> ((error_code + string) \<times> asyncSocket \<times> recv_result list) option" where
  "read_loop [] client request = None"
| "read_loop (r # rs) client request =
     (case readRequest_turn r client request of
        (Inl result, client) \<Rightarrow> Some (result, client, rs)
      | (Inr request, client) \<Rightarrow> read_loop rs client request)"

definition async_readRequest where
  "async_readRequest rs client = read_loop rs client []"

lemma read_loop_consumes: "read_loop rs client request = Some (r, client', rs') \<Longrightarrow> length rs' < length rs"
proof (induction rs arbitrary: client request)
  case (Cons x rs)
  show ?case
  proof (cases "readRequest_turn x client request")
    case (Pair a c)
    with Cons show ?thesis by (cases a) (auto dest: less_SucI)
  qed
qed simp

subsection \<open>clientHandle\<close>

text \<open>
  The request of one turn of a session, given the result of reading; none when the session ends
  because of an error of the socket.  A status the code casts from an error code is one of the
  enumeration, because codes of that category are made from it.
\<close>

definition session_request :: "error_code + string \<Rightarrow> httpRequest option outcome" where
  "session_request requestMsg =
     (let request = new_httpRequest\<lparr>status := OK\<rparr>;
          read_status =
            (case requestMsg of
               Inr _ \<Rightarrow> Returns (Some OK)
             | Inl e \<Rightarrow>
                 if ec_category e = HttpCategory
                 then (case httpErrc_of_value (ec_value e) of None \<Rightarrow> Undefined | Some c \<Rightarrow> Returns (Some c))
                 else Returns None)
      in case read_status of
           Undefined \<Rightarrow> Undefined
         | Throws e \<Rightarrow> Throws e
         | Returns None \<Rightarrow> Returns None
         | Returns (Some c) \<Rightarrow>
             if c = OK then
               (case requestMsg of
                  Inl _ \<Rightarrow> Throws BadExpectedAccess
                | Inr msg \<Rightarrow> Returns (Some (snd (parseResquest request msg))))
             else Returns (Some (request\<lparr>status := c\<rparr>)))"

definition closeSession :: "httpRequest \<Rightarrow> bool" where
  "closeSession request \<longleftrightarrow>
     status request = OK \<and> map_lookup (headers request) ''Connection'' = Some ''Close''"

text \<open>The session: the requests handed to a \<^verbatim>\<open>responseHandler\<close>, in order, and how it ends.\<close>

datatype session_end = SessionWaits | SessionEnded | SessionThrows exc | SessionUndefined

function clientHandle :: "recv_result list \<Rightarrow> asyncSocket \<Rightarrow> httpRequest list \<times> session_end" where
  "clientHandle rs client =
     (case async_readRequest rs client of
        None \<Rightarrow> ([], SessionWaits)
      | Some (requestMsg, client, rs') \<Rightarrow>
          (case session_request requestMsg of
             Undefined \<Rightarrow> ([], SessionUndefined)
           | Throws e \<Rightarrow> ([], SessionThrows e)
           | Returns None \<Rightarrow> ([], SessionEnded)
           | Returns (Some request) \<Rightarrow>
               if closeSession request \<or> closed client then ([request], SessionEnded)
               else (case clientHandle rs' client of (reqs, e) \<Rightarrow> (request # reqs, e))))"
  by pat_completeness auto
termination
  by (relation "measure (\<lambda>(rs, _). length rs)") (auto simp: async_readRequest_def dest: read_loop_consumes)

declare clientHandle.simps [simp del]

subsection \<open>responseHandler\<close>

text \<open>The response and the file, before anything is sent.\<close>

definition prepare_response ::
  "'w os \<Rightarrow> path \<Rightarrow> httpRequest \<Rightarrow> file_cache \<Rightarrow> 'w \<Rightarrow>
     (httpResponse \<times> fileCache option) outcome \<times> file_cache \<times> 'w" where
  "prepare_response os webRoot request cache w =
     (case httpResponse_ctor request webRoot of
        Inl e \<Rightarrow> (Throws e, cache, w)
      | Inr response \<Rightarrow>
          if status response = OK then
            (case fileCache_get os (resp_uri response) cache w of
               (Returns None, cache, w) \<Rightarrow> (Returns (response\<lparr>status := NOT_FOUND\<rparr>, None), cache, w)
             | (Returns (Some file), cache, w) \<Rightarrow>
                 (Returns (response\<lparr>headers := map_assign ''Content-Length'' (show_nat (unat (fc_size file)))
                                               (headers response)\<rparr>, Some file), cache, w)
             | (Throws e, cache, w) \<Rightarrow> (Throws e, cache, w)
             | (Undefined, cache, w) \<Rightarrow> (Undefined, cache, w))
          else (Returns (response, None), cache, w))"

text \<open>How a send loop ends: everything sent, given up, or still waiting for the kernel.\<close>

datatype send_end = Sent | SendFailed | SendWaits

type_synonym send_result = "error_code + nat"

definition try_again :: "error_code \<Rightarrow> bool" where
  "try_again e \<longleftrightarrow> e = generic_error EAGAIN \<or> e = generic_error ENODATA \<or> e = uring_error SqeBusy"

text \<open>
  The two loops; the view \<^verbatim>\<open>sendData\<close> and the counter \<^verbatim>\<open>sendBytes\<close> are set up again in every
  turn.  The result is the bytes the kernel took.
\<close>

fun header_loop :: "string \<Rightarrow> send_result list \<Rightarrow> string \<times> send_end \<times> send_result list" where
  "header_loop responseStr [] = ([], SendWaits, [])"
| "header_loop responseStr (r # rs) =
     (let sendData = responseStr
      in case r of
           Inl e \<Rightarrow> if try_again e then header_loop responseStr rs else ([], SendFailed, rs)
         | Inr n \<Rightarrow>
             (let taken = take n sendData; sendData = sv_remove_prefix n sendData
              in if sendData = [] then (taken, Sent, rs)
                 else (case header_loop responseStr rs of (wire, q) \<Rightarrow> (taken @ wire, q))))"

fun body_loop :: "string \<Rightarrow> send_result list \<Rightarrow> string \<times> send_end \<times> send_result list" where
  "body_loop file [] = ([], SendWaits, [])"
| "body_loop file (r # rs) =
     (let sendBytes = 0
      in case r of
           Inl e \<Rightarrow> if try_again e then body_loop file rs else ([], SendFailed, rs)
         | Inr n \<Rightarrow>
             (let taken = take n (drop sendBytes file); sendBytes = sendBytes + n
              in if length file \<le> sendBytes then (taken, Sent, rs)
                 else (case body_loop file rs of (wire, q) \<Rightarrow> (taken @ wire, q))))"

text \<open>\<open>content\<close> is the memory a cached file is mapped to.\<close>

definition responseHandler ::
  "'w os \<Rightarrow> (fileCache \<Rightarrow> string) \<Rightarrow> path \<Rightarrow> httpRequest \<Rightarrow> send_result list \<Rightarrow> file_cache \<Rightarrow> 'w \<Rightarrow>
     (string \<times> send_end) outcome \<times> file_cache \<times> 'w" where
  "responseHandler os content webRoot request rs cache w =
     (case prepare_response os webRoot request cache w of
        (Returns (response, file), cache, w) \<Rightarrow>
          (case header_loop (serialize response) rs of
             (wire, Sent, rs) \<Rightarrow>
               if req_method response = HEAD \<or> status response \<noteq> OK then (Returns (wire, Sent), cache, w)
               else
                 (case file of
                    None \<Rightarrow> (Undefined, cache, w)
                  | Some f \<Rightarrow>
                      (case body_loop (content f) rs of
                         (wire2, e, _) \<Rightarrow> (Returns (wire @ wire2, e), cache, w)))
           | (wire, e, _) \<Rightarrow> (Returns (wire, e), cache, w))
      | (Throws e, cache, w) \<Rightarrow> (Throws e, cache, w)
      | (Undefined, cache, w) \<Rightarrow> (Undefined, cache, w))"

subsection \<open>Reading\<close>

definition received :: "recv_result list \<Rightarrow> string" where
  "received rs = concat (map (\<lambda>r. case r of Inl _ \<Rightarrow> [] | Inr b \<Rightarrow> b) rs)"

definition ordinary :: "recv_result \<Rightarrow> bool" where
  "ordinary r \<longleftrightarrow> (case r of Inl e \<Rightarrow> e = uring_error SqeBusy | Inr b \<Rightarrow> b \<noteq> [])"

lemma read_loop_message:
  assumes "\<forall>r \<in> set rs. ordinary r" and "request @ received rs = m" and "length request < length m"
    and "length m \<le> 4096" and "sv_ends_with m crlf2" and "\<forall>k < length m. \<not> sv_ends_with (take k m) crlf2"
  shows "\<exists>rs'. read_loop rs client request = Some (Inr m, client, rs')"
  using assms
proof (induction rs arbitrary: request)
  case Nil
  then show ?case by (simp add: received_def)
next
  case (Cons r rs)
  show ?case
  proof (cases r)
    case (Inl e)
    then have "e = uring_error SqeBusy" "request @ received rs = m"
      using Cons.prems(1,2) by (simp_all add: ordinary_def received_def)
    with Inl Cons show ?thesis by (simp add: readRequest_turn_def)
  next
    case (Inr b)
    have b: "b \<noteq> []" and m: "(request @ b) @ received rs = m"
      using Cons.prems(1,2) by (simp_all add: Inr ordinary_def received_def)
    have len: "length b + length request \<le> length m" using m by auto
    show ?thesis
    proof (cases "length (request @ b) = length m")
      case True
      have "length (request @ b) + length (received rs) = length m" using arg_cong [OF m, of length] by simp
      with True have "length (received rs) = 0" by linarith
      then have "request @ b = m" using m by simp
      then show ?thesis
        using Cons.prems(4,5) b len by (auto simp: Inr readRequest_turn_def)
    next
      case False
      then have less: "length (request @ b) < length m" using len by simp
      then have "\<not> sv_ends_with (request @ b) crlf2"
        using Cons.prems(6) m by (metis append_eq_conv_conj)
      then have "readRequest_turn r client request = (Inr (request @ b), client)"
        using Cons.prems(4) b len by (simp add: Inr readRequest_turn_def)
      moreover have "\<exists>rs'. read_loop rs client (request @ b) = Some (Inr m, client, rs')"
        using Cons.IH [of "request @ b"] Cons.prems(1,4,5,6) m less by simp
      ultimately show ?thesis by simp
    qed
  qed
qed

lemma read_loop_result:
  assumes "read_loop rs client request = Some (r, client', rs')" and "length request \<le> 4096"
  shows "\<exists>used. rs = used @ rs' \<and> used \<noteq> [] \<and>
    (\<forall>m. r = Inr m \<longrightarrow> m = request @ received used \<and> sv_ends_with m crlf2 \<and> length m \<le> 4096) \<and>
    (closed client' \<longrightarrow> closed client \<or> last used = Inr [] \<or> last used = Inl (generic_error ECONNRESET))"
  using assms
proof (induction rs arbitrary: client request)
  case (Cons x rs)
  obtain a c where t: "readRequest_turn x client request = (a, c)" by fastforce
  show ?case
  proof (cases a)
    case (Inl q)
    then have q: "r = q" "client' = c" "rs' = rs" using Cons.prems(1) t by simp_all
    have "(\<forall>m. q = Inr m \<longrightarrow> m = request @ received [x] \<and> sv_ends_with m crlf2 \<and> length m \<le> 4096) \<and>
        (closed c \<longrightarrow> closed client \<or> x = Inr [] \<or> x = Inl (generic_error ECONNRESET))"
      using t Cons.prems(2) unfolding Inl
      by (auto simp: readRequest_turn_def end_of_stream_def received_def Let_def split: sum.splits if_splits)
    then show ?thesis using q by (intro exI [of _ "[x]"]) simp
  next
    case (Inr request1)
    have r1: "request1 = request @ received [x]" "length request1 \<le> 4096" "c = client"
      using t Cons.prems(2) unfolding Inr
      by (auto simp: readRequest_turn_def received_def Let_def split: sum.splits if_splits)
    have "read_loop rs client request1 = Some (r, client', rs')" using Cons.prems(1) t Inr r1(3) by simp
    from Cons.IH [OF this r1(2)] obtain used where u: "rs = used @ rs'" "used \<noteq> []"
      "\<forall>m. r = Inr m \<longrightarrow> m = request1 @ received used \<and> sv_ends_with m crlf2 \<and> length m \<le> 4096"
      "closed client' \<longrightarrow> closed client \<or> last used = Inr [] \<or> last used = Inl (generic_error ECONNRESET)"
      by blast
    have "received (x # used) = received [x] @ received used" by (simp add: received_def)
    then show ?thesis using u r1(1) by (intro exI [of _ "x # used"]) simp
  qed
qed simp

subsection \<open>Sending\<close>

text \<open>The numbers of bytes of the sends of a loop that did not yet take everything.\<close>

definition partials :: "send_result list \<Rightarrow> nat list" where
  "partials rs = concat (map (\<lambda>r. case r of Inl _ \<Rightarrow> [] | Inr n \<Rightarrow> [n]) rs)"

lemma header_body_loop: "header_loop D rs = body_loop D rs"
  by (induction rs) (auto simp: Let_def sv_remove_prefix_def split: sum.splits)

lemma body_loop_complete:
  "\<forall>e \<in> set es. try_again e \<Longrightarrow> length D \<le> n \<Longrightarrow> body_loop D (map Inl es @ Inr n # rest) = (D, Sent, rest)"
  by (induction es) simp_all

lemma body_loop_sent:
  "body_loop D rs = (wire, Sent, rest) \<Longrightarrow>
     \<exists>used n. rs = used @ Inr n # rest \<and> length D \<le> n \<and> (\<forall>k \<in> set (partials used). k < length D) \<and>
       wire = concat (map (\<lambda>k. take k D) (partials used)) @ D"
proof (induction rs arbitrary: wire)
  case (Cons r rs)
  show ?case
  proof (cases r)
    case (Inl e)
    with Cons.prems have "body_loop D rs = (wire, Sent, rest)" by (auto split: if_splits)
    from Cons.IH [OF this] obtain used n where "rs = used @ Inr n # rest" "length D \<le> n"
      "\<forall>k \<in> set (partials used). k < length D" "wire = concat (map (\<lambda>k. take k D) (partials used)) @ D" by blast
    with Inl show ?thesis by (intro exI [of _ "r # used"] exI [of _ n]) (simp add: partials_def)
  next
    case (Inr k)
    show ?thesis
    proof (cases "length D \<le> k")
      case True
      with Cons.prems Inr show ?thesis by (intro exI [of _ "[]"] exI [of _ k]) (simp add: partials_def)
    next
      case False
      then obtain w where w: "body_loop D rs = (w, Sent, rest)" "wire = take k D @ w"
        using Cons.prems Inr by (auto split: prod.splits)
      from Cons.IH [OF w(1)] obtain used n where "rs = used @ Inr n # rest" "length D \<le> n"
        "\<forall>k \<in> set (partials used). k < length D" "w = concat (map (\<lambda>k. take k D) (partials used)) @ D" by blast
      with Inr False w(2) show ?thesis by (intro exI [of _ "r # used"] exI [of _ n]) (simp add: partials_def)
    qed
  qed
qed simp

subsection \<open>Answering\<close>

text \<open>All sends of both loops take everything, after any number of tries.\<close>

definition full_sends :: "error_code list \<Rightarrow> nat \<Rightarrow> error_code list \<Rightarrow> nat \<Rightarrow> send_result list" where
  "full_sends es1 n1 es2 n2 = map Inl es1 @ Inr n1 # map Inl es2 @ [Inr n2]"

lemma responseHandler_error:
  assumes "prepare_response os root rq cache w = (Returns (r, f), cache', w')" and "status r \<noteq> OK"
    and "\<forall>e \<in> set es. try_again e" and "length (serialize r) \<le> n"
  shows "responseHandler os content root rq (map Inl es @ Inr n # rest) cache w =
    (Returns (serialize r, Sent), cache', w')"
  using assms by (simp add: responseHandler_def header_body_loop body_loop_complete)

lemma responseHandler_file:
  assumes "prepare_response os root rq cache w = (Returns (r, Some f), cache', w')" and "status r = OK"
    and "req_method r = GET" and "\<forall>e \<in> set es1 \<union> set es2. try_again e"
    and "length (serialize r) \<le> n1" and "length (content f) \<le> n2"
  shows "responseHandler os content root rq (full_sends es1 n1 es2 n2) cache w =
    (Returns (serialize r @ content f, Sent), cache', w')"
  using assms body_loop_complete [of es1 "serialize r" n1 "map Inl es2 @ [Inr n2]"]
    body_loop_complete [of es2 "content f" n2 "[]"]
  by (simp add: responseHandler_def header_body_loop full_sends_def)

lemma session_request_parsed:
  assumes "valid_target u" and "list_all valid_header hs"
  shows "session_request (Inr (render_request m u hs body)) =
    Returns (Some (parsed_request new_httpRequest m u hs))"
proof -
  have "new_httpRequest\<lparr>status := OK\<rparr> = new_httpRequest" by (simp add: new_httpRequest_def)
  then show ?thesis using parseResquest_render [OF assms, of new_httpRequest m body]
    by (simp add: session_request_def split: if_splits)
qed

lemma parsed_get_served:
  assumes "dotdot \<notin> set (path_iter u)" and "has_extension (with_index u)" and "has_extension (target u)"
    and "map_of hs ''Accept'' \<noteq> None"
  obtains r where "httpResponse_ctor (parsed_request new_httpRequest GET u hs) root = Inr r" and "status r = OK"
    and "version (parsed_request new_httpRequest GET u hs) = ''HTTP/1.1''"
    and "uri (parsed_request new_httpRequest GET u hs) = u"
    and "resp_uri r = path_append root (relative_path (target u))" and "req_method r = GET"
proof -
  let ?rq = "parsed_request new_httpRequest GET u hs"
  have rq: "status ?rq = OK" "uri ?rq = u" "version ?rq = ''HTTP/1.1''" "req_method ?rq = GET"
    "map_contains (headers ?rq) ''Accept''"
    using assms(4) lookup_emplace_headers [of hs "''Accept''"]
    by (simp_all add: parsed_request_def map_contains_def new_httpRequest_def)
  obtain r where r: "httpResponse_ctor ?rq root = Inr r" "status r = OK"
    using ctor_ok [of ?rq root] rq assms(1-3) by auto
  show thesis
    using that [OF r rq(3,2)] ctor_served [OF r] rq(2,4) by simp
qed

lemma session_request_rejected:
  assumes "fst (parseResquest new_httpRequest m) = Inl (http_error BAD_REQUEST)"
  shows "\<exists>rq. session_request (Inr m) = Returns (Some rq) \<and> status rq = BAD_REQUEST"
proof -
  have "new_httpRequest\<lparr>status := OK\<rparr> = new_httpRequest" by (simp add: new_httpRequest_def)
  then show ?thesis
    using parseResquest_rejected_status [of new_httpRequest m "snd (parseResquest new_httpRequest m)"] assms
    by (simp add: session_request_def) (metis prod.collapse)
qed

lemma answer_bad_request:
  assumes "status rq = BAD_REQUEST" and "\<forall>e \<in> set es. try_again e" and "length badRequestResponse \<le> n"
  shows "responseHandler os content root rq (map Inl es @ Inr n # rest) cache w =
    (Returns (badRequestResponse, Sent), cache, w)"
proof -
  let ?r = "new_httpResponse\<lparr>status := BAD_REQUEST\<rparr>"
  have p: "prepare_response os root rq cache w = (Returns (?r, None), cache, w)"
    using assms(1) ctor_not_ok [of rq root] by (simp add: prepare_response_def)
  have s: "serialize ?r = badRequestResponse" by (simp add: serialize_def)
  from responseHandler_error [OF p _ assms(2), of n] assms(3) show ?thesis by (simp add: s)
qed

subsection \<open>Properties\<close>

text \<open>
  C1: a GET request from its bytes to the bytes of the answer.  A well-formed GET request for a file
  that the cache can give, without \<open>..\<close>, with an extension and an \<open>Accept\<close> field, is answered, when
  the kernel takes each buffer in one send (after any number of tries), with exactly the header of
  the file's type, whose \<open>Content-Length\<close> is the number of bytes of the file, followed by the file.
\<close>

theorem get_end_to_end:
  assumes "valid_target u" and "list_all valid_header hs" and "dotdot \<notin> set (path_iter u)"
    and "has_extension (with_index u)" and "has_extension (target u)" and "map_of hs ''Accept'' \<noteq> None"
    and "fileCache_get os (path_append root (relative_path (target u))) cache w = (Returns (Some f), cache', w')"
    and "length (content f) = unat (fc_size f)"
    and "\<forall>e \<in> set es1 \<union> set es2. try_again e"
    and "header = served_header (MIMEfulltype (tl (extension (target u)))) (show_nat (length (content f)))"
    and "length header \<le> n1" and "length (content f) \<le> n2"
  shows "\<exists>rq. session_request (Inr (render_request GET u hs body)) = Returns (Some rq) \<and>
    responseHandler os content root rq (full_sends es1 n1 es2 n2) cache w =
      (Returns (header @ content f, Sent), cache', w')"
proof (intro exI conjI)
  let ?rq = "parsed_request new_httpRequest GET u hs"
  show "session_request (Inr (render_request GET u hs body)) = Returns (Some ?rq)"
    by (rule session_request_parsed [OF assms(1,2)])
  obtain r where r: "httpResponse_ctor ?rq root = Inr r" "status r = OK"
    and rq: "version ?rq = ''HTTP/1.1''" "uri ?rq = u"
    and uri: "resp_uri r = path_append root (relative_path (target u))" "req_method r = GET"
    by (rule parsed_get_served [OF assms(3-6)])
  let ?r = "r\<lparr>headers := map_assign ''Content-Length'' (show_nat (length (content f))) (headers r)\<rparr>"
  have p: "prepare_response os root ?rq cache w = (Returns (?r, Some f), cache', w')"
    using r uri(1) assms(7,8) by (simp add: prepare_response_def)
  have s: "serialize ?r = header"
    using ctor_served_bytes [OF r rq(1)] rq(2) assms(10) by simp
  show "responseHandler os content root ?rq (full_sends es1 n1 es2 n2) cache w =
      (Returns (header @ content f, Sent), cache', w')"
    using responseHandler_file [OF p _ _ assms(9), of n1 content n2] r(2) uri(2) assms(11,12)
    by (simp add: s)
qed

theorem get_end_to_end_witness:
  "\<exists>rq c'. session_request (Inr (render_request GET ''/a.txt'' [(''Accept'', ''*/*'')] [])) = Returns (Some rq) \<and>
     responseHandler demo_os (\<lambda>f. ''0123456789'') ''/'' rq (full_sends [generic_error EAGAIN] 500 [] 10)
       (new_lruCache 2 new_fileCache) [] =
     (Returns (served_header ''text/plain'' ''10'' @ ''0123456789'', Sent), c', [0])"
proof -
  let ?f = "\<lparr>mLoc = Some (4096, 10), mFile = \<lparr>rf_fd = 0, rf_size = 10\<rparr>, mPath = ''/a.txt''\<rparr> :: fileCache"
  have 1: "valid_target ''/a.txt''" "list_all valid_header [(''Accept'', ''*/*'')]"
    "dotdot \<notin> set (path_iter ''/a.txt'')" "has_extension (with_index ''/a.txt'')" "has_extension (target ''/a.txt'')"
    by code_simp+
  have 2: "map_of [(''Accept'', ''*/*'')] ''Accept'' \<noteq> None" by simp
  have "path_append ''/'' (relative_path (target ''/a.txt'')) = ''/a.txt''" by code_simp
  then obtain c' where 3: "fileCache_get demo_os (path_append ''/'' (relative_path (target ''/a.txt'')))
      (new_lruCache 2 new_fileCache) [] = (Returns (Some ?f), c', [0])"
    using demo_get by auto
  have 4: "length ((\<lambda>f. ''0123456789'') ?f) = unat (fc_size ?f)" by (simp add: fc_size_def)
  have 5: "\<forall>e \<in> set [generic_error EAGAIN] \<union> set []. try_again e" by (simp add: try_again_def)
  have 6: "served_header ''text/plain'' ''10'' =
      served_header (MIMEfulltype (tl (extension (target ''/a.txt'')))) (show_nat (length ((\<lambda>f. ''0123456789'') ?f)))"
    by code_simp
  have 7: "length (served_header ''text/plain'' ''10'') \<le> 500" "length ((\<lambda>f. ''0123456789'') ?f) \<le> 10"
    by code_simp+
  from get_end_to_end [OF 1 2 3 4 5 6 7, of "[]"] show ?thesis by blast
qed

text \<open>
  A malformed request is answered with \<^verbatim>\<open>400 Bad Request\<close>, without any access to the
  cache or the file system.
\<close>

lemma malformed_end_to_end:
  assumes "fst (parseResquest new_httpRequest m) = Inl (http_error BAD_REQUEST)"
    and "\<forall>e \<in> set es. try_again e" and "length badRequestResponse \<le> n"
  shows "\<exists>rq. session_request (Inr m) = Returns (Some rq) \<and>
    responseHandler os content root rq (map Inl es @ Inr n # rest) cache w =
      (Returns (badRequestResponse, Sent), cache, w)"
proof -
  obtain rq where "session_request (Inr m) = Returns (Some rq)" "status rq = BAD_REQUEST"
    using session_request_rejected [OF assms(1)] by blast
  then show ?thesis using answer_bad_request [OF _ assms(2,3)] by metis
qed

text \<open>
  C35: a well-formed request can end the server.  For every target without \<open>..\<close> that has an extension
  only because of its query, as in \<^verbatim>\<open>/a?b.c\<close>, the message is accepted by the parser, and
  the responder it is handed to throws \<^verbatim>\<open>std::out_of_range\<close> before anything is sent, because
  \<^verbatim>\<open>substr(1)\<close> is called on an empty extension.
\<close>

theorem query_extension_throws:
  assumes "valid_target u" and "list_all valid_header hs" and "dotdot \<notin> set (path_iter u)"
    and "has_extension (with_index u)" and "\<not> has_extension (target u)"
  shows "\<exists>rq. session_request (Inr (render_request m u hs body)) = Returns (Some rq) \<and>
    responseHandler os content root rq rs cache w = (Throws OutOfRange, cache, w)"
proof (intro exI conjI)
  let ?rq = "parsed_request new_httpRequest m u hs"
  show "session_request (Inr (render_request m u hs body)) = Returns (Some ?rq)"
    by (rule session_request_parsed [OF assms(1,2)])
  have "httpResponse_ctor ?rq root = Inl OutOfRange"
    using assms(3-5) by (simp add: ctor_throws_iff parsed_request_def)
  then show "responseHandler os content root ?rq rs cache w = (Throws OutOfRange, cache, w)"
    by (simp add: responseHandler_def prepare_response_def)
qed

theorem query_extension_throws_witness:
  "\<exists>rq. session_request (Inr (render_request GET ''/a?b.c'' [(''Accept'', ''*/*'')] [])) = Returns (Some rq) \<and>
     responseHandler demo_os (\<lambda>f. []) ''/srv'' rq [Inr 100] (new_lruCache 2 new_fileCache) [] =
     (Throws OutOfRange, new_lruCache 2 new_fileCache, [])"
proof -
  have "valid_target ''/a?b.c''" "list_all valid_header [(''Accept'', ''*/*'')]"
    "dotdot \<notin> set (path_iter ''/a?b.c'')" "has_extension (with_index ''/a?b.c'')" "\<not> has_extension (target ''/a?b.c'')"
    by code_simp+
  then show ?thesis by (rule query_extension_throws)
qed

text \<open>
  Closing an idle connection is answered.  A client that sends complete requests and then closes
  the connection in the usual way, between two messages, gets one more response, a
  \<^verbatim>\<open>400 Bad Request\<close>, because the end of the stream is taken for an incomplete request.
\<close>

lemma idle_close_is_answered:
  assumes "async_readRequest rs client = Some (Inr m, client, [Inr []])"
    and "session_request (Inr m) = Returns (Some rq)" and "\<not> closeSession rq" and "\<not> closed client"
    and "\<forall>e \<in> set es. try_again e" and "length badRequestResponse \<le> n"
  shows "\<exists>bad. clientHandle rs client = ([rq, bad], SessionEnded) \<and>
    responseHandler os content root bad (map Inl es @ Inr n # rest) cache w =
      (Returns (badRequestResponse, Sent), cache, w)"
proof -
  let ?bad = "new_httpRequest\<lparr>status := BAD_REQUEST\<rparr>"
  have "async_readRequest [Inr []] client = Some (Inl (http_error BAD_REQUEST), client\<lparr>closed := True\<rparr>, [])"
    by (simp add: async_readRequest_def readRequest_turn_def end_of_stream_def sv_ends_with_def)
  moreover have "session_request (Inl (http_error BAD_REQUEST)) = Returns (Some ?bad)"
    by (simp add: session_request_def http_error_def)
  ultimately have "clientHandle [Inr []] client = ([?bad], SessionEnded)"
    by (simp add: clientHandle.simps)
  then have "clientHandle rs client = ([rq, ?bad], SessionEnded)"
    using assms(1-4) by (simp add: clientHandle.simps [of rs])
  then show ?thesis using answer_bad_request [OF _ assms(5,6), of ?bad] by (intro exI [of _ ?bad]) simp
qed

text \<open>
  A request that arrives in pieces.  If the bytes that are received, in whatever chunks and with
  whatever interruptions by a busy ring, are a message of at most 4096 bytes that ends with the first
  empty line in it, the coroutine returns that message and the connection stays open.
\<close>

lemma async_read_segmentation:
  assumes "\<forall>r \<in> set rs. ordinary r" and "received rs = m" and "length m \<le> 4096"
    and "sv_ends_with m crlf2" and "\<forall>k < length m. \<not> sv_ends_with (take k m) crlf2"
  shows "\<exists>rs'. async_readRequest rs client = Some (Inr m, client, rs')"
  using read_loop_message [of rs "[]" m client] assms
  by (cases m) (auto simp: async_readRequest_def sv_ends_with_def)

text \<open>
  What the reading coroutine returns.  A returned message consists of exactly the bytes received by
  the operations it used, ends with an empty line and has at most 4096 bytes; the connection is marked
  as closed only when the last operation reported its end or its reset.
\<close>

lemma async_read_contract:
  assumes "async_readRequest rs client = Some (r, client', rs')"
  shows "\<exists>used. rs = used @ rs' \<and> used \<noteq> [] \<and>
    (\<forall>m. r = Inr m \<longrightarrow> m = received used \<and> sv_ends_with m crlf2 \<and> length m \<le> 4096) \<and>
    (closed client' \<longrightarrow> closed client \<or> last used = Inr [] \<or> last used = Inl (generic_error ECONNRESET))"
  using read_loop_result [of rs client "[]"] assms by (simp add: async_readRequest_def)

text \<open>
  C40: a partial send starts over.  When the loop that sends data \<open>D\<close> ends, the kernel has taken, for
  every send that did not take everything, the beginning of \<open>D\<close> once more, and then \<open>D\<close>; so what
  the client gets is \<open>D\<close> only if no send was partial, and as long as every send is partial the loop
  never ends.
\<close>

theorem partial_send_starts_over:
  "(\<forall>wire rest. header_loop D rs = (wire, Sent, rest) \<longrightarrow>
     (\<exists>used n. rs = used @ Inr n # rest \<and> length D \<le> n \<and>
        wire = concat (map (\<lambda>k. take k D) (partials used)) @ D \<and>
        (wire = D \<longleftrightarrow> (\<forall>k \<in> set (partials used). k = 0)))) \<and>
   ((\<forall>n. Inr n \<in> set rs \<longrightarrow> n < length D) \<longrightarrow> fst (snd (header_loop D rs)) \<noteq> Sent)"
proof (intro conjI allI impI)
  fix wire rest assume "header_loop D rs = (wire, Sent, rest)"
  then have "body_loop D rs = (wire, Sent, rest)" by (simp add: header_body_loop)
  from body_loop_sent [OF this] obtain used n where u: "rs = used @ Inr n # rest" "length D \<le> n"
    "\<forall>k \<in> set (partials used). k < length D" "wire = concat (map (\<lambda>k. take k D) (partials used)) @ D" by blast
  have "take k D = [] \<longleftrightarrow> k = 0" if "k \<in> set (partials used)" for k using u(3) that by fastforce
  then have "wire = D \<longleftrightarrow> (\<forall>k \<in> set (partials used). k = 0)" by (simp add: u(4))
  with u show "\<exists>used n. rs = used @ Inr n # rest \<and> length D \<le> n \<and>
    wire = concat (map (\<lambda>k. take k D) (partials used)) @ D \<and> (wire = D \<longleftrightarrow> (\<forall>k \<in> set (partials used). k = 0))"
    by blast
next
  assume p: "\<forall>n. Inr n \<in> set rs \<longrightarrow> n < length D"
  show "fst (snd (header_loop D rs)) \<noteq> Sent"
  proof
    assume "fst (snd (header_loop D rs)) = Sent"
    then obtain wire rest where "body_loop D rs = (wire, Sent, rest)"
      by (metis header_body_loop prod.collapse)
    from body_loop_sent [OF this] p show False by fastforce
  qed
qed

theorem partial_send_starts_over_witness:
  "header_loop ''abc'' [Inr 2, Inr 3] = (''ababc'', Sent, []) \<and>
   fst (snd (header_loop ''abc'' [Inr 2, Inr 2, Inr 2])) \<noteq> Sent"
proof
  show "header_loop ''abc'' [Inr 2, Inr 3] = (''ababc'', Sent, [])" by code_simp
  show "fst (snd (header_loop ''abc'' [Inr 2, Inr 2, Inr 2])) \<noteq> Sent"
    using partial_send_starts_over [of "''abc''" "[Inr 2, Inr 2, Inr 2]"] by simp
qed

end
