(* ===== verification/UringSession.thy ===== *)
theory UringSession
  imports UringHttp
begin

text \<open>
  A session of the io_uring server with its responders running next to it
  (\<^verbatim>\<open>demo/uringhttp.cpp\<close>): \<^verbatim>\<open>clientHandle\<close> hands every request to a
  \<^verbatim>\<open>responseHandler\<close> of its own, adds that to the pool and reads on.  The responders share the
  connection and the file cache.

  What happens is a list of events in the order in which the kernel and the workers let them happen: a
  \<^verbatim>\<open>recv\<close> of the session ends, a responder runs for the first time, a \<^verbatim>\<open>send\<close> of a responder
  ends.  The cache is asked once per responder, under its own mutex.  The bytes the kernel takes of a \<^verbatim>\<open>send\<close> go
  to the connection when it ends.  An event that cannot happen has no result.
\<close>

subsection \<open>The responder, suspended at a send\<close>

datatype responder =
    NotStarted
  | SendingHeader httpResponse "fileCache option"
  | SendingBody httpResponse fileCache
  | Over send_end

text \<open>\<open>None\<close> when the behaviour is undefined.\<close>

definition after_header :: "httpResponse \<Rightarrow> fileCache option \<Rightarrow> responder option" where
  "after_header response file =
     (if req_method response = HEAD \<or> status response \<noteq> OK then Some (Over Sent)
      else (case file of None \<Rightarrow> None | Some f \<Rightarrow> Some (SendingBody response f)))"

text \<open>What the responder does with the result of its send: the bytes that were taken and where it goes on.\<close>

fun responder_sent :: "(fileCache \<Rightarrow> string) \<Rightarrow> send_result \<Rightarrow> responder \<Rightarrow> (string \<times> responder) option" where
  "responder_sent content (Inl e) (SendingHeader response file) =
     Some ([], if try_again e then SendingHeader response file else Over SendFailed)"
| "responder_sent content (Inr n) (SendingHeader response file) =
     (let sendData = serialize response;
          taken = take n sendData;
          sendData = sv_remove_prefix n sendData
      in if sendData = [] then map_option (Pair taken) (after_header response file)
         else Some (taken, SendingHeader response file))"
| "responder_sent content (Inl e) (SendingBody response f) =
     Some ([], if try_again e then SendingBody response f else Over SendFailed)"
| "responder_sent content (Inr n) (SendingBody response f) =
     Some (take n (content f), if length (content f) \<le> n then Over Sent else SendingBody response f)"
| "responder_sent content r _ = None"

subsection \<open>The session and its responders\<close>

datatype session_state = Reading string | SessionOver session_end

record 'w usession =
  us_client :: asyncSocket
  us_reader :: session_state
  us_responders :: "(httpRequest \<times> responder) list"
  us_cache :: file_cache
  us_world :: 'w
  us_wire :: "(nat \<times> string) list"    \<comment> \<open>which responder sent what\<close>

definition new_usession :: "asyncSocket \<Rightarrow> file_cache \<Rightarrow> 'w \<Rightarrow> 'w usession" where
  "new_usession client cache w =
     \<lparr>us_client = client, us_reader = Reading [], us_responders = [], us_cache = cache, us_world = w, us_wire = []\<rparr>"

datatype uevent = Received recv_result | Starts nat | SendEnds nat send_result

text \<open>The session gets the result of a \<^verbatim>\<open>recv\<close>.\<close>

definition session_received :: "recv_result \<Rightarrow> string \<Rightarrow> 'w usession \<Rightarrow> 'w usession option" where
  "session_received r msg s =
     (case readRequest_turn r (us_client s) msg of
        (Inr msg, client) \<Rightarrow> Some (s\<lparr>us_client := client, us_reader := Reading msg\<rparr>)
      | (Inl requestMsg, client) \<Rightarrow>
          (case session_request requestMsg of
             Undefined \<Rightarrow> None
           | Throws e \<Rightarrow> None
           | Returns None \<Rightarrow> Some (s\<lparr>us_client := client, us_reader := SessionOver SessionEnded\<rparr>)
           | Returns (Some request) \<Rightarrow>
               Some (s\<lparr>us_client := client,
                 us_responders := us_responders s @ [(request, NotStarted)],
                 us_reader := (if closeSession request \<or> closed client then SessionOver SessionEnded else Reading [])\<rparr>)))"

text \<open>
  A responder runs for the first time, up to its first send.  An exception would leave the detached
  coroutine and end the program.
\<close>

definition responder_starts ::
  "'w os \<Rightarrow> path \<Rightarrow> nat \<Rightarrow> httpRequest \<Rightarrow> 'w usession \<Rightarrow> 'w usession option" where
  "responder_starts os webRoot j request s =
     (case prepare_response os webRoot request (us_cache s) (us_world s) of
        (Returns (response, file), cache, w) \<Rightarrow>
          Some (s\<lparr>us_cache := cache, us_world := w,
            us_responders := (us_responders s)[j := (request, SendingHeader response file)]\<rparr>)
      | _ \<Rightarrow> None)"

fun usession_step ::
  "'w os \<Rightarrow> (fileCache \<Rightarrow> string) \<Rightarrow> path \<Rightarrow> uevent \<Rightarrow> 'w usession \<Rightarrow> 'w usession option" where
  "usession_step os content webRoot (Received r) s =
     (case us_reader s of Reading msg \<Rightarrow> session_received r msg s | SessionOver e \<Rightarrow> None)"
| "usession_step os content webRoot (Starts j) s =
     (if j < length (us_responders s) \<and> snd (us_responders s ! j) = NotStarted
      then responder_starts os webRoot j (fst (us_responders s ! j)) s else None)"
| "usession_step os content webRoot (SendEnds j r) s =
     (if j < length (us_responders s)
      then (case responder_sent content r (snd (us_responders s ! j)) of
              None \<Rightarrow> None
            | Some (taken, p) \<Rightarrow>
                Some (s\<lparr>us_responders := (us_responders s)[j := (fst (us_responders s ! j), p)],
                        us_wire := us_wire s @ [(j, taken)]\<rparr>))
      else None)"

fun usession_run ::
  "'w os \<Rightarrow> (fileCache \<Rightarrow> string) \<Rightarrow> path \<Rightarrow> uevent list \<Rightarrow> 'w usession \<Rightarrow> 'w usession option" where
  "usession_run os content webRoot [] s = Some s"
| "usession_run os content webRoot (e # es) s =
     (case usession_step os content webRoot e s of
        None \<Rightarrow> None
      | Some s \<Rightarrow> usession_run os content webRoot es s)"

text \<open>What one of them has seen of the events, and sent.\<close>

definition receipts :: "uevent list \<Rightarrow> recv_result list" where
  "receipts es = concat (map (\<lambda>e. case e of Received r \<Rightarrow> [r] | _ \<Rightarrow> []) es)"

definition results_of :: "nat \<Rightarrow> uevent list \<Rightarrow> send_result list" where
  "results_of j es = concat (map (\<lambda>e. case e of SendEnds i r \<Rightarrow> if i = j then [r] else [] | _ \<Rightarrow> []) es)"

definition sent_by :: "nat \<Rightarrow> (nat \<times> string) list \<Rightarrow> string" where
  "sent_by j wire = concat (map snd (filter (\<lambda>(i, _). i = j) wire))"

definition on_wire :: "'w usession \<Rightarrow> string" where
  "on_wire s = concat (map snd (us_wire s))"

lemma receipts_append [simp]: "receipts (es @ es') = receipts es @ receipts es'"
  by (simp add: receipts_def)

lemma results_append [simp]: "results_of j (es @ es') = results_of j es @ results_of j es'"
  by (simp add: results_of_def)

lemma seen [simp]:
  "receipts [Received r] = [r]" "receipts [Starts i] = []" "receipts [SendEnds i x] = []" "receipts [] = []"
  "results_of j [Received r] = []" "results_of j [Starts i] = []" "results_of j [] = []"
  "results_of j [SendEnds i x] = (if i = j then [x] else [])"
  by (simp_all add: receipts_def results_of_def)

lemma sent_append [simp]: "sent_by j (ws @ ws') = sent_by j ws @ sent_by j ws'"
  by (simp add: sent_by_def)

lemma sent_one [simp]: "sent_by j [] = []" "sent_by j [(i, b)] = (if i = j then b else [])"
  by (simp_all add: sent_by_def)

lemma usession_run_append:
  "usession_run os content root (es @ es') s =
     (case usession_run os content root es s of None \<Rightarrow> None | Some s \<Rightarrow> usession_run os content root es' s)"
  by (induction es arbitrary: s) (auto split: option.splits)

subsection \<open>A responder alone\<close>

fun send_all :: "(fileCache \<Rightarrow> string) \<Rightarrow> responder \<Rightarrow> send_result list \<Rightarrow> (string \<times> responder) option" where
  "send_all content p [] = Some ([], p)"
| "send_all content p (r # rs) =
     (case responder_sent content r p of
        None \<Rightarrow> None
      | Some (b, p) \<Rightarrow> map_option (\<lambda>(bs, p). (b @ bs, p)) (send_all content p rs))"

lemma send_all_append:
  "send_all content p (rs @ rs') =
     (case send_all content p rs of
        None \<Rightarrow> None
      | Some (b, p) \<Rightarrow> map_option (\<lambda>(bs, p). (b @ bs, p)) (send_all content p rs'))"
proof (induction rs arbitrary: p)
  case Nil
  then show ?case by (cases "send_all content p rs'") auto
next
  case (Cons r rs)
  then show ?case by (auto simp: option.map_comp comp_def case_prod_beta split: option.splits)
qed

lemma responder_sent_started: "responder_sent content r p = Some (b, q) \<Longrightarrow> q \<noteq> NotStarted"
  by (cases "(content, r, p)" rule: responder_sent.cases) (auto simp: after_header_def Let_def split: if_splits option.splits)

lemma send_all_started: "send_all content p rs = Some (b, q) \<Longrightarrow> p \<noteq> NotStarted \<Longrightarrow> q \<noteq> NotStarted"
  by (induction rs arbitrary: p b) (auto dest: responder_sent_started split: option.splits)

text \<open>Where a responder is, as the end of a send loop.\<close>

fun responder_end :: "responder \<Rightarrow> send_end" where
  "responder_end (Over e) = e"
| "responder_end _ = SendWaits"

lemma send_all_over: "send_all content (Over e) rs = (if rs = [] then Some ([], Over e) else None)"
  by (cases rs) simp_all

lemma send_all_body:
  "send_all content (SendingBody response f) rs = Some (b, p) \<Longrightarrow>
     \<exists>rest. body_loop (content f) rs = (b, responder_end p, rest)"
proof (induction rs arbitrary: b)
  case (Cons r rs)
  show ?case
  proof (cases r)
    case (Inl e)
    then show ?thesis using Cons by (auto simp: send_all_over split: if_splits)
  next
    case (Inr n)
    show ?thesis
    proof (cases "length (content f) \<le> n")
      case True
      then show ?thesis using Cons.prems Inr by (auto simp: send_all_over split: if_splits)
    next
      case False
      then obtain bs where "send_all content (SendingBody response f) rs = Some (bs, p)" "b = take n (content f) @ bs"
        using Cons.prems Inr by auto
      with Cons.IH False Inr show ?thesis by force
    qed
  qed
qed auto

text \<open>The results a responder gets one after the other lead it where the whole \<^verbatim>\<open>responseHandler\<close> does.\<close>

lemma send_all_handler:
  assumes "prepare_response os root rq cache w = (Returns (response, file), cache', w')"
    and "send_all content (SendingHeader response file) rs = Some (b, p)"
  shows "responseHandler os content root rq rs cache w = (Returns (b, responder_end p), cache', w')"
proof -
  have "(case header_loop (serialize response) rs of
      (wire, Sent, rs) \<Rightarrow>
        if req_method response = HEAD \<or> status response \<noteq> OK then (Returns (wire, Sent), cache', w')
        else (case file of
               None \<Rightarrow> (Undefined, cache', w')
             | Some f \<Rightarrow> (case body_loop (content f) rs of (wire2, e, _) \<Rightarrow> (Returns (wire @ wire2, e), cache', w')))
    | (wire, e, _) \<Rightarrow> (Returns (wire, e), cache', w')) = (Returns (b, responder_end p), cache', w')"
    using assms(2)
  proof (induction rs arbitrary: b)
    case (Cons r rs)
    show ?case
    proof (cases r)
      case (Inl e)
      then show ?thesis using Cons by (auto simp: send_all_over split: if_splits)
    next
      case (Inr n)
      let ?D = "serialize response"
      show ?thesis
      proof (cases "sv_remove_prefix n ?D = []")
        case True
        then obtain q bs where q: "after_header response file = Some q" "send_all content q rs = Some (bs, p)"
          "b = take n ?D @ bs"
          using Cons.prems Inr by (auto split: option.splits)
        have h: "header_loop ?D (r # rs) = (take n ?D, Sent, rs)" using True Inr by simp
        show ?thesis
        proof (cases "req_method response = HEAD \<or> status response \<noteq> OK")
          case True
          then show ?thesis using q h by (auto simp: after_header_def send_all_over split: if_splits)
        next
          case False
          then obtain f where f: "file = Some f" "q = SendingBody response f"
            using q(1) by (auto simp: after_header_def split: option.splits)
          then show ?thesis using send_all_body [of content response f rs bs p] q h False by auto
        qed
      next
        case False
        then obtain bs where bs: "send_all content (SendingHeader response file) rs = Some (bs, p)" "b = take n ?D @ bs"
          using Cons.prems Inr by (auto simp: Let_def)
        obtain wire e rest where h: "header_loop ?D rs = (wire, e, rest)" by (metis prod.exhaust)
        then have "header_loop ?D (r # rs) = (take n ?D @ wire, e, rest)" using False Inr by (simp add: Let_def)
        then show ?thesis using Cons.IH [OF bs(1)] bs(2) h
          by (cases e) (auto split: if_splits option.splits prod.splits)
      qed
    qed
  qed auto
  then show ?thesis by (simp add: responseHandler_def assms(1))
qed

subsection \<open>The session alone\<close>

text \<open>What a session that is where it is does with further results.\<close>

fun session_rest :: "session_state \<Rightarrow> asyncSocket \<Rightarrow> recv_result list \<Rightarrow> httpRequest list \<times> session_end" where
  "session_rest (SessionOver e) client rs = ([], e)"
| "session_rest (Reading msg) client rs =
     (case read_loop rs client msg of
        None \<Rightarrow> ([], SessionWaits)
      | Some (requestMsg, client, rs') \<Rightarrow>
          (case session_request requestMsg of
             Undefined \<Rightarrow> ([], SessionUndefined)
           | Throws e \<Rightarrow> ([], SessionThrows e)
           | Returns None \<Rightarrow> ([], SessionEnded)
           | Returns (Some request) \<Rightarrow>
               if closeSession request \<or> closed client then ([request], SessionEnded)
               else (case clientHandle rs' client of (reqs, e) \<Rightarrow> (request # reqs, e))))"

lemma clientHandle_rest: "clientHandle rs client = session_rest (Reading []) client rs"
  by (subst clientHandle.simps) (simp add: async_readRequest_def)

lemma session_received_rest:
  assumes "session_received r msg s = Some s'"
  shows "\<exists>new. map fst (us_responders s') = map fst (us_responders s) @ new \<and>
    session_rest (Reading msg) (us_client s) (r # rs) =
      (case session_rest (us_reader s') (us_client s') rs of (reqs, e) \<Rightarrow> (new @ reqs, e))"
proof -
  obtain a c where t: "readRequest_turn r (us_client s) msg = (a, c)" by fastforce
  show ?thesis
  proof (cases a)
    case (Inr m)
    then have "s' = s\<lparr>us_client := c, us_reader := Reading m\<rparr>" using assms t by (simp add: session_received_def)
    then show ?thesis using t Inr by (intro exI [of _ "[]"]) (simp split: prod.splits)
  next
    case (Inl res)
    then obtain q where q: "session_request res = Returns q"
      using assms t by (cases "session_request res") (simp_all add: session_received_def)
    show ?thesis
    proof (cases q)
      case None
      then have "s' = s\<lparr>us_client := c, us_reader := SessionOver SessionEnded\<rparr>"
        using assms t Inl q by (simp add: session_received_def)
      then show ?thesis using t Inl q None by simp
    next
      case (Some rq)
      let ?over = "closeSession rq \<or> closed c"
      have s': "us_responders s' = us_responders s @ [(rq, NotStarted)]" "us_client s' = c"
        "us_reader s' = (if ?over then SessionOver SessionEnded else Reading [])"
        using assms t Inl q Some by (auto simp: session_received_def)
      then show ?thesis using t Inl q Some
        by (intro exI [of _ "[rq]"]) (simp add: clientHandle_rest split: prod.splits)
    qed
  qed
qed

subsection \<open>What holds of every run\<close>

text \<open>
  A responder that has started was given the state of the cache at some time, and has done what it does
  alone with the results of its own sends; a responder that has not started has sent nothing.
\<close>

definition responder_ok ::
  "'w os \<Rightarrow> (fileCache \<Rightarrow> string) \<Rightarrow> path \<Rightarrow> uevent list \<Rightarrow> (nat \<times> string) list \<Rightarrow> nat \<Rightarrow> httpRequest \<times> responder \<Rightarrow> bool" where
  "responder_ok os content root es wire j x \<longleftrightarrow>
     (snd x = NotStarted \<and> results_of j es = [] \<and> sent_by j wire = [])
     \<or> (\<exists>cache w response file cache' w'.
          prepare_response os root (fst x) cache w = (Returns (response, file), cache', w')
          \<and> send_all content (SendingHeader response file) (results_of j es) = Some (sent_by j wire, snd x))"

definition usession_inv ::
  "'w os \<Rightarrow> (fileCache \<Rightarrow> string) \<Rightarrow> path \<Rightarrow> asyncSocket \<Rightarrow> uevent list \<Rightarrow> 'w usession \<Rightarrow> bool" where
  "usession_inv os content root client es s \<longleftrightarrow>
     (\<forall>rs. clientHandle (receipts es @ rs) client =
        (case session_rest (us_reader s) (us_client s) rs of (reqs, e) \<Rightarrow> (map fst (us_responders s) @ reqs, e)))
     \<and> (\<forall>j < length (us_responders s). responder_ok os content root es (us_wire s) j (us_responders s ! j))
     \<and> (\<forall>(j, b) \<in> set (us_wire s). j < length (us_responders s))
     \<and> (\<forall>j r. SendEnds j r \<in> set es \<longrightarrow> j < length (us_responders s))"

lemma usession_inv_new: "usession_inv os content root client [] (new_usession client cache w)"
  by (simp add: usession_inv_def new_usession_def clientHandle_rest split: prod.splits)

lemma results_none: "\<forall>r. SendEnds j r \<notin> set es \<Longrightarrow> results_of j es = []"
  by (auto simp: results_of_def split: uevent.splits)

lemma sent_none: "\<forall>b. (j, b) \<notin> set ws \<Longrightarrow> sent_by j ws = []"
  by (auto simp: sent_by_def)

lemma inv_received:
  assumes "usession_inv os content root client es s" and "us_reader s = Reading msg" and "session_received r msg s = Some s'"
  shows "usession_inv os content root client (es @ [Received r]) s'"
proof -
  have w: "us_wire s' = us_wire s" and p: "\<exists>xs. us_responders s' = us_responders s @ xs \<and> snd ` set xs \<subseteq> {NotStarted}"
    using assms(3) by (auto simp: session_received_def split: prod.splits sum.splits outcome.splits option.splits)
  obtain xs where xs: "us_responders s' = us_responders s @ xs" "snd ` set xs \<subseteq> {NotStarted}" using p by blast
  have ok: "responder_ok os content root (es @ [Received r]) (us_wire s') j (us_responders s' ! j)"
    if "j < length (us_responders s')" for j
  proof (cases "j < length (us_responders s)")
    case True
    then show ?thesis using assms(1) by (simp add: usession_inv_def responder_ok_def xs(1) w nth_append)
  next
    case False
    then have "xs ! (j - length (us_responders s)) \<in> set xs" using that xs(1) by (intro nth_mem) simp
    then have "snd (us_responders s' ! j) = NotStarted" using False xs by (auto simp: nth_append)
    moreover have "results_of j es = []" using False assms(1) by (intro results_none) (auto simp: usession_inv_def)
    moreover have "sent_by j (us_wire s) = []" using False assms(1) by (intro sent_none) (auto simp: usession_inv_def)
    ultimately show ?thesis by (simp add: responder_ok_def w)
  qed
  have run: "clientHandle (receipts (es @ [Received r]) @ rs) client =
      (case session_rest (us_reader s') (us_client s') rs of (reqs, e) \<Rightarrow> (map fst (us_responders s') @ reqs, e))" for rs
  proof -
    obtain new where new: "map fst (us_responders s') = map fst (us_responders s) @ new"
      "session_rest (Reading msg) (us_client s) (r # rs) =
        (case session_rest (us_reader s') (us_client s') rs of (reqs, e) \<Rightarrow> (new @ reqs, e))"
      using session_received_rest [OF assms(3)] by blast
    have "clientHandle (receipts es @ r # rs) client =
        (case session_rest (Reading msg) (us_client s) (r # rs) of (reqs, e) \<Rightarrow> (map fst (us_responders s) @ reqs, e))"
      using assms(1,2) unfolding usession_inv_def by metis
    then show ?thesis unfolding new by (simp split: prod.splits)
  qed
  show ?thesis unfolding usession_inv_def
  proof (intro conjI)
    show "\<forall>(j, b) \<in> set (us_wire s'). j < length (us_responders s')"
      "\<forall>j x. SendEnds j x \<in> set (es @ [Received r]) \<longrightarrow> j < length (us_responders s')"
      using assms(1) by (auto simp: usession_inv_def w xs(1))
  qed (use ok run in blast)+
qed

lemma inv_responder:
  assumes "usession_inv os content root client es s" and "j < length (us_responders s)"
    and "us_reader s' = us_reader s" and "us_client s' = us_client s"
    and "us_responders s' = (us_responders s)[j := (fst (us_responders s ! j), p)]"
    and "us_wire s' = us_wire s @ ws" and "fst ` set ws \<subseteq> {j}" and "receipts [e] = []"
    and "\<And>i. i \<noteq> j \<Longrightarrow> results_of i [e] = []" and "\<And>i r. e = SendEnds i r \<Longrightarrow> i = j"
    and "responder_ok os content root (es @ [e]) (us_wire s') j (fst (us_responders s ! j), p)"
  shows "usession_inv os content root client (es @ [e]) s'"
  unfolding usession_inv_def
proof (intro conjI)
  have m: "map fst (us_responders s') = map fst (us_responders s)"
    unfolding assms(5) using assms(2) by (simp add: map_update) (metis list_update_id nth_map)
  show "\<forall>rs. clientHandle (receipts (es @ [e]) @ rs) client =
      (case session_rest (us_reader s') (us_client s') rs of (reqs, e) \<Rightarrow> (map fst (us_responders s') @ reqs, e))"
    using assms(1,3,4,8) m by (simp add: usession_inv_def)
  show "\<forall>i < length (us_responders s'). responder_ok os content root (es @ [e]) (us_wire s') i (us_responders s' ! i)"
  proof (intro allI impI)
    fix i assume i: "i < length (us_responders s')"
    show "responder_ok os content root (es @ [e]) (us_wire s') i (us_responders s' ! i)"
    proof (cases "i = j")
      case True
      then show ?thesis using assms(2,5,11) by simp
    next
      case False
      then have "sent_by i ws = []" using assms(7) by (intro sent_none) force
      then show ?thesis using False i assms(1,5,6,9) by (simp add: usession_inv_def responder_ok_def)
    qed
  qed
  show "\<forall>(i, b) \<in> set (us_wire s'). i < length (us_responders s')"
    using assms(1,2,5,6,7) by (fastforce simp: usession_inv_def)
  show "\<forall>i r. SendEnds i r \<in> set (es @ [e]) \<longrightarrow> i < length (us_responders s')"
    using assms(1,2,5,10) by (auto simp: usession_inv_def)
qed

lemma usession_inv_step:
  assumes "usession_inv os content root client es s" and "usession_step os content root e s = Some s'"
  shows "usession_inv os content root client (es @ [e]) s'"
proof (cases e)
  case (Received r)
  then obtain msg where "us_reader s = Reading msg" "session_received r msg s = Some s'"
    using assms(2) by (auto split: session_state.splits)
  then show ?thesis using inv_received [OF assms(1)] Received by simp
next
  case (Starts j)
  then have j: "j < length (us_responders s)" "snd (us_responders s ! j) = NotStarted"
    and st: "responder_starts os root j (fst (us_responders s ! j)) s = Some s'"
    using assms(2) by (auto split: if_splits)
  from st obtain response f cache w where p:
    "prepare_response os root (fst (us_responders s ! j)) (us_cache s) (us_world s) = (Returns (response, f), cache, w)"
    "s' = s\<lparr>us_cache := cache, us_world := w,
       us_responders := (us_responders s)[j := (fst (us_responders s ! j), SendingHeader response f)]\<rparr>"
    by (auto simp: responder_starts_def split: prod.splits outcome.splits)
  have "responder_ok os content root es (us_wire s) j (us_responders s ! j)"
    using assms(1) j(1) by (simp add: usession_inv_def)
  then have r: "results_of j es = [] \<and> sent_by j (us_wire s) = []"
    unfolding responder_ok_def using j(2) by (elim disjE exE conjE) (auto dest: send_all_started)
  show ?thesis unfolding Starts
    using inv_responder [OF assms(1) j(1), of s' "SendingHeader response f" "[]" "Starts j"] p r
    by (auto simp: responder_ok_def)
next
  case (SendEnds j r)
  then obtain taken p where j: "j < length (us_responders s)"
    and p: "responder_sent content r (snd (us_responders s ! j)) = Some (taken, p)"
    "s' = s\<lparr>us_responders := (us_responders s)[j := (fst (us_responders s ! j), p)], us_wire := us_wire s @ [(j, taken)]\<rparr>"
    using assms(2) by (auto split: if_splits option.splits)
  have "snd (us_responders s ! j) \<noteq> NotStarted" using p(1) by auto
  moreover have "responder_ok os content root es (us_wire s) j (us_responders s ! j)"
    using assms(1) j by (simp add: usession_inv_def)
  ultimately obtain cache w response f cache' w' where ok:
    "prepare_response os root (fst (us_responders s ! j)) cache w = (Returns (response, f), cache', w')"
    "send_all content (SendingHeader response f) (results_of j es) = Some (sent_by j (us_wire s), snd (us_responders s ! j))"
    unfolding responder_ok_def by blast
  have "send_all content (SendingHeader response f) (results_of j (es @ [SendEnds j r])) = Some (sent_by j (us_wire s'), p)"
    using ok(2) p by (simp add: send_all_append)
  with ok(1) have "responder_ok os content root (es @ [SendEnds j r]) (us_wire s') j (fst (us_responders s ! j), p)"
    unfolding responder_ok_def fst_conv snd_conv by blast
  then show ?thesis unfolding SendEnds
    using inv_responder [OF assms(1) j, of s' p "[(j, taken)]" "SendEnds j r"] p(2) by simp
qed

lemma usession_inv_run:
  "usession_run os content root es (new_usession client cache w) = Some s \<Longrightarrow> usession_inv os content root client es s"
proof (induction es arbitrary: s rule: rev_induct)
  case Nil
  then show ?case using usession_inv_new by auto
next
  case (snoc e es)
  then obtain t where "usession_run os content root es (new_usession client cache w) = Some t"
    "usession_step os content root e t = Some s"
    by (auto simp: usession_run_append split: option.splits)
  with snoc.IH usession_inv_step show ?case by blast
qed

lemma usession_inv_answers:
  assumes "usession_inv os content root client es s"
    and "j < length (us_responders s)" and "us_responders s ! j = (request, p)" and "p \<noteq> NotStarted"
  shows "\<exists>cache w cache' w'. responseHandler os content root request (results_of j es) cache w =
      (Returns (sent_by j (us_wire s), responder_end p), cache', w')"
proof -
  have "responder_ok os content root es (us_wire s) j (request, p)"
    using assms(1,2) unfolding usession_inv_def assms(3) [symmetric] by blast
  then obtain cache w response f cache' w' where
    "prepare_response os root request cache w = (Returns (response, f), cache', w')"
    "send_all content (SendingHeader response f) (results_of j es) = Some (sent_by j (us_wire s), p)"
    using assms(4) unfolding responder_ok_def fst_conv snd_conv by blast
  from send_all_handler [OF this] show ?thesis by blast
qed

lemma usession_inv_requests:
  assumes "usession_inv os content root client es s"
  shows "fst (clientHandle (receipts es) client) = map fst (us_responders s)"
proof -
  have "clientHandle (receipts es @ []) client =
      (case session_rest (us_reader s) (us_client s) [] of (reqs, e) \<Rightarrow> (map fst (us_responders s) @ reqs, e))"
    using assms unfolding usession_inv_def by blast
  moreover have "fst (session_rest (us_reader s) (us_client s) []) = []" by (cases "us_reader s") simp_all
  ultimately show ?thesis by (simp split: prod.splits)
qed

text \<open>
  The responders of a connection do not change each other.  In every interleaving of the session and
  its responders the requests are those the session hands over when it is alone, and every responder
  that has started has sent, on the shared connection, exactly the bytes that the whole
  \<^verbatim>\<open>responseHandler\<close> sends alone when the kernel gives its sends the same results, and has got as
  far; the cache was in some state when it asked it.
\<close>

lemma responders_do_not_interfere:
  assumes "usession_run os content root es (new_usession client cache0 w0) = Some s"
    and "j < length (us_responders s)" and "us_responders s ! j = (request, p)" and "p \<noteq> NotStarted"
  shows "(\<exists>cache w cache' w'. responseHandler os content root request (results_of j es) cache w =
      (Returns (sent_by j (us_wire s), responder_end p), cache', w')) \<and>
    fst (clientHandle (receipts es) client) = map fst (us_responders s)"
  using usession_inv_run [OF assms(1)] usession_inv_answers [OF _ assms(2-4)] usession_inv_requests by blast

subsection \<open>One request at a time\<close>

text \<open>
  The answer to a request, whole, and the reference: a server that reads a request, answers it and only
  then goes on; the bytes it sends to the client, and the cache and the world it ends with (none when a request
  cannot be answered).
\<close>

definition whole_answer :: "(fileCache \<Rightarrow> string) \<Rightarrow> httpResponse \<Rightarrow> fileCache option \<Rightarrow> string" where
  "whole_answer content response file =
     serialize response @
       (if req_method response = HEAD \<or> status response \<noteq> OK then []
        else (case file of None \<Rightarrow> [] | Some f \<Rightarrow> content f))"

fun answer_all ::
  "'w os \<Rightarrow> (fileCache \<Rightarrow> string) \<Rightarrow> path \<Rightarrow> httpRequest list \<Rightarrow> file_cache \<Rightarrow> 'w \<Rightarrow>
     string \<times> (file_cache \<times> 'w) option" where
  "answer_all os content webRoot [] cache w = ([], Some (cache, w))"
| "answer_all os content webRoot (request # requests) cache w =
     (case prepare_response os webRoot request cache w of
        (Returns (response, file), cache, w) \<Rightarrow>
          apfst ((@) (whole_answer content response file)) (answer_all os content webRoot requests cache w)
      | _ \<Rightarrow> ([], None))"

lemma answer_all_snoc:
  "answer_all os content root rqs cache w = (wire, Some (c, v)) \<Longrightarrow>
     answer_all os content root (rqs @ [rq]) cache w =
       (case prepare_response os root rq c v of
          (Returns (r, f), c, v) \<Rightarrow> (wire @ whole_answer content r f, Some (c, v))
        | _ \<Rightarrow> (wire, None))"
proof (induction rqs arbitrary: cache w wire)
  case Nil
  then show ?case by (auto split: prod.splits outcome.splits)
next
  case (Cons rq1 rqs)
  then obtain r1 f1 c1 v1 where p: "prepare_response os root rq1 cache w = (Returns (r1, f1), c1, v1)"
    by (auto split: prod.splits outcome.splits)
  with Cons.prems obtain wire1 where w: "answer_all os content root rqs c1 v1 = (wire1, Some (c, v))"
    "wire = whole_answer content r1 f1 @ wire1"
    by (cases "answer_all os content root rqs c1 v1") auto
  show ?case using Cons.IH [OF w(1)] p w(2) by (auto split: prod.splits outcome.splits)
qed

text \<open>
  A client that sends a request only when the answers before it are complete: at each result of a \<^verbatim>\<open>recv\<close>
  all responders so far are over.  The kernel takes a buffer as a whole or asks to try again.
\<close>

definition is_over :: "responder \<Rightarrow> bool" where
  "is_over p \<longleftrightarrow> (\<exists>e. p = Over e)"

fun send_whole :: "(fileCache \<Rightarrow> string) \<Rightarrow> send_result \<Rightarrow> responder \<Rightarrow> bool" where
  "send_whole content (Inl e) p \<longleftrightarrow> try_again e"
| "send_whole content (Inr n) (SendingHeader response file) \<longleftrightarrow> length (serialize response) \<le> n"
| "send_whole content (Inr n) (SendingBody response f) \<longleftrightarrow> length (content f) \<le> n"
| "send_whole content (Inr n) p \<longleftrightarrow> True"

fun in_turn :: "'w os \<Rightarrow> (fileCache \<Rightarrow> string) \<Rightarrow> path \<Rightarrow> uevent list \<Rightarrow> 'w usession \<Rightarrow> bool" where
  "in_turn os content root [] s \<longleftrightarrow> True"
| "in_turn os content root (e # es) s \<longleftrightarrow>
     (case e of
        Received r \<Rightarrow> list_all (\<lambda>(_, p). is_over p) (us_responders s)
      | Starts j \<Rightarrow> True
      | SendEnds j r \<Rightarrow> j < length (us_responders s) \<and> send_whole content r (snd (us_responders s ! j)))
     \<and> (case usession_step os content root e s of
          None \<Rightarrow> False
        | Some s \<Rightarrow> in_turn os content root es s)"

text \<open>
  The invariant: the responders before the last one are over and have sent what the reference sends; the last one
  is over as well, or is \<open>part_way\<close> through its answer.
\<close>

definition part_way ::
  "'w os \<Rightarrow> path \<Rightarrow> httpRequest \<Rightarrow> file_cache \<Rightarrow> 'w \<Rightarrow> string \<Rightarrow> responder \<Rightarrow> 'w usession \<Rightarrow> bool" where
  "part_way os root rq c v wire p s \<longleftrightarrow>
     p = NotStarted \<and> on_wire s = wire \<and> us_cache s = c \<and> us_world s = v
     \<or> (\<exists>r f. prepare_response os root rq c v = (Returns (r, f), us_cache s, us_world s) \<and>
          (p = SendingHeader r f \<and> on_wire s = wire \<or>
           (\<exists>g. p = SendingBody r g \<and> f = Some g \<and> req_method r \<noteq> HEAD \<and> status r = OK \<and>
              on_wire s = wire @ serialize r)))"

definition all_over ::
  "'w os \<Rightarrow> (fileCache \<Rightarrow> string) \<Rightarrow> path \<Rightarrow> file_cache \<Rightarrow> 'w \<Rightarrow> (httpRequest \<times> responder) list \<Rightarrow> string \<Rightarrow>
     file_cache \<Rightarrow> 'w \<Rightarrow> bool" where
  "all_over os content root cache0 w0 rs wire c v \<longleftrightarrow>
     list_all (\<lambda>(_, p). is_over p) rs \<and>
     answer_all os content root (map fst rs) cache0 w0 = (wire, Some (c, v))"

definition turn_inv ::
  "'w os \<Rightarrow> (fileCache \<Rightarrow> string) \<Rightarrow> path \<Rightarrow> file_cache \<Rightarrow> 'w \<Rightarrow> 'w usession \<Rightarrow> bool" where
  "turn_inv os content root cache0 w0 s \<longleftrightarrow>
     all_over os content root cache0 w0 (us_responders s) (on_wire s) (us_cache s) (us_world s)
     \<or> (\<exists>rs rq p wire c v. us_responders s = rs @ [(rq, p)] \<and>
          all_over os content root cache0 w0 rs wire c v \<and> part_way os root rq c v wire p s)"

lemma part_way_not_over: "part_way os root rq c v wire p s \<Longrightarrow> \<not> is_over p"
  by (auto simp: part_way_def is_over_def)

lemma all_over_snoc:
  assumes "all_over os content root cache0 w0 rs wire c v"
    and "prepare_response os root rq c v = (Returns (r, f), c', v')"
  shows "all_over os content root cache0 w0 (rs @ [(rq, Over e)]) (wire @ whole_answer content r f) c' v'"
  using assms answer_all_snoc [of os content root "map fst rs" cache0 w0 wire c v rq]
  by (simp add: all_over_def is_over_def)

lemma all_over_nth: "all_over os content root cache0 w0 rs wire c v \<Longrightarrow> j < length rs \<Longrightarrow> \<exists>e. snd (rs ! j) = Over e"
  by (fastforce simp: all_over_def list_all_length is_over_def)

text \<open>A step of a responder is one of the last, which is part way.\<close>

lemma turn_inv_last:
  assumes "turn_inv os content root cache0 w0 s" and "j < length (us_responders s)"
    and "\<not> is_over (snd (us_responders s ! j))"
  obtains rs rq p wire c v where "us_responders s = rs @ [(rq, p)]" and "j = length rs"
    and "all_over os content root cache0 w0 rs wire c v" and "part_way os root rq c v wire p s"
proof -
  have no: "\<not> all_over os content root cache0 w0 (us_responders s) wire c v" for wire c v
    using all_over_nth [of os content root cache0 w0 "us_responders s" wire c v j] assms(2,3) by (auto simp: is_over_def)
  then obtain rs rq p wire c v where r: "us_responders s = rs @ [(rq, p)]"
    "all_over os content root cache0 w0 rs wire c v" "part_way os root rq c v wire p s"
    using assms(1) unfolding turn_inv_def by blast
  have "\<not> j < length rs"
  proof
    assume j: "j < length rs"
    from all_over_nth [OF r(2) j] show False using assms(3) r(1) j by (auto simp: is_over_def nth_append)
  qed
  then show thesis using that r assms(2) by simp
qed

lemma turn_inv_received:
  assumes "turn_inv os content root cache0 w0 s" and "usession_step os content root (Received r) s = Some s'"
    and "list_all (\<lambda>(_, p). is_over p) (us_responders s)"
  shows "turn_inv os content root cache0 w0 s'"
proof -
  from assms(2) obtain msg where "session_received r msg s = Some s'" by (auto split: session_state.splits)
  then have s': "us_wire s' = us_wire s" "us_cache s' = us_cache s" "us_world s' = us_world s"
    "us_responders s' = us_responders s \<or> (\<exists>rq. us_responders s' = us_responders s @ [(rq, NotStarted)])"
    by (auto simp: session_received_def split: prod.splits sum.splits outcome.splits option.splits)
  have "all_over os content root cache0 w0 (us_responders s) (on_wire s) (us_cache s) (us_world s)"
    using assms(1,3) part_way_not_over unfolding turn_inv_def by fastforce
  then show ?thesis using s' by (auto simp: turn_inv_def part_way_def on_wire_def)
qed

lemma turn_inv_starts:
  assumes "turn_inv os content root cache0 w0 s" and "usession_step os content root (Starts j) s = Some s'"
  shows "turn_inv os content root cache0 w0 s'"
proof -
  have j: "j < length (us_responders s)" "snd (us_responders s ! j) = NotStarted"
    and st: "responder_starts os root j (fst (us_responders s ! j)) s = Some s'"
    using assms(2) by (auto split: if_splits)
  then have "\<not> is_over (snd (us_responders s ! j))" by (simp add: is_over_def)
  then obtain rs rq p wire c v where l: "us_responders s = rs @ [(rq, p)]" "j = length rs"
    "all_over os content root cache0 w0 rs wire c v" "part_way os root rq c v wire p s"
    using turn_inv_last [OF assms(1) j(1)] by metis
  then have p: "on_wire s = wire" "us_cache s = c" "us_world s = v"
    using j(2) by (auto simp: part_way_def)
  obtain r f c' v' where r: "prepare_response os root rq c v = (Returns (r, f), c', v')"
    "s' = s\<lparr>us_cache := c', us_world := v', us_responders := (us_responders s)[j := (rq, SendingHeader r f)]\<rparr>"
    using st l(1,2) p by (auto simp: responder_starts_def split: prod.splits outcome.splits)
  have "part_way os root rq c v wire (SendingHeader r f) s'"
    using r p(1) by (simp add: part_way_def on_wire_def)
  moreover have "us_responders s' = rs @ [(rq, SendingHeader r f)]" using r(2) l(1,2) by simp
  ultimately show ?thesis using l(3) unfolding turn_inv_def by blast
qed

lemma turn_inv_sends:
  assumes "turn_inv os content root cache0 w0 s" and "usession_step os content root (SendEnds j r) s = Some s'"
    and "send_whole content r (snd (us_responders s ! j))"
  shows "turn_inv os content root cache0 w0 s'"
proof -
  obtain taken q where j: "j < length (us_responders s)"
    and q: "responder_sent content r (snd (us_responders s ! j)) = Some (taken, q)"
    and s': "s' = s\<lparr>us_responders := (us_responders s)[j := (fst (us_responders s ! j), q)], us_wire := us_wire s @ [(j, taken)]\<rparr>"
    using assms(2) by (auto split: if_splits option.splits)
  have "\<not> is_over (snd (us_responders s ! j))" using q by (auto simp: is_over_def)
  then obtain rs rq p wire c v where l: "us_responders s = rs @ [(rq, p)]" "j = length rs"
    "all_over os content root cache0 w0 rs wire c v" "part_way os root rq c v wire p s"
    using turn_inv_last [OF assms(1) j] by metis
  have s'': "us_responders s' = rs @ [(rq, q)]" "on_wire s' = on_wire s @ taken" "us_cache s' = us_cache s"
    "us_world s' = us_world s"
    using s' l(1,2) by (simp_all add: on_wire_def)
  have q': "responder_sent content r p = Some (taken, q)" and w: "send_whole content r p"
    using q assms(3) l(1,2) by simp_all
  have again: ?thesis if "q = p" "taken = []"
  proof -
    have "part_way os root rq c v wire q s'" using l(4) s'' that by (simp add: part_way_def)
    with s''(1) l(3) show ?thesis unfolding turn_inv_def by blast
  qed
  have over: ?thesis if "q = Over e" "prepare_response os root rq c v = (Returns (x, f), us_cache s, us_world s)"
    "on_wire s @ taken = wire @ whole_answer content x f" for e x f
    using all_over_snoc [OF l(3) that(2), of e] that s'' by (simp add: turn_inv_def)
  have "p \<noteq> NotStarted" using q' by auto
  then obtain x f where x: "prepare_response os root rq c v = (Returns (x, f), us_cache s, us_world s)"
    "p = SendingHeader x f \<and> on_wire s = wire \<or>
     (\<exists>g. p = SendingBody x g \<and> f = Some g \<and> req_method x \<noteq> HEAD \<and> status x = OK \<and> on_wire s = wire @ serialize x)"
    using l(4) unfolding part_way_def by blast
  show ?thesis
  proof (cases r)
    case (Inl e)
    then show ?thesis using x(2) q' w by (intro again) auto
  next
    case (Inr n)
    from x(2) show ?thesis
    proof (elim disjE exE conjE)
      assume p: "p = SendingHeader x f" "on_wire s = wire"
      have t: "taken = serialize x" "after_header x f = Some q"
        using q' w p(1) Inr by (auto simp: sv_remove_prefix_def split: if_splits)
      show ?thesis
      proof (cases "req_method x = HEAD \<or> status x \<noteq> OK")
        case True
        then show ?thesis using over [of Sent, OF _ x(1)] t p(2) by (auto simp: after_header_def whole_answer_def)
      next
        case False
        then obtain g where "f = Some g" "q = SendingBody x g"
          using t(2) by (auto simp: after_header_def split: option.splits)
        then have "part_way os root rq c v wire q s'"
          using x(1) p(2) t(1) False s'' by (simp add: part_way_def)
        with s''(1) l(3) show ?thesis unfolding turn_inv_def by blast
      qed
    next
      fix g assume "p = SendingBody x g" "f = Some g" "req_method x \<noteq> HEAD" "status x = OK"
        "on_wire s = wire @ serialize x"
      then show ?thesis using over [of Sent, OF _ x(1)] q' w Inr by (auto simp: whole_answer_def)
    qed
  qed
qed

lemma turn_inv_run:
  "in_turn os content root es s \<Longrightarrow> turn_inv os content root cache0 w0 s \<Longrightarrow>
     \<exists>s'. usession_run os content root es s = Some s' \<and> turn_inv os content root cache0 w0 s'"
proof (induction es arbitrary: s)
  case (Cons e es)
  then obtain t where t: "usession_step os content root e s = Some t" "in_turn os content root es t"
    by (auto split: option.splits)
  have "turn_inv os content root cache0 w0 t"
  proof (cases e)
    case (Received r)
    with turn_inv_received [OF Cons.prems(2), of r t] t(1) Cons.prems(1) show ?thesis by simp
  next
    case (Starts j)
    with turn_inv_starts [OF Cons.prems(2), of j t] t(1) show ?thesis by simp
  next
    case (SendEnds j r)
    with turn_inv_sends [OF Cons.prems(2), of j r t] t(1) Cons.prems(1) show ?thesis by simp
  qed
  from Cons.IH [OF t(2) this] t(1) show ?case by simp
qed simp

lemma turn_inv_wire:
  assumes "turn_inv os content root cache0 w0 s"
  shows "\<exists>rest. fst (answer_all os content root (map fst (us_responders s)) cache0 w0) = on_wire s @ rest"
    and "list_all (\<lambda>(_, p). is_over p) (us_responders s) \<longrightarrow>
      answer_all os content root (map fst (us_responders s)) cache0 w0 = (on_wire s, Some (us_cache s, us_world s))"
proof -
  have "(\<exists>rest. fst (answer_all os content root (map fst (us_responders s)) cache0 w0) = on_wire s @ rest) \<and>
    (list_all (\<lambda>(_, p). is_over p) (us_responders s) \<longrightarrow>
      answer_all os content root (map fst (us_responders s)) cache0 w0 = (on_wire s, Some (us_cache s, us_world s)))"
    using assms unfolding turn_inv_def
  proof (elim disjE exE conjE)
    assume "all_over os content root cache0 w0 (us_responders s) (on_wire s) (us_cache s) (us_world s)"
    then show ?thesis by (simp add: all_over_def)
  next
    fix rs rq p wire c v
    assume l: "us_responders s = rs @ [(rq, p)]" "all_over os content root cache0 w0 rs wire c v"
      and p: "part_way os root rq c v wire p s"
    have a: "answer_all os content root (map fst rs @ [rq]) cache0 w0 =
        (case prepare_response os root rq c v of
           (Returns (r, f), c, v) \<Rightarrow> (wire @ whole_answer content r f, Some (c, v))
         | _ \<Rightarrow> (wire, None))"
      using l(2) by (intro answer_all_snoc) (simp add: all_over_def)
    have "\<exists>rest. fst (answer_all os content root (map fst rs @ [rq]) cache0 w0) = on_wire s @ rest"
      using p unfolding a part_way_def by (auto simp: whole_answer_def split: prod.splits outcome.splits)
    then show ?thesis using part_way_not_over [OF p] l(1) by simp
  qed
  then show "\<exists>rest. fst (answer_all os content root (map fst (us_responders s)) cache0 w0) = on_wire s @ rest"
    and "list_all (\<lambda>(_, p). is_over p) (us_responders s) \<longrightarrow>
      answer_all os content root (map fst (us_responders s)) cache0 w0 = (on_wire s, Some (us_cache s, us_world s))"
    by blast+
qed

lemma turn_inv_new: "turn_inv os content root cache w (new_usession client cache w)"
  by (simp add: turn_inv_def all_over_def new_usession_def on_wire_def)

text \<open>
  C27: a connection whose requests come one at a time carries the answers of a server that does one thing after
  the other.  If every result of a \<^verbatim>\<open>recv\<close> comes when the responders of the requests before are over, and
  the kernel takes each buffer as a whole (after any number of tries), then what was sent is at any time the
  beginning of the whole answers to the requests, header and file, in their order; and it is all of them, with the cache
  as the reference leaves it, when the responders are over.
\<close>

theorem answers_in_turn:
  assumes "in_turn os content root es (new_usession client cache w)"
    and "requests = fst (clientHandle (receipts es) client)"
  shows "\<exists>s rest. usession_run os content root es (new_usession client cache w) = Some s \<and>
    map fst (us_responders s) = requests \<and>
    fst (answer_all os content root requests cache w) = on_wire s @ rest \<and>
    (list_all (\<lambda>(_, p). is_over p) (us_responders s) \<longrightarrow>
       answer_all os content root requests cache w = (on_wire s, Some (us_cache s, us_world s)))"
proof -
  obtain s where s: "usession_run os content root es (new_usession client cache w) = Some s"
    "turn_inv os content root cache w s"
    using turn_inv_run [OF assms(1) turn_inv_new] by blast
  have "map fst (us_responders s) = requests"
    using usession_inv_requests [OF usession_inv_run [OF s(1)]] assms(2) by simp
  with s turn_inv_wire [OF s(2)] show ?thesis by metis
qed

subsection \<open>Requests that do not wait\<close>

text \<open>A responder that runs from its start to its end, while the others do nothing.\<close>

lemma run_sends:
  assumes "j < length (us_responders s)" and "send_all content (snd (us_responders s ! j)) rs = Some (b, p)"
  shows "\<exists>ws. usession_run os content root (map (SendEnds j) rs) s =
      Some (s\<lparr>us_responders := (us_responders s)[j := (fst (us_responders s ! j), p)], us_wire := us_wire s @ ws\<rparr>) \<and>
    concat (map snd ws) = b"
  using assms
proof (induction rs arbitrary: s b)
  case Nil
  then show ?case by (intro exI [of _ "[]"]) auto
next
  case (Cons r rs)
  obtain b1 q bs where q: "responder_sent content r (snd (us_responders s ! j)) = Some (b1, q)"
    "send_all content q rs = Some (bs, p)" "b = b1 @ bs"
    using Cons.prems(2) by (auto split: option.splits)
  let ?s = "s\<lparr>us_responders := (us_responders s)[j := (fst (us_responders s ! j), q)], us_wire := us_wire s @ [(j, b1)]\<rparr>"
  have "usession_step os content root (SendEnds j r) s = Some ?s" using Cons.prems(1) q(1) by simp
  moreover have "\<exists>ws. usession_run os content root (map (SendEnds j) rs) ?s =
      Some (?s\<lparr>us_responders := (us_responders ?s)[j := (fst (us_responders ?s ! j), p)], us_wire := us_wire ?s @ ws\<rparr>) \<and>
      concat (map snd ws) = bs"
    using Cons.IH [of ?s bs] Cons.prems(1) q(2) by simp
  then obtain ws where "usession_run os content root (map (SendEnds j) rs) ?s =
      Some (?s\<lparr>us_responders := (us_responders ?s)[j := (fst (us_responders ?s ! j), p)], us_wire := us_wire ?s @ ws\<rparr>)"
    "concat (map snd ws) = bs" by blast
  ultimately show ?case using Cons.prems(1) q(3) by (intro exI [of _ "(j, b1) # ws"]) simp
qed

lemma run_responder:
  assumes "j < length (us_responders s)" and "us_responders s ! j = (request, NotStarted)"
    and "prepare_response os root request (us_cache s) (us_world s) = (Returns (response, f), cache, w)"
    and "send_all content (SendingHeader response f) rs = Some (b, p)"
  shows "\<exists>ws. usession_run os content root (Starts j # map (SendEnds j) rs) s =
      Some (s\<lparr>us_cache := cache, us_world := w, us_responders := (us_responders s)[j := (request, p)],
              us_wire := us_wire s @ ws\<rparr>) \<and>
    concat (map snd ws) = b"
proof -
  let ?s = "s\<lparr>us_cache := cache, us_world := w, us_responders := (us_responders s)[j := (request, SendingHeader response f)]\<rparr>"
  have "usession_step os content root (Starts j) s = Some ?s"
    using assms(1-3) by (simp add: responder_starts_def)
  moreover obtain ws where "usession_run os content root (map (SendEnds j) rs) ?s =
      Some (?s\<lparr>us_responders := (us_responders ?s)[j := (fst (us_responders ?s ! j), p)], us_wire := us_wire ?s @ ws\<rparr>)"
    "concat (map snd ws) = b"
    using run_sends [of j ?s content rs b p os root] assms(1,4) by auto
  ultimately show ?thesis using assms(1) by (intro exI [of _ ws]) simp
qed

lemma run_received:
  "usession_run os content root (map Received rs) s = Some t \<Longrightarrow> us_wire t = us_wire s"
proof (induction rs arbitrary: s)
  case (Cons r rs)
  then obtain u where u: "usession_step os content root (Received r) s = Some u"
    "usession_run os content root (map Received rs) u = Some t"
    by (auto split: option.splits)
  then have "us_wire u = us_wire s"
    by (auto simp: session_received_def split: session_state.splits prod.splits sum.splits outcome.splits option.splits)
  with Cons.IH [OF u(2)] show ?case by simp
qed simp

lemma run_then:
  "usession_run os content root es s = Some t \<Longrightarrow> usession_run os content root es' t = Some u \<Longrightarrow>
     usession_run os content root (es @ es') s = Some u"
  by (simp add: usession_run_append)

lemma whole_header:
  "responder_sent content (Inr (length (serialize r))) (SendingHeader r f) =
     map_option (Pair (serialize r)) (after_header r f)"
  by (simp add: sv_remove_prefix_def)

text \<open>
  C28: answers that are mixed.  A client that sends two requests for files without waiting can get the
  second answer, header and file, between the header and the file of the first one, although the kernel
  takes every send as a whole: nothing orders the responders of a connection.
\<close>

theorem pipelined_answers_mix:
  assumes "usession_run os content root (map Received rs) (new_usession client cache w) = Some s"
    and "us_responders s = [(rq1, NotStarted), (rq2, NotStarted)]"
    and "prepare_response os root rq1 (us_cache s) (us_world s) = (Returns (r1, Some f1), c1, w1)"
    and "prepare_response os root rq2 c1 w1 = (Returns (r2, Some f2), c2, w2)"
    and "status r1 = OK" and "req_method r1 = GET" and "status r2 = OK" and "req_method r2 = GET"
  shows "\<exists>es t. usession_run os content root (map Received rs @ es) (new_usession client cache w) = Some t \<and>
    receipts es = [] \<and> list_all (\<lambda>(_, p). is_over p) (us_responders t) \<and>
    on_wire t = serialize r1 @ (serialize r2 @ content f2) @ content f1"
proof -
  let ?r1 = "\<lambda>p. s\<lparr>us_cache := c1, us_world := w1, us_responders := [(rq1, p), (rq2, NotStarted)]\<rparr>"
  have a1: "after_header r1 (Some f1) = Some (SendingBody r1 f1)" "after_header r2 (Some f2) = Some (SendingBody r2 f2)"
    using assms(5-8) by (simp_all add: after_header_def)
  have s1: "usession_run os content root [Starts 0, SendEnds 0 (Inr (length (serialize r1)))] s =
      Some (?r1 (SendingBody r1 f1)\<lparr>us_wire := us_wire s @ [(0, serialize r1)]\<rparr>)"
    using assms(2,3) a1 by (simp add: responder_starts_def whole_header del: responder_sent.simps)
  let ?s1 = "?r1 (SendingBody r1 f1)\<lparr>us_wire := us_wire s @ [(0, serialize r1)]\<rparr>"
  have b2: "send_all content (SendingHeader r2 (Some f2)) [Inr (length (serialize r2)), Inr (length (content f2))] =
      Some (serialize r2 @ content f2, Over Sent)"
    using a1 by (simp add: whole_header del: responder_sent.simps(2))
  obtain ws where s2: "usession_run os content root
      (Starts 1 # map (SendEnds 1) [Inr (length (serialize r2)), Inr (length (content f2))]) ?s1 =
      Some (?s1\<lparr>us_cache := c2, us_world := w2, us_responders := [(rq1, SendingBody r1 f1), (rq2, Over Sent)],
              us_wire := us_wire ?s1 @ ws\<rparr>)" "concat (map snd ws) = serialize r2 @ content f2"
    using run_responder [OF _ _ _ b2, of 1 ?s1 rq2 os root c2 w2] assms(4) by auto
  let ?s2 = "?s1\<lparr>us_cache := c2, us_world := w2, us_responders := [(rq1, SendingBody r1 f1), (rq2, Over Sent)],
              us_wire := us_wire ?s1 @ ws\<rparr>"
  have s3: "usession_run os content root [SendEnds 0 (Inr (length (content f1)))] ?s2 =
      Some (?s2\<lparr>us_responders := [(rq1, Over Sent), (rq2, Over Sent)], us_wire := us_wire ?s2 @ [(0, content f1)]\<rparr>)"
    by simp
  let ?es = "[Starts 0, SendEnds 0 (Inr (length (serialize r1)))] @
      (Starts 1 # map (SendEnds 1) [Inr (length (serialize r2)), Inr (length (content f2))]) @
      [SendEnds 0 (Inr (length (content f1)))]"
  have "us_wire s = []" using run_received [OF assms(1)] by (simp add: new_usession_def)
  then show ?thesis
    using run_then [OF assms(1) run_then [OF s1 run_then [OF s2(1) s3]]] s2(2)
    by (intro exI [of _ ?es]) (simp add: on_wire_def is_over_def receipts_def)
qed

subsection \<open>Witnesses\<close>

definition bad_answer :: httpResponse where
  "bad_answer = new_httpResponse\<lparr>status := BAD_REQUEST\<rparr>"

lemma prepare_bad: "status rq = BAD_REQUEST \<Longrightarrow> prepare_response os root rq c w = (Returns (bad_answer, None), c, w)"
  using ctor_not_ok [of rq root] by (simp add: prepare_response_def bad_answer_def)

lemma bad_answer_sent:
  "length badRequestResponse \<le> n \<Longrightarrow>
     responder_sent content (Inr n) (SendingHeader bad_answer None) = Some (badRequestResponse, Over Sent)"
  by (simp add: bad_answer_def serialize_def sv_remove_prefix_def after_header_def)

definition demo_bad :: "uevent list" where
  "demo_bad = [Received (Inr (''X'' @ crlf2)), Starts 0, SendEnds 0 (Inr 500), Received (Inr []), Starts 1, SendEnds 1 (Inr 500)]"

text \<open>A malformed message that is answered, then the end of the stream, which is answered as well.\<close>

lemma demo_bad_run:
  obtains s rq1 rq2 where
    "usession_run demo_os content root demo_bad (new_usession \<lparr>fd = 3, closed = False\<rparr> c w) = Some s"
    and "in_turn demo_os content root demo_bad (new_usession \<lparr>fd = 3, closed = False\<rparr> c w)"
    and "us_responders s = [(rq1, Over Sent), (rq2, Over Sent)]"
    and "us_wire s = [(0, badRequestResponse), (1, badRequestResponse)]"
proof -
  let ?bad = "new_httpRequest\<lparr>status := BAD_REQUEST\<rparr>"
  have "fst (parseResquest new_httpRequest (''X'' @ crlf2)) = Inl (http_error BAD_REQUEST)" by code_simp
  from session_request_rejected [OF this] obtain rq where
    rq: "session_request (Inr (''X'' @ crlf2)) = Returns (Some rq)" "status rq = BAD_REQUEST" by blast
  have end_rq: "session_request (Inl (http_error BAD_REQUEST)) = Returns (Some ?bad)"
    by (simp add: session_request_def http_error_def)
  have open_on: "\<not> closeSession rq" using rq(2) by (simp add: closeSession_def)
  have ends: "sv_ends_with (''X'' @ crlf2) crlf2" "\<not> sv_ends_with [] crlf2" by code_simp+
  have len: "length badRequestResponse \<le> 500" "length (''X'' @ crlf2) \<le> 4096" "''X'' @ crlf2 \<noteq> []" by code_simp+
  have bad: "length (serialize bad_answer) \<le> 500" using len(1) by (simp add: bad_answer_def serialize_def)
  define m where "m = ''X'' @ crlf2"
  let ?c = "\<lparr>fd = 3, closed = False\<rparr>"
  let ?s = "\<lparr>us_client = ?c\<lparr>closed := True\<rparr>, us_reader = SessionOver SessionEnded,
    us_responders = [(rq, Over Sent), (?bad, Over Sent)], us_cache = c, us_world = w,
    us_wire = [(0, badRequestResponse), (1, badRequestResponse)]\<rparr>"
  have "usession_run demo_os content root demo_bad (new_usession ?c c w) = Some ?s"
    using rq end_rq open_on ends len
    by (simp add: demo_bad_def m_def [symmetric] new_usession_def session_received_def readRequest_turn_def
        end_of_stream_def responder_starts_def prepare_bad bad_answer_sent del: responder_sent.simps)
  moreover have "in_turn demo_os content root demo_bad (new_usession ?c c w)"
    using rq end_rq open_on ends len bad
    by (simp add: demo_bad_def m_def [symmetric] new_usession_def session_received_def readRequest_turn_def
        end_of_stream_def responder_starts_def prepare_bad bad_answer_sent is_over_def del: responder_sent.simps)
  ultimately show thesis using that by fastforce
qed

theorem answers_in_turn_witness:
  "\<exists>s. usession_run demo_os (\<lambda>f. []) ''/'' demo_bad (new_usession \<lparr>fd = 3, closed = False\<rparr> (new_lruCache 2 new_fileCache) []) = Some s \<and>
     on_wire s = badRequestResponse @ badRequestResponse \<and>
     fst (answer_all demo_os (\<lambda>f. []) ''/'' (fst (clientHandle (receipts demo_bad) \<lparr>fd = 3, closed = False\<rparr>))
       (new_lruCache 2 new_fileCache) []) = on_wire s"
proof -
  obtain s rq1 rq2 where s:
    "usession_run demo_os (\<lambda>f. []) ''/'' demo_bad (new_usession \<lparr>fd = 3, closed = False\<rparr> (new_lruCache 2 new_fileCache) []) = Some s"
    "in_turn demo_os (\<lambda>f. []) ''/'' demo_bad (new_usession \<lparr>fd = 3, closed = False\<rparr> (new_lruCache 2 new_fileCache) [])"
    "us_responders s = [(rq1, Over Sent), (rq2, Over Sent)]"
    "us_wire s = [(0, badRequestResponse), (1, badRequestResponse)]" by (rule demo_bad_run)
  from answers_in_turn [OF s(2) refl] show ?thesis using s by (auto simp: on_wire_def is_over_def)
qed

lemma demo_get_again:
  assumes "fileCache_get demo_os ''/a.txt'' (new_lruCache 2 new_fileCache) [] = (Returns (Some f), c', [0])"
  shows "\<exists>c2. fileCache_get demo_os ''/a.txt'' c' [0] = (Returns (Some f), c2, [0])"
proof -
  let ?c = "new_lruCache 2 new_fileCache :: file_cache"
  have inv: "lru_inv fc_key ?c" by (rule lru_inv_new) simp
  note one = fcb.get_refines [OF inv assms [unfolded fileCache_get_def]]
  have "fc_path f = ''/a.txt''" using demo_get assms by (auto simp: fc_path_def)
  moreover have "cached c' = [f]"
    using one by (auto simp: spec_get_def demo_build cached_def new_lruCache_def)
  ultimately have c: "cached c' = [f]" "fc_path f = ''/a.txt''" by simp_all
  obtain r c2 w2 where g: "fileCache_get demo_os ''/a.txt'' c' [0] = (r, c2, w2)" by (metis prod.exhaust)
  then show ?thesis
    using fcb.get_refines [of c' demo_os "''/a.txt''" "[0]" r c2 w2] one c by (auto simp: fileCache_get_def spec_get_def fc_key_def)
qed

theorem pipelined_answers_mix_witness:
  "\<exists>es t rq. usession_run demo_os (\<lambda>f. ''0123456789'') ''/''
       (map Received [Inr rq, Inr rq] @ es) (new_usession \<lparr>fd = 3, closed = False\<rparr> (new_lruCache 2 new_fileCache) []) = Some t \<and>
     on_wire t = served_header ''text/plain'' ''10'' @ (served_header ''text/plain'' ''10'' @ ''0123456789'') @ ''0123456789''"
proof -
  let ?f = "\<lparr>mLoc = Some (4096, 10), mFile = \<lparr>rf_fd = 0, rf_size = 10\<rparr>, mPath = ''/a.txt''\<rparr> :: fileCache"
  let ?hs = "[(''Accept'', ''*/*'')]"
  let ?rq = "parsed_request new_httpRequest GET ''/a.txt'' ?hs"
  define m where "m = render_request GET ''/a.txt'' ?hs []"
  let ?c = "\<lparr>fd = 3, closed = False\<rparr>"
  have v: "valid_target ''/a.txt''" "list_all valid_header ?hs"
    "dotdot \<notin> set (path_iter ''/a.txt'')" "has_extension (with_index ''/a.txt'')" "has_extension (target ''/a.txt'')"
    by code_simp+
  have q: "session_request (Inr m) = Returns (Some ?rq)"
    unfolding m_def by (rule session_request_parsed [OF v(1,2)])
  have m: "sv_ends_with m crlf2" "length m \<le> 4096" "m \<noteq> []" "\<not> closeSession ?rq" unfolding m_def by code_simp+
  obtain r where r: "httpResponse_ctor ?rq ''/'' = Inr r" "status r = OK"
    and rq: "version ?rq = ''HTTP/1.1''" "uri ?rq = ''/a.txt''"
    and uri: "resp_uri r = path_append ''/'' (relative_path (target ''/a.txt''))" "req_method r = GET"
    by (rule parsed_get_served [OF v(3-5), of ?hs]) simp
  have p: "path_append ''/'' (relative_path (target ''/a.txt'')) = ''/a.txt''" by code_simp
  obtain c1 where g1: "fileCache_get demo_os ''/a.txt'' (new_lruCache 2 new_fileCache) [] = (Returns (Some ?f), c1, [0])"
    using demo_get by auto
  obtain c2 where g2: "fileCache_get demo_os ''/a.txt'' c1 [0] = (Returns (Some ?f), c2, [0])"
    using demo_get_again [OF g1] by blast
  have mime: "served_header (MIMEfulltype (tl (extension (target ''/a.txt'')))) (show_nat 10) = served_header ''text/plain'' ''10''"
    by code_simp
  let ?r = "r\<lparr>headers := map_assign ''Content-Length'' (show_nat 10) (headers r)\<rparr>"
  have s: "serialize ?r = served_header ''text/plain'' ''10''"
    using ctor_served_bytes [OF r rq(1), of "show_nat 10"] rq(2) mime by simp
  have pr: "prepare_response demo_os ''/'' ?rq (new_lruCache 2 new_fileCache) [] = (Returns (?r, Some ?f), c1, [0])"
    "prepare_response demo_os ''/'' ?rq c1 [0] = (Returns (?r, Some ?f), c2, [0])"
    using r uri(1) g1 g2 p by (simp_all add: prepare_response_def fc_size_def)
  let ?s = "\<lparr>us_client = ?c, us_reader = Reading [], us_responders = [(?rq, NotStarted), (?rq, NotStarted)],
    us_cache = new_lruCache 2 new_fileCache, us_world = [], us_wire = []\<rparr>"
  have "usession_run demo_os (\<lambda>f. ''0123456789'') ''/'' (map Received [Inr m, Inr m])
      (new_usession ?c (new_lruCache 2 new_fileCache) []) = Some ?s"
    using q m by (simp add: new_usession_def session_received_def readRequest_turn_def)
  from pipelined_answers_mix [OF this _ _ pr(2), of ?rq ?r ?f] pr(1) r(2) uri(2) s show ?thesis by fastforce
qed

end
