(* ===== verification/UringSystem.thy ===== *)
theory UringSystem
  imports UringSockets
begin

text \<open>
  Coroutines that share a ring (\<^verbatim>\<open>include/async/Uring.hpp\<close>, \<^verbatim>\<open>include/uring/Socket.hpp\<close>):
  any number of coroutines, each of which awaits one request after the other, the
  pool that runs them, \<^verbatim>\<open>reapIOs\<close> and the kernel, as one step relation.

  A coroutine is a program: what it does when it is taken from the pool, which request it awaits next, and
  where it goes on with the result, possibly after a \<^verbatim>\<open>co_await scheduler\<close> and after handing new coroutines to
  the pool.  The programs share the state of type \<open>'g\<close>.  Coroutine \<open>j\<close> has the
  handle \<open>j\<close>, and the \<^verbatim>\<open>callerData\<close> of its awaiter the address \<open>j\<close>: a coroutine awaits one request at
  a time; the frame of a coroutine that has ended is not used again.
  \<^verbatim>\<open>reapIOs\<close> may make a turn at any time; its own place in the pool, and the clean-up of the pool, are left out.
\<close>

subsection \<open>The completion queue\<close>

text \<open>
  \<open>compl u\<close> are the completions that can be reaped.  \<^verbatim>\<open>io_uring_peek_cqe\<close> gives the first one or
  \<^verbatim>\<open>-EAGAIN\<close>, \<^verbatim>\<open>io_uring_cqe_seen\<close> removes it; nothing else the code calls changes them.
\<close>

definition completion_laws :: "'u uring_ops \<Rightarrow> ('u \<Rightarrow> cqe list) \<Rightarrow> bool" where
  "completion_laws U compl \<longleftrightarrow>
     (\<forall>u. case peek_cqe U u of (rv, c, u') \<Rightarrow> compl u' = compl u \<and>
        (case compl u of [] \<Rightarrow> c = None \<and> (rv = - EAGAIN \<or> 0 \<le> rv) | x # xs \<Rightarrow> c = Some x \<and> 0 \<le> rv))
     \<and> (\<forall>u x xs. compl u = x # xs \<longrightarrow> compl (cqe_seen U x u) = xs)
     \<and> (\<forall>u. compl (snd (get_sqe U u)) = compl u)
     \<and> (\<forall>u s d. compl (sqe_set_data U s d u) = compl u)
     \<and> (\<forall>u s r. compl (sqe_prep U s r u) = compl u)
     \<and> (\<forall>u. compl (submit U u) = compl u)"

subsection \<open>State and steps\<close>

text \<open>A reply is the result of an await and the content of the buffer of the coroutine.\<close>

type_synonym reply = "(error_code + int) \<times> string"

text \<open>The awaiters: descriptor, address, length and flags; listening descriptor and handler.\<close>

datatype io_await = AwaitSend int nat "64 word" int | AwaitRecv int nat "64 word" int | AwaitAccept int nat

text \<open>
  \<open>goes_on\<close>: the Boolean says that the coroutine gives way to others first; the list are the new coroutines.
  \<open>None\<close> stands for an exception that ends the program and for undefined behaviour.
\<close>

record ('p, 'g) program =
  begins :: "'p \<Rightarrow> 'g \<Rightarrow> ('p \<times> 'g) option"
  asks :: "'p \<Rightarrow> 'g \<Rightarrow> io_await option"
  goes_on :: "'p \<Rightarrow> reply \<Rightarrow> 'g \<Rightarrow> ('p \<times> bool \<times> 'p list \<times> 'g) option"
  handles :: "nat \<Rightarrow> int \<Rightarrow> 'p"

datatype 'p iostate =
    Queued 'p     \<comment> \<open>in the pool\<close>
  | Acts 'p       \<comment> \<open>on a worker\<close>
  | Waits 'p      \<comment> \<open>suspended in an await\<close>
  | Finished 'p

primrec prog_of :: "'p iostate \<Rightarrow> 'p" where
  "prog_of (Queued p) = p"
| "prog_of (Acts p) = p"
| "prog_of (Waits p) = p"
| "prog_of (Finished p) = p"

record ('u, 'p, 'g) iosys =
  io_inst :: "'u uringInstance"
  io_coros :: "'p iostate list"
  io_world :: 'g
  io_bufs :: "nat \<Rightarrow> string"                \<comment> \<open>the buffers\<close>
  io_flight :: "nat multiset"               \<comment> \<open>the requests the kernel works on, by their data\<close>
  io_seen :: "(nat \<times> reply) list"            \<comment> \<open>the results the awaits had\<close>
  io_given :: "(nat \<times> reply) list"           \<comment> \<open>the results there were\<close>
  io_accepted :: "int list"                 \<comment> \<open>the descriptors the kernel accepted\<close>

text \<open>\<^verbatim>\<open>await_suspend\<close> of the awaiter.\<close>

fun suspend_await :: "'u uring_ops \<Rightarrow> io_await \<Rightarrow> nat \<Rightarrow> 'u uringInstance \<Rightarrow> bool \<times> 'u uringInstance" where
  "suspend_await U (AwaitSend n buf len flags) j st = await_send U (sendAwaiter_ctor n buf len flags j) j st"
| "suspend_await U (AwaitRecv n buf len flags) j st = await_recv U (recvAwaiter_ctor n buf len flags j) j st"
| "suspend_await U (AwaitAccept n f) j st = multishotAcceptAwaiter_suspend U n f j j st"

text \<open>The coroutine \<open>j\<close> goes on with the reply \<open>r\<close>.\<close>

definition io_settle ::
  "('p, 'g) program \<Rightarrow> nat \<Rightarrow> 'p \<Rightarrow> reply \<Rightarrow> ('u, 'p, 'g) iosys \<Rightarrow> ('u, 'p, 'g) iosys option" where
  "io_settle P j p r s =
     (case goes_on P p r (io_world s) of
        None \<Rightarrow> None
      | Some (q, yields, new, g) \<Rightarrow>
          (let n = length (io_coros s)
           in case addTasks ([n..<n + length new] @ (if yields then [j] else [])) (uring_pool (io_inst s)) of
                Returns tp \<Rightarrow>
                  Some (s\<lparr>io_seen := io_seen s @ [(j, r)], io_world := g,
                          io_coros := (io_coros s)[j := if yields then Queued q else Acts q] @ map Queued new,
                          io_inst := (io_inst s)\<lparr>uring_pool := tp, next_coro := n + length new\<rparr>\<rparr>)
              | _ \<Rightarrow> None))"

text \<open>The coroutines that the handlers made in a turn of \<^verbatim>\<open>reapIOs\<close>.\<close>

definition made :: "('p, 'g) program \<Rightarrow> 'u uringInstance \<Rightarrow> 'u uringInstance \<Rightarrow> 'p iostate list" where
  "made P st st' = map (\<lambda>(_, f, n). Queued (handles P f n)) (drop (length (handler_calls st)) (handler_calls st'))"

text \<open>
  \<open>s_kernel\<close>: the kernel completes a request; the buffer has at least the bytes that were received then.  A multishot request goes on
  until it has a completion without \<^verbatim>\<open>IORING_CQE_F_MORE\<close>.
\<close>

inductive io_step ::
  "'u uring_ops \<Rightarrow> ('u \<Rightarrow> cqe list) \<Rightarrow> ('p, 'g) program \<Rightarrow> ('u, 'p, 'g) iosys \<Rightarrow> ('u, 'p, 'g) iosys \<Rightarrow> bool"
  for U compl P where
  s_take:
    "\<lbrakk>i < length (queueList (uring_pool (io_inst s))); popTask i (uring_pool (io_inst s)) = Some (j, tp);
      j < length (io_coros s); io_coros s ! j = Queued p; begins P p (io_world s) = Some (q, g)\<rbrakk> \<Longrightarrow>
     io_step U compl P s
       (s\<lparr>io_inst := (io_inst s)\<lparr>uring_pool := tp\<rparr>, io_world := g, io_coros := (io_coros s)[j := Acts q]\<rparr>)"
| s_resume:
    "\<lbrakk>i < length (queueList (uring_pool (io_inst s))); popTask i (uring_pool (io_inst s)) = Some (j, tp);
      j < length (io_coros s); io_coros s ! j = Waits p;
      io_settle P j p (await_resume j (io_inst s), io_bufs s j)
        (s\<lparr>io_inst := (io_inst s)\<lparr>uring_pool := tp\<rparr>\<rparr>) = Some s'\<rbrakk> \<Longrightarrow>
     io_step U compl P s s'"
| s_asks:
    "\<lbrakk>j < length (io_coros s); io_coros s ! j = Acts p; asks P p (io_world s) = Some a;
      suspend_await U a j (io_inst s) = (True, st)\<rbrakk> \<Longrightarrow>
     io_step U compl P s
       (s\<lparr>io_inst := st, io_coros := (io_coros s)[j := Waits p], io_flight := add_mset j (io_flight s)\<rparr>)"
| s_busy:
    "\<lbrakk>j < length (io_coros s); io_coros s ! j = Acts p; asks P p (io_world s) = Some a;
      suspend_await U a j (io_inst s) = (False, st); r = (await_resume j st, io_bufs s j);
      io_settle P j p r (s\<lparr>io_inst := st, io_given := io_given s @ [(j, r)]\<rparr>) = Some s'\<rbrakk> \<Longrightarrow>
     io_step U compl P s s'"
| s_ends:
    "\<lbrakk>j < length (io_coros s); io_coros s ! j = Acts p; asks P p (io_world s) = None\<rbrakk> \<Longrightarrow>
     io_step U compl P s (s\<lparr>io_coros := (io_coros s)[j := Finished p]\<rparr>)"
| s_reap:
    "reap_turn U (io_inst s) = Returns (y, st) \<Longrightarrow>
     io_step U compl P s (s\<lparr>io_inst := st, io_coros := io_coros s @ made P (io_inst s) st\<rparr>)"
| s_kernel:
    "\<lbrakk>user_data c \<in># io_flight s; compl u = compl (uring (io_inst s)) @ [c]; hp = heap (io_inst s);
      multishot (hp (user_data c)) \<or> res c \<le> int (length b)\<rbrakk> \<Longrightarrow>
     io_step U compl P s
       (s\<lparr>io_inst := (io_inst s)\<lparr>uring := u\<rparr>, io_bufs := (io_bufs s)(user_data c := b),
          io_flight := (if terminal hp c then io_flight s - {#user_data c#} else io_flight s),
          io_given := io_given s @ (if terminal hp c then [(user_data c, cqe_result c, b)] else []),
          io_accepted := io_accepted s @ (if accepted hp c then [res c] else [])\<rparr>)"

text \<open>The start: some coroutines were handed to the pool, the ring is empty.\<close>

definition io_starts :: "('u \<Rightarrow> cqe list) \<Rightarrow> 'p list \<Rightarrow> ('u, 'p, 'g) iosys \<Rightarrow> bool" where
  "io_starts compl ps s \<longleftrightarrow>
     io_coros s = map Queued ps \<and> io_flight s = {#} \<and> io_seen s = [] \<and> io_given s = [] \<and> io_accepted s = []
     \<and> compl (uring (io_inst s)) = [] \<and> next_coro (io_inst s) = length ps \<and> handler_calls (io_inst s) = []
     \<and> (\<exists>p0. pool_inv p0 \<and> waiting p0 = {#} \<and> addTasks [0..<length ps] p0 = Returns (uring_pool (io_inst s)))"

definition results_for :: "nat \<Rightarrow> (nat \<times> reply) list \<Rightarrow> reply list" where
  "results_for j xs = map snd (filter (\<lambda>(i, _). i = j) xs)"

lemma results_for_append [simp]: "results_for j (xs @ ys) = results_for j xs @ results_for j ys"
  by (simp add: results_for_def)

lemma results_for_one [simp]: "results_for j [] = []" "results_for j [(i, r)] = (if i = j then [r] else [])"
  by (simp_all add: results_for_def)

subsection \<open>Where an await stands\<close>

definition in_ring :: "('u \<Rightarrow> cqe list) \<Rightarrow> nat \<Rightarrow> ('u, 'p, 'g) iosys \<Rightarrow> cqe list" where
  "in_ring compl j s = filter (\<lambda>c. user_data c = j) (compl (uring (io_inst s)))"

definition in_pool :: "nat \<Rightarrow> ('u, 'p, 'g) iosys \<Rightarrow> nat" where
  "in_pool j s = count (waiting (uring_pool (io_inst s))) j"

definition idle :: "('u \<Rightarrow> cqe list) \<Rightarrow> nat \<Rightarrow> ('u, 'p, 'g) iosys \<Rightarrow> bool" where
  "idle compl j s \<longleftrightarrow> count (io_flight s) j = 0 \<and> in_ring compl j s = [] \<and> in_pool j s = 0"

definition at_kernel :: "('u \<Rightarrow> cqe list) \<Rightarrow> nat \<Rightarrow> ('u, 'p, 'g) iosys \<Rightarrow> bool" where
  "at_kernel compl j s \<longleftrightarrow>
     count (io_flight s) j = 1 \<and> in_pool j s = 0 \<and> (\<forall>c \<in> set (in_ring compl j s). \<not> terminal (heap (io_inst s)) c)"

definition completed :: "('u \<Rightarrow> cqe list) \<Rightarrow> nat \<Rightarrow> ('u, 'p, 'g) iosys \<Rightarrow> bool" where
  "completed compl j s \<longleftrightarrow>
     count (io_flight s) j = 0 \<and> in_pool j s = 0 \<and> in_ring compl j s \<noteq> []
     \<and> terminal (heap (io_inst s)) (last (in_ring compl j s))
     \<and> (\<forall>c \<in> set (butlast (in_ring compl j s)). \<not> terminal (heap (io_inst s)) c)"

definition woken_up :: "('u \<Rightarrow> cqe list) \<Rightarrow> nat \<Rightarrow> ('u, 'p, 'g) iosys \<Rightarrow> bool" where
  "woken_up compl j s \<longleftrightarrow> count (io_flight s) j = 0 \<and> in_ring compl j s = [] \<and> in_pool j s = 1"

definition coro_ok :: "('u \<Rightarrow> cqe list) \<Rightarrow> ('u, 'p, 'g) iosys \<Rightarrow> nat \<Rightarrow> bool" where
  "coro_ok compl s j \<longleftrightarrow>
     (case io_coros s ! j of
        Queued p \<Rightarrow> woken_up compl j s
      | Waits p \<Rightarrow> (at_kernel compl j s \<or> completed compl j s \<or> woken_up compl j s) \<and> handle (heap (io_inst s) j) = j
      | _ \<Rightarrow> idle compl j s)"

text \<open>The result that is there and was not yet seen.\<close>

definition unseen :: "('u \<Rightarrow> cqe list) \<Rightarrow> nat \<Rightarrow> ('u, 'p, 'g) iosys \<Rightarrow> reply list" where
  "unseen compl j s =
     (case io_coros s ! j of
        Waits p \<Rightarrow> map (\<lambda>c. (cqe_result c, io_bufs s j)) (filter (terminal (heap (io_inst s))) (in_ring compl j s)) @
          replicate (in_pool j s) (await_resume j (io_inst s), io_bufs s j)
      | _ \<Rightarrow> [])"

definition io_inv :: "('u \<Rightarrow> cqe list) \<Rightarrow> ('u, 'p, 'g) iosys \<Rightarrow> bool" where
  "io_inv compl s \<longleftrightarrow>
     pool_inv (uring_pool (io_inst s)) \<and> next_coro (io_inst s) = length (io_coros s)
     \<and> (\<forall>j < length (io_coros s). coro_ok compl s j \<and>
          results_for j (io_given s) = results_for j (io_seen s) @ unseen compl j s)
     \<and> (\<forall>j. length (io_coros s) \<le> j \<longrightarrow>
          idle compl j s \<and> results_for j (io_given s) = [] \<and> results_for j (io_seen s) = [])"

lemma io_invD:
  assumes "io_inv compl s"
  shows "pool_inv (uring_pool (io_inst s))" and "next_coro (io_inst s) = length (io_coros s)"
    and "j < length (io_coros s) \<Longrightarrow> coro_ok compl s j"
    and "j < length (io_coros s) \<Longrightarrow> results_for j (io_given s) = results_for j (io_seen s) @ unseen compl j s"
    and "length (io_coros s) \<le> j \<Longrightarrow> idle compl j s"
    and "length (io_coros s) \<le> j \<Longrightarrow> results_for j (io_given s) = [] \<and> results_for j (io_seen s) = []"
  using assms unfolding io_inv_def by blast+

text \<open>Two states that do not differ in what concerns coroutine \<open>i\<close>.\<close>

definition same_for :: "('u \<Rightarrow> cqe list) \<Rightarrow> nat \<Rightarrow> ('u, 'p, 'g) iosys \<Rightarrow> ('u, 'p, 'g) iosys \<Rightarrow> bool" where
  "same_for compl i s t \<longleftrightarrow>
     count (io_flight t) i = count (io_flight s) i \<and> in_ring compl i t = in_ring compl i s \<and> in_pool i t = in_pool i s
     \<and> heap (io_inst t) i = heap (io_inst s) i \<and> io_bufs t i = io_bufs s i
     \<and> results_for i (io_given t) = results_for i (io_given s) \<and> results_for i (io_seen t) = results_for i (io_seen s)"

lemma terminal_in_ring: "c \<in> set (in_ring compl i s) \<Longrightarrow> hp i = hp' i \<Longrightarrow> terminal hp c = terminal hp' c"
  by (auto simp: in_ring_def terminal_def)

lemma same_for_ok:
  assumes "same_for compl i s t" and "io_coros t ! i = io_coros s ! i"
  shows "coro_ok compl t i = coro_ok compl s i" and "unseen compl i t = unseen compl i s"
proof -
  note e = assms(1) [unfolded same_for_def]
  have h: "heap (io_inst t) i = heap (io_inst s) i" using e by simp
  have r: "in_ring compl i t = in_ring compl i s" using e by simp
  have T: "terminal (heap (io_inst t)) c = terminal (heap (io_inst s)) c" if "c \<in> set (in_ring compl i s)" for c
    using terminal_in_ring [of c compl i s "heap (io_inst t)" "heap (io_inst s)"] that h by simp
  have l: "in_ring compl i s \<noteq> [] \<Longrightarrow> last (in_ring compl i s) \<in> set (in_ring compl i s)" by simp
  have "at_kernel compl i t = at_kernel compl i s" using e T by (simp add: at_kernel_def r)
  moreover have "completed compl i t = completed compl i s"
    using e T T [OF l] by (auto simp: completed_def r dest: in_set_butlastD)
  moreover have "woken_up compl i t = woken_up compl i s" "idle compl i t = idle compl i s"
    using e by (simp_all add: woken_up_def idle_def)
  ultimately show "coro_ok compl t i = coro_ok compl s i" 
    by (simp add: coro_ok_def assms(2) h split: iostate.split)
  have "filter (terminal (heap (io_inst t))) (in_ring compl i t) = filter (terminal (heap (io_inst s))) (in_ring compl i s)"
    unfolding r using T by (rule filter_cong [OF refl])
  then show "unseen compl i t = unseen compl i s" using e
    by (simp add: unseen_def assms(2) await_resume_def split: iostate.split)
qed

lemma same_for_idle: "same_for compl i s t \<Longrightarrow> idle compl i t = idle compl i s"
  by (simp add: same_for_def idle_def)

text \<open>A step that concerns coroutine \<open>j\<close> only, besides new ones at the end of the list.\<close>

lemma io_inv_one:
  assumes "io_inv compl s" and "pool_inv (uring_pool (io_inst t))" and "j < length (io_coros s)"
    and "io_coros t = (io_coros s)[j := c] @ new" and "next_coro (io_inst t) = length (io_coros s) + length new"
    and "\<And>i. i \<noteq> j \<Longrightarrow> i < length (io_coros s) \<Longrightarrow> same_for compl i s t"
    and "coro_ok compl t j" and "results_for j (io_given t) = results_for j (io_seen t) @ unseen compl j t"
    and "\<And>k. k < length new \<Longrightarrow> coro_ok compl t (length (io_coros s) + k) \<and> unseen compl (length (io_coros s) + k) t = []"
    and "\<And>i. length (io_coros s) + length new \<le> i \<Longrightarrow> idle compl i t"
    and "\<And>i. length (io_coros s) \<le> i \<Longrightarrow> results_for i (io_given t) = [] \<and> results_for i (io_seen t) = []"
  shows "io_inv compl t"
proof -
  note inv = io_invD [OF assms(1)]
  let ?n = "length (io_coros s)"
  have one: "coro_ok compl t i \<and> results_for i (io_given t) = results_for i (io_seen t) @ unseen compl i t"
    if i: "i < length (io_coros t)" for i
  proof -
    consider (own) "i = j" | (old) "i \<noteq> j" "i < ?n" | (fresh) k where "i = ?n + k" "k < length new"
      using i assms(4) by (metis le_add_diff_inverse length_append length_list_update nat_add_left_cancel_less not_le)
    then show ?thesis
    proof cases
      case own
      with assms(7,8) show ?thesis by simp
    next
      case old
      then have "io_coros t ! i = io_coros s ! i" using assms(3,4) by (simp add: nth_append)
      from same_for_ok [OF assms(6) [OF old] this] show ?thesis
        using inv(3,4) [OF old(2)] assms(6) [OF old] by (simp add: same_for_def)
    next
      case (fresh k)
      then show ?thesis using assms(9) [OF fresh(2)] assms(11) [of i] by simp
    qed
  qed
  have "idle compl i t \<and> results_for i (io_given t) = [] \<and> results_for i (io_seen t) = []"
    if "length (io_coros t) \<le> i" for i
    using that assms(4) assms(10,11) [of i] by simp
  with one show ?thesis using assms(2,4,5) by (simp add: io_inv_def)
qed

subsection \<open>What the calls do\<close>

lemma completion_lawsD:
  assumes "completion_laws U compl"
  shows "peek_cqe U u = (rv, c, u') \<Longrightarrow> compl u' = compl u"
    and "peek_cqe U u = (rv, c, u') \<Longrightarrow> compl u = [] \<Longrightarrow> c = None \<and> (rv = - EAGAIN \<or> 0 \<le> rv)"
    and "peek_cqe U u = (rv, c, u') \<Longrightarrow> compl u = x # xs \<Longrightarrow> c = Some x \<and> 0 \<le> rv"
    and "compl u = x # xs \<Longrightarrow> compl (cqe_seen U x u) = xs"
    and "get_sqe U u = (q, u') \<Longrightarrow> compl u' = compl u"
    and "compl (sqe_set_data U i d u) = compl u" and "compl (sqe_prep U i r u) = compl u"
    and "compl (submit U u) = compl u"
proof -
  have l: "case peek_cqe U u of (rv, c, u') \<Rightarrow> compl u' = compl u \<and>
      (case compl u of [] \<Rightarrow> c = None \<and> (rv = - EAGAIN \<or> 0 \<le> rv) | x # xs \<Rightarrow> c = Some x \<and> 0 \<le> rv)"
    using assms by (simp add: completion_laws_def)
  show "peek_cqe U u = (rv, c, u') \<Longrightarrow> compl u' = compl u" using l by simp
  show "peek_cqe U u = (rv, c, u') \<Longrightarrow> compl u = [] \<Longrightarrow> c = None \<and> (rv = - EAGAIN \<or> 0 \<le> rv)" using l by simp
  show "peek_cqe U u = (rv, c, u') \<Longrightarrow> compl u = x # xs \<Longrightarrow> c = Some x \<and> 0 \<le> rv" using l by simp
  show "get_sqe U u = (q, u') \<Longrightarrow> compl u' = compl u"
    using assms by (simp add: completion_laws_def) (metis snd_conv)
qed (use assms in \<open>simp_all add: completion_laws_def\<close>)

lemma prep_request_ring:
  assumes "completion_laws U compl" and "prep_request U r d st = (x, st')"
  shows "\<exists>u. st' = st\<lparr>uring := u\<rparr> \<and> compl u = compl (uring st) \<and> (\<forall>e. x = Inl e \<longrightarrow> e = uring_error SqeBusy)"
  using assms(2) completion_lawsD(5-8) [OF assms(1)]
  by (auto simp: prep_request_def Let_def split: prod.splits option.splits)

text \<open>An await up to the suspension.\<close>

lemma suspend_await_result:
  assumes "completion_laws U compl" and "suspend_await U a j st = (b, st')"
  shows "compl (uring st') = compl (uring st)" and "uring_pool st' = uring_pool st"
    and "next_coro st' = next_coro st" and "handler_calls st' = handler_calls st"
    and "i \<noteq> j \<Longrightarrow> heap st' i = heap st i" and "handle (heap st' j) = j"
    and "\<not> b \<Longrightarrow> await_resume j st' = Inl (uring_error SqeBusy)"
proof -
  obtain rq s where s: "suspend_result j (prep_request U rq j s) = (b, st')"
    "uring s = uring st" "uring_pool s = uring_pool st" "next_coro s = next_coro st" "handler_calls s = handler_calls st"
    "handle (heap s j) = j" "\<forall>i. i \<noteq> j \<longrightarrow> heap s i = heap st i"
  proof (cases a)
    case (AwaitSend n buf len flags)
    then show ?thesis using that [of "Send n buf len flags" "st\<lparr>heap := (heap st)(j := (heap st j)\<lparr>handle := j, multishot := False\<rparr>)\<rparr>"] assms(2)
      by (simp add: await_send_def ioAwaiter_ready_def sendAwaiter_ctor_def sendAwaiter_suspend_def prep_send_def Let_def)
  next
    case (AwaitRecv n buf len flags)
    then show ?thesis using that [of "Recv n buf len flags" "st\<lparr>heap := (heap st)(j := (heap st j)\<lparr>handle := j, multishot := False\<rparr>)\<rparr>"] assms(2)
      by (simp add: await_recv_def ioAwaiter_ready_def recvAwaiter_ctor_def recvAwaiter_suspend_def prep_recv_def Let_def)
  next
    case (AwaitAccept n f)
    then show ?thesis using that [of "MultishotAccept n 0" "st\<lparr>heap := (heap st)(j := (heap st j)\<lparr>handle := j, multishot := True, multishotHandler := f\<rparr>)\<rparr>"] assms(2)
      by (simp add: multishotAcceptAwaiter_suspend_def prep_multishot_accept_and_process_def Let_def)
  qed
  obtain x t where p: "prep_request U rq j s = (x, t)" by fastforce
  obtain u where t: "t = s\<lparr>uring := u\<rparr>" "compl u = compl (uring s)" "\<forall>e. x = Inl e \<longrightarrow> e = uring_error SqeBusy"
    using prep_request_ring [OF assms(1) p] by blast
  consider (taken) "b" "st' = t" | (busy) "\<not> b" "st' = set_returnVal j (Inl (uring_error SqeBusy)) t"
    using s(1) p t(3) by (cases x) (auto simp: suspend_result_def)
  then show "compl (uring st') = compl (uring st)" and "uring_pool st' = uring_pool st"
    and "next_coro st' = next_coro st" and "handler_calls st' = handler_calls st"
    and "i \<noteq> j \<Longrightarrow> heap st' i = heap st i" and "handle (heap st' j) = j"
    and "\<not> b \<Longrightarrow> await_resume j st' = Inl (uring_error SqeBusy)"
    using s(2-) t(2) by (cases; simp add: t(1) set_returnVal_def await_resume_def)+
qed

text \<open>A turn of \<^verbatim>\<open>reapIOs\<close>.\<close>

lemma reap_turn_empty:
  assumes "completion_laws U compl" and "compl (uring st) = []" and "reap_turn U st = Returns (y, st')"
  shows "\<exists>u. st' = st\<lparr>uring := u\<rparr> \<and> compl u = []"
proof -
  obtain rv c u where p: "peek_cqe U (uring st) = (rv, c, u)" by (metis prod.exhaust)
  then show ?thesis using completion_lawsD(1,2) [OF assms(1) p] assms(2,3)
    by (auto simp: reap_turn_def Let_def split: if_splits)
qed

lemma reap_turn_first:
  assumes "completion_laws U compl" and "compl (uring st) = c # cs" and "pool_inv (uring_pool st)"
    and "reap_turn U st = Returns (y, st')"
  shows "\<exists>tp u. st' = (set_returnVal (user_data c) (cqe_result c) st)\<lparr>uring_pool := tp, uring := u,
        next_coro := next_coro st + (if accepted (heap st) c then 1 else 0),
        handler_calls := handler_calls st @
          (if accepted (heap st) c then [(next_coro st, multishotHandler (heap st (user_data c)), res c)] else [])\<rparr>
    \<and> compl u = cs \<and> pool_inv tp
    \<and> waiting tp = waiting (uring_pool st) + (if accepted (heap st) c then {#next_coro st#} else {#})
        + (if terminal (heap st) c then {#handle (heap st (user_data c))#} else {#})"
proof -
  obtain rv d u where p: "peek_cqe U (uring st) = (rv, d, u)" by (metis prod.exhaust)
  note l = completion_lawsD(1,3) [OF assms(1) p]
  then have d: "d = Some c" "0 \<le> rv" "compl u = c # cs" using assms(2) by simp_all
  let ?s = "st\<lparr>uring := u\<rparr>"
  have s: "pool_inv (uring_pool ?s)" using assms(3) by simp
  from process_cqe_result [OF s, of c] obtain tp where tp:
    "process_cqe c ?s = Returns ((set_returnVal (user_data c) (cqe_result c) ?s)\<lparr>uring_pool := tp,
       next_coro := next_coro st + (if accepted (heap st) c then 1 else 0),
       handler_calls := handler_calls st @
         (if accepted (heap st) c then [(next_coro st, multishotHandler (heap st (user_data c)), res c)] else [])\<rparr>)"
    "pool_inv tp" "waiting tp = waiting (uring_pool st) + (if accepted (heap st) c then {#next_coro st#} else {#})
        + (if terminal (heap st) c then {#handle (heap st (user_data c))#} else {#})"
    by (auto cong: if_cong)
  let ?t = "(set_returnVal (user_data c) (cqe_result c) ?s)\<lparr>uring_pool := tp,
       next_coro := next_coro st + (if accepted (heap st) c then 1 else 0),
       handler_calls := handler_calls st @
         (if accepted (heap st) c then [(next_coro st, multishotHandler (heap st (user_data c)), res c)] else [])\<rparr>"
  have "st' = ?t\<lparr>uring := cqe_seen U c (uring ?t)\<rparr>"
    using assms(4) unfolding reap_turn_def p d(1) prod.case Let_def option.case tp(1) outcome_bind.simps using d(2) by simp
  then have "st' = (set_returnVal (user_data c) (cqe_result c) st)\<lparr>uring_pool := tp, uring := cqe_seen U c u,
        next_coro := next_coro st + (if accepted (heap st) c then 1 else 0),
        handler_calls := handler_calls st @
          (if accepted (heap st) c then [(next_coro st, multishotHandler (heap st (user_data c)), res c)] else [])\<rparr>"
    by (cases st) (simp add: set_returnVal_def)
  then show ?thesis using tp(2,3) completion_lawsD(4) [OF assms(1) d(3)] by blast
qed

text \<open>Going on with a result.\<close>

lemma count_upt: "count (mset [a..<b]) i = (if a \<le> i \<and> i < b then 1 else 0)"
  by (simp add: count_mset_set)

lemma io_settle_result:
  assumes "io_settle P j p r s = Some t" and "pool_inv (uring_pool (io_inst s))"
  shows "\<exists>q yields new g tp. goes_on P p r (io_world s) = Some (q, yields, new, g) \<and>
    t = s\<lparr>io_seen := io_seen s @ [(j, r)], io_world := g,
          io_coros := (io_coros s)[j := if yields then Queued q else Acts q] @ map Queued new,
          io_inst := (io_inst s)\<lparr>uring_pool := tp, next_coro := length (io_coros s) + length new\<rparr>\<rparr> \<and>
    pool_inv tp \<and> waiting tp = waiting (uring_pool (io_inst s)) +
      mset ([length (io_coros s)..<length (io_coros s) + length new] @ (if yields then [j] else []))"
proof -
  from assms(1) obtain q yields new g where g: "goes_on P p r (io_world s) = Some (q, yields, new, g)"
    by (auto simp: io_settle_def split: option.splits)
  let ?hs = "[length (io_coros s)..<length (io_coros s) + length new] @ (if yields then [j] else [])"
  obtain tp where tp: "addTasks ?hs (uring_pool (io_inst s)) = Returns tp" "pool_inv tp"
    "waiting tp = waiting (uring_pool (io_inst s)) + mset ?hs"
    using addTasks_result [OF assms(2)] by blast
  have "t = s\<lparr>io_seen := io_seen s @ [(j, r)], io_world := g,
          io_coros := (io_coros s)[j := if yields then Queued q else Acts q] @ map Queued new,
          io_inst := (io_inst s)\<lparr>uring_pool := tp, next_coro := length (io_coros s) + length new\<rparr>\<rparr>"
    using assms(1) g tp(1) by (cases yields) (simp_all add: io_settle_def Let_def)
  with g tp(2,3) show ?thesis by blast
qed

lemma io_settle_inv:
  assumes "io_inv compl s" and "io_settle P j p r s1 = Some t" and "j < length (io_coros s)"
    and "pool_inv (uring_pool (io_inst s1))" and "io_coros s1 = io_coros s"
    and "\<And>i. i \<noteq> j \<Longrightarrow> same_for compl i s s1"
    and "idle compl j s1" and "results_for j (io_given s1) = results_for j (io_seen s1) @ [r]"
  shows "io_inv compl t"
proof -
  note inv = io_invD [OF assms(1)]
  let ?n = "length (io_coros s)"
  from io_settle_result [OF assms(2,4)] obtain q yields new g tp where
    t: "t = s1\<lparr>io_seen := io_seen s1 @ [(j, r)], io_world := g,
          io_coros := (io_coros s)[j := if yields then Queued q else Acts q] @ map Queued new,
          io_inst := (io_inst s1)\<lparr>uring_pool := tp, next_coro := ?n + length new\<rparr>\<rparr>"
    and tp: "pool_inv tp" "waiting tp = waiting (uring_pool (io_inst s1)) +
      mset ([?n..<?n + length new] @ (if yields then [j] else []))"
    unfolding assms(5) by blast
  have ring: "in_ring compl i t = in_ring compl i s1" for i by (simp add: in_ring_def t)
  have pool: "in_pool i t = in_pool i s1 + (if ?n \<le> i \<and> i < ?n + length new then 1 else 0) + (if yields \<and> i = j then 1 else 0)" for i
    using tp(2) count_upt [of ?n "?n + length new" i] by (cases yields) (auto simp: in_pool_def t)
  have eqs: "io_coros t = (io_coros s)[j := if yields then Queued q else Acts q] @ map Queued new"
    "io_flight t = io_flight s1" "heap (io_inst t) = heap (io_inst s1)" "io_given t = io_given s1"
    "io_seen t = io_seen s1 @ [(j, r)]" "uring_pool (io_inst t) = tp" "io_bufs t = io_bufs s1"
    "next_coro (io_inst t) = ?n + length (map Queued new)"
    by (simp_all add: t)
  note z = assms(7) [unfolded idle_def]
  show ?thesis
  proof (rule io_inv_one [OF assms(1) _ assms(3) eqs(1,8)])
    have c: "io_coros t ! j = (if yields then Queued q else Acts q)" using assms(3) by (simp add: eqs(1) nth_append)
    show "coro_ok compl t j"
      unfolding coro_ok_def c woken_up_def idle_def ring pool eqs(2) using z assms(3) by simp
    show "results_for j (io_given t) = results_for j (io_seen t) @ unseen compl j t"
      unfolding unseen_def c eqs(4,5) using assms(8) by simp
    show "same_for compl i s t" if i: "i \<noteq> j" "i < ?n" for i
      using assms(6) [OF i(1)] i unfolding same_for_def ring pool eqs by simp
    have more: "same_for compl i s s1" "idle compl i s" if "?n \<le> i" for i
      using that assms(3) assms(6) [of i] inv(5) [of i] by simp_all
    show "coro_ok compl t (?n + k) \<and> unseen compl (?n + k) t = []" if k: "k < length (map Queued new)" for k
    proof -
      have "idle compl (?n + k) s1" using more [of "?n + k"] same_for_idle [OF more(1) [of "?n + k"]] by simp
      moreover have "io_coros t ! (?n + k) = Queued (new ! k)" using k by (simp add: eqs(1) nth_append)
      ultimately show ?thesis using k assms(3)
        unfolding coro_ok_def unseen_def woken_up_def idle_def ring pool eqs(2) by simp
    qed
    show "idle compl i t" if i: "?n + length (map Queued new) \<le> i" for i
    proof -
      have "idle compl i s1" using more [of i] same_for_idle [OF more(1) [of i]] i by simp
      then show ?thesis using i assms(3) unfolding idle_def ring pool eqs(2) by simp
    qed
    show "results_for i (io_given t) = [] \<and> results_for i (io_seen t) = []" if i: "?n \<le> i" for i
      using more [OF i] inv(6) [OF i] i assms(3) by (simp add: same_for_def eqs)
  qed (simp add: eqs tp(1))
qed

subsection \<open>Every step keeps the invariant\<close>

text \<open>A coroutine that is taken from the pool.\<close>

lemma popped:
  assumes "io_inv compl s" and "i < length (queueList (uring_pool (io_inst s)))"
    and "popTask i (uring_pool (io_inst s)) = Some (j, tp)" and "j < length (io_coros s)"
  shows "pool_inv tp" and "woken_up compl j s" and "count (waiting tp) j = 0"
    and "k \<noteq> j \<Longrightarrow> count (waiting tp) k = in_pool k s"
proof -
  note q = popTask_inv [OF io_invD(1) [OF assms(1)] assms(2,3)]
  then show "pool_inv tp" by simp
  have w: "in_pool k s = count (waiting tp) k + (if k = j then 1 else 0)" for k using q by (simp add: in_pool_def)
  then show "k \<noteq> j \<Longrightarrow> count (waiting tp) k = in_pool k s" by simp
  have "in_pool j s \<noteq> 0" using w [of j] by simp
  then show u: "woken_up compl j s" using io_invD(3) [OF assms(1,4)]
    by (auto simp: coro_ok_def idle_def at_kernel_def completed_def split: iostate.splits)
  show "count (waiting tp) j = 0" using w [of j] u by (simp add: woken_up_def)
qed

lemma inv_s_take:
  assumes "io_inv compl s" and "i < length (queueList (uring_pool (io_inst s)))"
    and "popTask i (uring_pool (io_inst s)) = Some (j, tp)" and "j < length (io_coros s)" and "io_coros s ! j = Queued p"
  shows "io_inv compl (s\<lparr>io_inst := (io_inst s)\<lparr>uring_pool := tp\<rparr>, io_world := g, io_coros := (io_coros s)[j := Acts q]\<rparr>)"
proof (rule io_inv_one [OF assms(1) _ assms(4), where c = "Acts q" and new = "[]"])
  note q = popped [OF assms(1-4)]
  let ?t = "s\<lparr>io_inst := (io_inst s)\<lparr>uring_pool := tp\<rparr>, io_world := g, io_coros := (io_coros s)[j := Acts q]\<rparr>"
  have ring: "in_ring compl k ?t = in_ring compl k s" and pool: "in_pool k ?t = count (waiting tp) k" for k
    by (simp_all add: in_ring_def in_pool_def)
  have c: "io_coros ?t ! j = Acts q" using assms(4) by simp
  show "coro_ok compl ?t j" unfolding coro_ok_def c idle_def ring pool using q(2,3) by (simp add: woken_up_def)
  show "results_for j (io_given ?t) = results_for j (io_seen ?t) @ unseen compl j ?t"
    unfolding unseen_def c using io_invD(4) [OF assms(1,4)] assms(5) by (simp add: unseen_def)
  show same: "same_for compl k s ?t" if "k \<noteq> j" for k
    unfolding same_for_def ring pool using q(4) [OF that] by simp
  show "idle compl k ?t" if "length (io_coros s) + length [] \<le> k" for k
  proof -
    have "k \<noteq> j" using that assms(4) by simp
    then show ?thesis using same_for_idle [OF same] io_invD(5) [OF assms(1)] that by simp
  qed
qed (use popped(1) [OF assms(1-4)] io_invD(2,6) [OF assms(1)] in simp_all)

lemma inv_s_resume:
  assumes "io_inv compl s" and "i < length (queueList (uring_pool (io_inst s)))"
    and "popTask i (uring_pool (io_inst s)) = Some (j, tp)" and "j < length (io_coros s)" and "io_coros s ! j = Waits p"
    and "io_settle P j p (await_resume j (io_inst s), io_bufs s j) (s\<lparr>io_inst := (io_inst s)\<lparr>uring_pool := tp\<rparr>\<rparr>) = Some t"
  shows "io_inv compl t"
proof (rule io_settle_inv [OF assms(1,6,4)])
  note q = popped [OF assms(1-4)]
  let ?t = "s\<lparr>io_inst := (io_inst s)\<lparr>uring_pool := tp\<rparr>\<rparr>"
  have ring: "in_ring compl k ?t = in_ring compl k s" and pool: "in_pool k ?t = count (waiting tp) k" for k
    by (simp_all add: in_ring_def in_pool_def)
  show "idle compl j ?t" unfolding idle_def ring pool using q(2,3) by (simp add: woken_up_def)
  show "results_for j (io_given ?t) = results_for j (io_seen ?t) @ [(await_resume j (io_inst s), io_bufs s j)]"
    using io_invD(4) [OF assms(1,4)] assms(5) q(2) by (simp add: unseen_def woken_up_def)
  show "same_for compl k s ?t" if "k \<noteq> j" for k
    unfolding same_for_def ring pool using q(4) [OF that] by simp
qed (use popped(1) [OF assms(1-4)] in simp_all)

lemma acting:
  assumes "io_inv compl s" and "j < length (io_coros s)" and "io_coros s ! j = Acts p"
  shows "idle compl j s" and "results_for j (io_given s) = results_for j (io_seen s)"
  using io_invD(3,4) [OF assms(1,2)] assms(3) by (simp_all add: coro_ok_def unseen_def)

lemma inv_s_asks:
  assumes "completion_laws U compl" and "io_inv compl s" and "j < length (io_coros s)" and "io_coros s ! j = Acts p"
    and "suspend_await U a j (io_inst s) = (True, st)"
  shows "io_inv compl (s\<lparr>io_inst := st, io_coros := (io_coros s)[j := Waits p], io_flight := add_mset j (io_flight s)\<rparr>)"
proof (rule io_inv_one [OF assms(2) _ assms(3), where c = "Waits p" and new = "[]"])
  note q = acting [OF assms(2-4)]
  note r = suspend_await_result [OF assms(1,5)]
  let ?t = "s\<lparr>io_inst := st, io_coros := (io_coros s)[j := Waits p], io_flight := add_mset j (io_flight s)\<rparr>"
  have ring: "in_ring compl k ?t = in_ring compl k s" and pool: "in_pool k ?t = in_pool k s" for k
    using r(1,2) by (simp_all add: in_ring_def in_pool_def)
  have c: "io_coros ?t ! j = Waits p" using assms(3) by simp
  show "coro_ok compl ?t j" unfolding coro_ok_def c at_kernel_def ring pool using q(1) r(6) by (simp add: idle_def)
  show "results_for j (io_given ?t) = results_for j (io_seen ?t) @ unseen compl j ?t"
    unfolding unseen_def c ring pool using q by (simp add: idle_def)
  show same: "same_for compl k s ?t" if "k \<noteq> j" for k
    unfolding same_for_def ring pool using r(5) [OF that] that by simp
  show "idle compl k ?t" if "length (io_coros s) + length [] \<le> k" for k
  proof -
    have "k \<noteq> j" using that assms(3) by simp
    then show ?thesis using same_for_idle [OF same] io_invD(5) [OF assms(2)] that by simp
  qed
  show "pool_inv (uring_pool (io_inst ?t))" using r(2) io_invD(1) [OF assms(2)] by simp
  show "next_coro (io_inst ?t) = length (io_coros s) + length []" using r(3) io_invD(2) [OF assms(2)] by simp
qed (use io_invD(6) [OF assms(2)] in simp_all)

lemma inv_s_busy:
  assumes "completion_laws U compl" and "io_inv compl s" and "j < length (io_coros s)" and "io_coros s ! j = Acts p"
    and "suspend_await U a j (io_inst s) = (False, st)"
    and "io_settle P j p r (s\<lparr>io_inst := st, io_given := io_given s @ [(j, r)]\<rparr>) = Some t"
  shows "io_inv compl t"
proof (rule io_settle_inv [OF assms(2,6,3)])
  note q = acting [OF assms(2-4)]
  note r = suspend_await_result [OF assms(1,5)]
  let ?t = "s\<lparr>io_inst := st, io_given := io_given s @ [(j, r)]\<rparr>"
  have ring: "in_ring compl k ?t = in_ring compl k s" and pool: "in_pool k ?t = in_pool k s" for k
    using r(1,2) by (simp_all add: in_ring_def in_pool_def)
  show "idle compl j ?t" unfolding idle_def ring pool using q(1) by (simp add: idle_def)
  show "results_for j (io_given ?t) = results_for j (io_seen ?t) @ [r]" using q(2) by simp
  show "same_for compl k s ?t" if "k \<noteq> j" for k
    unfolding same_for_def ring pool using r(5) [OF that] that by simp
  show "pool_inv (uring_pool (io_inst ?t))" using r(2) io_invD(1) [OF assms(2)] by simp
qed simp

lemma inv_s_ends:
  assumes "io_inv compl s" and "j < length (io_coros s)" and "io_coros s ! j = Acts p"
  shows "io_inv compl (s\<lparr>io_coros := (io_coros s)[j := Finished p]\<rparr>)"
proof (rule io_inv_one [OF assms(1) _ assms(2), where c = "Finished p" and new = "[]"])
  note q = acting [OF assms]
  let ?t = "s\<lparr>io_coros := (io_coros s)[j := Finished p]\<rparr>"
  have ring: "in_ring compl k ?t = in_ring compl k s" and pool: "in_pool k ?t = in_pool k s" for k
    by (simp_all add: in_ring_def in_pool_def)
  have c: "io_coros ?t ! j = Finished p" using assms(2) by simp
  show "coro_ok compl ?t j" unfolding coro_ok_def c idle_def ring pool using q(1) by (simp add: idle_def)
  show "results_for j (io_given ?t) = results_for j (io_seen ?t) @ unseen compl j ?t"
    unfolding unseen_def c using q(2) by simp
  show same: "same_for compl k s ?t" for k unfolding same_for_def ring pool by simp
  show "idle compl k ?t" if "length (io_coros s) + length [] \<le> k" for k
    using same_for_idle [OF same] io_invD(5) [OF assms(1)] that by simp
qed (use io_invD(1,2,6) [OF assms(1)] in simp_all)

text \<open>A request at the kernel, and a completion in the ring, belong to a coroutine that waits.\<close>

lemma awaited:
  assumes "io_inv compl s" and "count (io_flight s) d \<noteq> 0 \<or> in_ring compl d s \<noteq> []"
  obtains p where "d < length (io_coros s)" and "io_coros s ! d = Waits p" and "in_pool d s = 0"
    and "at_kernel compl d s \<or> completed compl d s" and "handle (heap (io_inst s) d) = d"
proof -
  have d: "d < length (io_coros s)" using io_invD(5) [OF assms(1), of d] assms(2)
    by (cases "d < length (io_coros s)") (auto simp: idle_def)
  have "\<exists>p. io_coros s ! d = Waits p \<and> (at_kernel compl d s \<or> completed compl d s) \<and> handle (heap (io_inst s) d) = d"
    using io_invD(3) [OF assms(1) d] assms(2)
    by (cases "io_coros s ! d") (auto simp: coro_ok_def woken_up_def idle_def count_eq_zero_iff)
  then show ?thesis using that [OF d] by (auto simp: at_kernel_def completed_def)
qed

lemma same_ring:
  assumes "io_inv compl s" and "compl u = compl (uring (io_inst s))"
  shows "io_inv compl (s\<lparr>io_inst := (io_inst s)\<lparr>uring := u\<rparr>\<rparr>)"
proof -
  let ?t = "s\<lparr>io_inst := (io_inst s)\<lparr>uring := u\<rparr>\<rparr>"
  have same: "same_for compl k s ?t" for k
    using assms(2) by (simp add: same_for_def in_ring_def in_pool_def)
  have "coro_ok compl ?t k = coro_ok compl s k" "unseen compl k ?t = unseen compl k s" "idle compl k ?t = idle compl k s" for k
    using same_for_ok [OF same] same_for_idle [OF same] by simp_all
  then show ?thesis using assms(1) by (simp add: io_inv_def)
qed

text \<open>The completion that is reaped next is one that its coroutine waits for.\<close>

lemma reaped:
  assumes "io_inv compl s" and "compl (uring (io_inst s)) = c # cs" and "d = user_data c"
  obtains p r where "d < length (io_coros s)" and "io_coros s ! d = Waits p" and "in_pool d s = 0"
    and "handle (heap (io_inst s) d) = d" and "in_ring compl d s = c # r" and "r = filter (\<lambda>x. user_data x = d) cs"
    and "terminal (heap (io_inst s)) c \<longrightarrow> r = [] \<and> count (io_flight s) d = 0"
    and "\<not> terminal (heap (io_inst s)) c \<longrightarrow>
      (count (io_flight s) d = 1 \<and> (\<forall>x \<in> set r. \<not> terminal (heap (io_inst s)) x)) \<or>
      (count (io_flight s) d = 0 \<and> r \<noteq> [] \<and> terminal (heap (io_inst s)) (last r) \<and>
       (\<forall>x \<in> set (butlast r). \<not> terminal (heap (io_inst s)) x))"
proof -
  define r where "r = filter (\<lambda>x. user_data x = d) cs"
  have r: "in_ring compl d s = c # r" by (simp add: in_ring_def assms(2,3) r_def)
  obtain p where d: "d < length (io_coros s)" "io_coros s ! d = Waits p" "in_pool d s = 0"
    "at_kernel compl d s \<or> completed compl d s" "handle (heap (io_inst s) d) = d"
    using awaited [OF assms(1), of d] r by auto
  show thesis
  proof (rule that [OF d(1-3,5) r r_def])
    show "terminal (heap (io_inst s)) c \<longrightarrow> r = [] \<and> count (io_flight s) d = 0"
      using d(4) unfolding at_kernel_def completed_def r by (cases "r = []") auto
    show "\<not> terminal (heap (io_inst s)) c \<longrightarrow>
      (count (io_flight s) d = 1 \<and> (\<forall>x \<in> set r. \<not> terminal (heap (io_inst s)) x)) \<or>
      (count (io_flight s) d = 0 \<and> r \<noteq> [] \<and> terminal (heap (io_inst s)) (last r) \<and>
       (\<forall>x \<in> set (butlast r). \<not> terminal (heap (io_inst s)) x))"
      using d(4) unfolding at_kernel_def completed_def r by (cases "r = []") auto
  qed
qed

lemma inv_s_reap:
  assumes "completion_laws U compl" and "io_inv compl s" and "reap_turn U (io_inst s) = Returns (y, st)"
  shows "io_inv compl (s\<lparr>io_inst := st, io_coros := io_coros s @ made P (io_inst s) st\<rparr>)"
proof (cases "compl (uring (io_inst s))")
  case Nil
  then obtain u where "st = (io_inst s)\<lparr>uring := u\<rparr>" "compl u = []" using reap_turn_empty [OF assms(1) Nil assms(3)] by blast
  then show ?thesis using same_ring [OF assms(2), of u] Nil by (simp add: made_def)
next
  case (Cons c cs)
  define d where "d = user_data c"
  let ?n = "length (io_coros s)" and ?hp = "heap (io_inst s)"
  let ?new = "if accepted ?hp c then [Queued (handles P (multishotHandler (?hp d)) (res c))] else []"
  let ?t = "s\<lparr>io_inst := st, io_coros := io_coros s @ made P (io_inst s) st\<rparr>"
  obtain p r where d: "d < ?n" "io_coros s ! d = Waits p" "in_pool d s = 0" "handle (?hp d) = d"
    and r: "in_ring compl d s = c # r" "r = filter (\<lambda>x. user_data x = d) cs"
    and last: "terminal ?hp c \<longrightarrow> r = [] \<and> count (io_flight s) d = 0"
    and more: "\<not> terminal ?hp c \<longrightarrow> (count (io_flight s) d = 1 \<and> (\<forall>x \<in> set r. \<not> terminal ?hp x)) \<or>
      (count (io_flight s) d = 0 \<and> r \<noteq> [] \<and> terminal ?hp (last r) \<and> (\<forall>x \<in> set (butlast r). \<not> terminal ?hp x))"
    by (rule reaped [OF assms(2) Cons d_def])
  from reap_turn_first [OF assms(1) Cons io_invD(1) [OF assms(2)] assms(3)] obtain tp u where
    st: "st = (set_returnVal d (cqe_result c) (io_inst s))\<lparr>uring_pool := tp, uring := u,
        next_coro := ?n + (if accepted ?hp c then 1 else 0),
        handler_calls := handler_calls (io_inst s) @
          (if accepted ?hp c then [(?n, multishotHandler (?hp d), res c)] else [])\<rparr>"
    and u: "compl u = cs" and tp: "pool_inv tp"
      "waiting tp = waiting (uring_pool (io_inst s)) + (if accepted ?hp c then {#?n#} else {#})
        + (if terminal ?hp c then {#d#} else {#})"
    unfolding io_invD(2) [OF assms(2)] d_def [symmetric] d(4) by blast
  have m: "made P (io_inst s) st = ?new" by (simp add: made_def st)
  have ring: "in_ring compl k ?t = (if k = d then r else in_ring compl k s)" for k
    using r(2) by (auto simp: in_ring_def Cons st u d_def)
  have pool: "in_pool k ?t = in_pool k s + (if k = ?n \<and> accepted ?hp c then 1 else 0) + (if k = d \<and> terminal ?hp c then 1 else 0)" for k
    by (simp add: in_pool_def st tp(2))
  have hp: "heap st k = (if k = d then (?hp d)\<lparr>returnVal := cqe_result c\<rparr> else ?hp k)" for k
    by (simp add: st set_returnVal_def)
  have T: "terminal (heap st) x = terminal ?hp x" for x by (simp add: terminal_def hp)
  have c: "io_coros ?t ! d = Waits p" using d(1,2) by (simp add: nth_append)
  show ?thesis
  proof (rule io_inv_one [OF assms(2) _ d(1), where c = "Waits p" and new = ?new])
    show "coro_ok compl ?t d"
    proof (cases "terminal ?hp c")
      case True
      then have "woken_up compl d ?t" unfolding woken_up_def ring pool using last d(1,3) by simp
      then show ?thesis unfolding coro_ok_def c using d(4) by (simp add: hp)
    next
      case False
      then have "at_kernel compl d ?t \<or> completed compl d ?t"
        unfolding at_kernel_def completed_def ring pool using more d(1,3) by (simp add: T)
      then show ?thesis unfolding coro_ok_def c using d(4) by (auto simp: hp)
    qed
    have "unseen compl d ?t = unseen compl d s"
    proof (cases "terminal ?hp c")
      case True
      then show ?thesis unfolding unseen_def c d(2) ring pool using last d(1,3) r(1)
        by (simp add: await_resume_def hp)
    next
      case False
      have "terminal (heap st) = terminal ?hp" by (rule ext) (rule T)
      with False show ?thesis unfolding unseen_def c d(2) ring pool using d(1,3) r(1) by simp
    qed
    then show "results_for d (io_given ?t) = results_for d (io_seen ?t) @ unseen compl d ?t"
      using io_invD(4) [OF assms(2) d(1)] by simp
    show same: "same_for compl k s ?t" if "k \<noteq> d" "k < ?n" for k
      unfolding same_for_def ring pool using that by (simp add: hp)
    show "coro_ok compl ?t (?n + k) \<and> unseen compl (?n + k) ?t = []" if k: "k < length ?new" for k
    proof -
      have a: "accepted ?hp c" "k = 0" using k by (auto split: if_splits)
      have i: "idle compl ?n s" by (rule io_invD(5) [OF assms(2)]) simp
      have "io_coros ?t ! ?n = Queued (handles P (multishotHandler (?hp d)) (res c))" using a by (simp add: m)
      then show ?thesis using a i d(1) unfolding coro_ok_def unseen_def woken_up_def idle_def
        by (simp add: ring pool)
    qed
    show "idle compl k ?t" if "?n + length ?new \<le> k" for k
    proof -
      have "idle compl k s" using that by (intro io_invD(5) [OF assms(2)]) simp
      then show ?thesis using that d(1) unfolding idle_def ring pool by (auto split: if_splits)
    qed
    show "io_coros ?t = (io_coros s)[d := Waits p] @ ?new" using d(2) m by (simp, metis list_update_id)
    show "next_coro (io_inst ?t) = ?n + length ?new" by (simp add: st)
    show "pool_inv (uring_pool (io_inst ?t))" by (simp add: st tp(1))
  qed (use io_invD(6) [OF assms(2)] in simp)
qed

lemma inv_s_kernel:
  assumes "io_inv compl s" and "user_data c \<in># io_flight s" and "compl u = compl (uring (io_inst s)) @ [c]"
    and "hp = heap (io_inst s)"
  shows "io_inv compl (s\<lparr>io_inst := (io_inst s)\<lparr>uring := u\<rparr>, io_bufs := (io_bufs s)(user_data c := b),
          io_flight := (if terminal hp c then io_flight s - {#user_data c#} else io_flight s),
          io_given := io_given s @ (if terminal hp c then [(user_data c, cqe_result c, b)] else []),
          io_accepted := io_accepted s @ (if accepted hp c then [res c] else [])\<rparr>)"
proof -
  define d where "d = user_data c"
  let ?t = "s\<lparr>io_inst := (io_inst s)\<lparr>uring := u\<rparr>, io_bufs := (io_bufs s)(d := b),
      io_flight := (if terminal hp c then io_flight s - {#d#} else io_flight s),
      io_given := io_given s @ (if terminal hp c then [(d, cqe_result c, b)] else []),
      io_accepted := io_accepted s @ (if accepted hp c then [res c] else [])\<rparr>"
  have f: "count (io_flight s) d \<noteq> 0" using assms(2) by (simp add: d_def)
  obtain p where d: "d < length (io_coros s)" "io_coros s ! d = Waits p" "in_pool d s = 0"
    "at_kernel compl d s \<or> completed compl d s" "handle (heap (io_inst s) d) = d"
    using awaited [OF assms(1), of d] f by blast
  then have k: "count (io_flight s) d = 1" "\<forall>x \<in> set (in_ring compl d s). \<not> terminal hp x"
    using f assms(4) by (auto simp: at_kernel_def completed_def count_eq_zero_iff)
  have ring: "in_ring compl i ?t = in_ring compl i s @ (if i = d then [c] else [])" for i
    by (simp add: in_ring_def assms(3) d_def)
  have pool: "in_pool i ?t = in_pool i s" for i by (simp add: in_pool_def)
  have c: "io_coros ?t ! d = Waits p" using d(2) by simp
  have none: "filter (terminal hp) (in_ring compl d s) = []" using k(2) by (simp add: filter_empty_conv)
  have "io_inv compl ?t"
  proof (rule io_inv_one [OF assms(1) _ d(1), where c = "Waits p" and new = "[]"])
    have "at_kernel compl d ?t \<or> completed compl d ?t"
      unfolding at_kernel_def completed_def ring pool using k d(3) assms(4) by auto
    then show "coro_ok compl ?t d" unfolding coro_ok_def c using d(5) by auto
    show "results_for d (io_given ?t) = results_for d (io_seen ?t) @ unseen compl d ?t"
      unfolding unseen_def c ring pool
      using d(2,3) io_invD(4) [OF assms(1) d(1)] none assms(4) by (simp add: unseen_def)
    show same: "same_for compl i s ?t" if "i \<noteq> d" for i
      unfolding same_for_def ring pool using that by simp
    show "idle compl i ?t" if "length (io_coros s) + length [] \<le> i" for i
    proof -
      have "i \<noteq> d" using that d(1) by simp
      then show ?thesis using same_for_idle [OF same] io_invD(5) [OF assms(1)] that by simp
    qed
    show "io_coros ?t = (io_coros s)[d := Waits p] @ []" using d by (simp, metis list_update_id)
    show "results_for i (io_given ?t) = [] \<and> results_for i (io_seen ?t) = []" if "length (io_coros s) \<le> i" for i
      using io_invD(6) [OF assms(1) that] that d(1) by auto
  qed (use io_invD(1,2) [OF assms(1)] in simp_all)
  then show ?thesis by (simp add: d_def cong: if_cong)
qed

lemma io_step_inv:
  assumes "completion_laws U compl" and "io_step U compl P s t" and "io_inv compl s"
  shows "io_inv compl t"
  using assms(2)
proof cases
  case s_take
  then show ?thesis using inv_s_take [OF assms(3)] by blast
next
  case s_resume
  then show ?thesis using inv_s_resume [OF assms(3)] by blast
next
  case s_asks
  then show ?thesis using inv_s_asks [OF assms(1,3)] by blast
next
  case s_busy
  then show ?thesis using inv_s_busy [OF assms(1,3)] by blast
next
  case s_ends
  then show ?thesis using inv_s_ends [OF assms(3)] by blast
next
  case s_reap
  then show ?thesis using inv_s_reap [OF assms(1,3)] by blast
next
  case s_kernel
  then show ?thesis using inv_s_kernel [OF assms(3)] by blast
qed

lemma io_starts_inv:
  assumes "io_starts compl ps s"
  shows "io_inv compl s"
proof -
  from assms obtain p0 where s: "io_coros s = map Queued ps" "io_flight s = {#}" "io_seen s = []" "io_given s = []"
    "compl (uring (io_inst s)) = []" "next_coro (io_inst s) = length ps" and p: "pool_inv p0" "waiting p0 = {#}"
      "addTasks [0..<length ps] p0 = Returns (uring_pool (io_inst s))"
    by (auto simp: io_starts_def)
  from addTasks_result [OF p(1), of "[0..<length ps]"] p(2,3)
  have t: "pool_inv (uring_pool (io_inst s))" "waiting (uring_pool (io_inst s)) = mset [0..<length ps]" by auto
  have w: "in_pool j s = (if j < length ps then 1 else 0)" for j
    unfolding in_pool_def t(2) count_upt by simp
  have "in_ring compl j s = []" for j by (simp add: in_ring_def s(5))
  then show ?thesis
    using t(1) s w by (simp add: io_inv_def coro_ok_def woken_up_def idle_def unseen_def)
qed

lemma io_run_inv:
  assumes "completion_laws U compl" and "io_starts compl ps s0" and "(io_step U compl P)\<^sup>*\<^sup>* s0 s"
  shows "io_inv compl s"
  using assms(3)
proof (induction rule: rtranclp_induct)
  case base
  show ?case by (rule io_starts_inv [OF assms(2)])
next
  case (step y z)
  then show ?case using io_step_inv [OF assms(1)] by blast
qed

subsection \<open>Accepted descriptors\<close>

text \<open>The descriptors the kernel accepted are those that handlers were called for, and then those in the ring.\<close>

definition to_handle :: "('u \<Rightarrow> cqe list) \<Rightarrow> ('u, 'p, 'g) iosys \<Rightarrow> int list" where
  "to_handle compl s = map res (filter (accepted (heap (io_inst s))) (compl (uring (io_inst s))))"

definition accepts_ok :: "('u \<Rightarrow> cqe list) \<Rightarrow> ('u, 'p, 'g) iosys \<Rightarrow> bool" where
  "accepts_ok compl s \<longleftrightarrow>
     io_accepted s = map (\<lambda>(_, _, n). n) (handler_calls (io_inst s)) @ to_handle compl s
     \<and> distinct (map fst (handler_calls (io_inst s)))
     \<and> (\<forall>j \<in> set (map fst (handler_calls (io_inst s))). j < length (io_coros s))"

lemma accepts_same:
  assumes "accepts_ok compl s" and "io_accepted t = io_accepted s" and "handler_calls (io_inst t) = handler_calls (io_inst s)"
    and "to_handle compl t = to_handle compl s" and "length (io_coros s) \<le> length (io_coros t)"
  shows "accepts_ok compl t"
  using assms unfolding accepts_ok_def by (auto intro: less_le_trans)

lemma accepts_settle:
  assumes "accepts_ok compl s" and "io_settle P j p r s = Some t" and "pool_inv (uring_pool (io_inst s))"
  shows "accepts_ok compl t"
  using io_settle_result [OF assms(2,3)] by (elim exE conjE, intro accepts_same [OF assms(1)]) (simp_all add: to_handle_def)

lemma accepts_suspend:
  assumes "completion_laws U compl" and "accepts_ok compl s" and "io_inv compl s" and "j < length (io_coros s)"
    and "io_coros s ! j = Acts p" and "suspend_await U a j (io_inst s) = (x, st)"
    and "io_inst t = st" and "io_accepted t = io_accepted s" and "length (io_coros t) = length (io_coros s)"
  shows "accepts_ok compl t"
proof (rule accepts_same [OF assms(2,8)])
  note r = suspend_await_result [OF assms(1,6)]
  have "user_data c \<noteq> j" if "c \<in> set (compl (uring (io_inst s)))" for c
    using acting(1) [OF assms(3-5)] that by (auto simp: idle_def in_ring_def filter_empty_conv)
  then have "accepted (heap st) c = accepted (heap (io_inst s)) c" if "c \<in> set (compl (uring (io_inst s)))" for c
    using that r(5) by (simp add: accepted_def)
  then show "to_handle compl t = to_handle compl s"
    unfolding to_handle_def assms(7) r(1) by (metis (no_types, lifting) filter_cong)
qed (simp_all add: assms(7,9) suspend_await_result(4) [OF assms(1,6)])

lemma accepts_reap:
  assumes "completion_laws U compl" and "io_inv compl s" and "accepts_ok compl s" and "reap_turn U (io_inst s) = Returns (y, st)"
  shows "accepts_ok compl (s\<lparr>io_inst := st, io_coros := io_coros s @ made P (io_inst s) st\<rparr>)"
proof (cases "compl (uring (io_inst s))")
  case Nil
  then obtain u where "st = (io_inst s)\<lparr>uring := u\<rparr>" "compl u = []" using reap_turn_empty [OF assms(1) Nil assms(4)] by blast
  then show ?thesis using assms(3) Nil by (simp add: made_def accepts_ok_def to_handle_def)
next
  case (Cons c cs)
  let ?hp = "heap (io_inst s)"
  from reap_turn_first [OF assms(1) Cons io_invD(1) [OF assms(2)] assms(4)] obtain tp u where
    st: "st = (set_returnVal (user_data c) (cqe_result c) (io_inst s))\<lparr>uring_pool := tp, uring := u,
        next_coro := length (io_coros s) + (if accepted ?hp c then 1 else 0),
        handler_calls := handler_calls (io_inst s) @
          (if accepted ?hp c then [(length (io_coros s), multishotHandler (?hp (user_data c)), res c)] else [])\<rparr>"
    and u: "compl u = cs"
    unfolding io_invD(2) [OF assms(2)] by blast
  have "accepted (heap st) x = accepted ?hp x" for x by (simp add: st accepted_def set_returnVal_def)
  then have "accepted (heap st) = accepted ?hp" by (rule ext)
  then show ?thesis using assms(3) Cons u
    by (cases "accepted ?hp c") (auto simp: accepts_ok_def to_handle_def made_def st)
qed

lemma io_step_accepts:
  assumes "completion_laws U compl" and "io_step U compl P s t" and "io_inv compl s" and "accepts_ok compl s"
  shows "accepts_ok compl t"
  using assms(2)
proof cases
  case (s_take i j tp p q g)
  show ?thesis unfolding s_take(1) by (rule accepts_same [OF assms(4)]) (simp_all add: to_handle_def)
next
  case (s_resume i j tp p)
  have "accepts_ok compl (s\<lparr>io_inst := (io_inst s)\<lparr>uring_pool := tp\<rparr>\<rparr>)"
    by (rule accepts_same [OF assms(4)]) (simp_all add: to_handle_def)
  then show ?thesis by (rule accepts_settle [OF _ s_resume(5)]) (use popped(1) [OF assms(3) s_resume(1-3)] in simp)
next
  case (s_asks j p a st)
  show ?thesis unfolding s_asks(1)
    by (rule accepts_suspend [OF assms(1,4,3) s_asks(2,3,5)]) simp_all
next
  case (s_busy j p a st r)
  have "accepts_ok compl (s\<lparr>io_inst := st, io_given := io_given s @ [(j, r)]\<rparr>)"
    by (rule accepts_suspend [OF assms(1,4,3) s_busy(1,2,4)]) simp_all
  then show ?thesis
    by (rule accepts_settle [OF _ s_busy(6)])
      (use io_invD(1) [OF assms(3)] suspend_await_result(2) [OF assms(1) s_busy(4)] in simp)
next
  case (s_ends j p)
  show ?thesis unfolding s_ends(1) by (rule accepts_same [OF assms(4)]) (simp_all add: to_handle_def)
next
  case (s_reap y st)
  show ?thesis unfolding s_reap(1) by (rule accepts_reap [OF assms(1,3,4) s_reap(2)])
next
  case (s_kernel c u hp b)
  show ?thesis unfolding s_kernel(1) using assms(4) s_kernel(3,4) by (auto simp: accepts_ok_def to_handle_def)
qed

lemma io_run_accepts:
  assumes "completion_laws U compl" and "io_starts compl ps s0" and "(io_step U compl P)\<^sup>*\<^sup>* s0 s"
  shows "accepts_ok compl s"
  using assms(3)
proof (induction rule: rtranclp_induct)
  case base
  show ?case using assms(2) by (simp add: io_starts_def accepts_ok_def to_handle_def)
next
  case (step y z)
  then show ?case using io_step_accepts [OF assms(1)] io_run_inv [OF assms(1,2)] by blast
qed

subsection \<open>Every await gets its result\<close>

lemma io_progress:
  assumes "io_inv compl s" and "j < length (io_coros s)"
  shows "\<exists>new. results_for j (io_given s) = results_for j (io_seen s) @ new \<and>
    (case io_coros s ! j of
       Queued p \<Rightarrow> new = [] \<and> in_pool j s = 1
     | Waits p \<Rightarrow>
         new = [] \<and> count (io_flight s) j = 1 \<and> in_pool j s = 0
         \<or> length new = 1 \<and> count (io_flight s) j = 0 \<and> (in_pool j s = 1 \<or> in_pool j s = 0 \<and> in_ring compl j s \<noteq> [])
     | _ \<Rightarrow> new = [] \<and> in_pool j s = 0)"
proof (intro exI [of _ "unseen compl j s"] conjI)
  show "results_for j (io_given s) = results_for j (io_seen s) @ unseen compl j s" by (rule io_invD(4) [OF assms])
  note ok = io_invD(3) [OF assms, unfolded coro_ok_def]
  show "case io_coros s ! j of
      Queued p \<Rightarrow> unseen compl j s = [] \<and> in_pool j s = 1
    | Waits p \<Rightarrow>
        unseen compl j s = [] \<and> count (io_flight s) j = 1 \<and> in_pool j s = 0
        \<or> length (unseen compl j s) = 1 \<and> count (io_flight s) j = 0 \<and>
          (in_pool j s = 1 \<or> in_pool j s = 0 \<and> in_ring compl j s \<noteq> [])
    | _ \<Rightarrow> unseen compl j s = [] \<and> in_pool j s = 0"
  proof (cases "io_coros s ! j")
    case (Waits p)
    have "length (filter (terminal (heap (io_inst s))) (in_ring compl j s)) = 1" if "completed compl j s"
    proof -
      have "in_ring compl j s = butlast (in_ring compl j s) @ [last (in_ring compl j s)]"
        using that by (simp add: completed_def)
      then obtain xs c where "in_ring compl j s = xs @ [c]" by blast
      with that show ?thesis by (simp add: completed_def filter_empty_conv)
    qed
    then show ?thesis using ok Waits
      by (auto simp: unseen_def at_kernel_def completed_def woken_up_def filter_empty_conv)
  qed (use ok in \<open>simp_all add: unseen_def woken_up_def idle_def\<close>)
qed

text \<open>
  C7: every await gets its result.  In every interleaving of any number of coroutines that share the ring, the
  pool and \<^verbatim>\<open>reapIOs\<close>, a coroutine has seen the results that the kernel gave for its own requests (and the full queue), each
  once and in order, with the data that was in its buffer, at most the last one left to see.  While it waits, either
  its request is at the kernel, or its completion is in the ring, or its handle is in the pool, once: no wake-up is
  lost, and no coroutine that does not wait is in the pool because of a completion.
\<close>

theorem every_await_gets_its_result:
  assumes "completion_laws U compl" and "io_starts compl ps s0" and "(io_step U compl P)\<^sup>*\<^sup>* s0 s"
    and "j < length (io_coros s)"
  shows "\<exists>new. results_for j (io_given s) = results_for j (io_seen s) @ new \<and>
    (case io_coros s ! j of
       Queued p \<Rightarrow> new = [] \<and> in_pool j s = 1
     | Waits p \<Rightarrow>
         new = [] \<and> count (io_flight s) j = 1 \<and> in_pool j s = 0
         \<or> length new = 1 \<and> count (io_flight s) j = 0 \<and> (in_pool j s = 1 \<or> in_pool j s = 0 \<and> in_ring compl j s \<noteq> [])
     | _ \<Rightarrow> new = [] \<and> in_pool j s = 0)"
  by (rule io_progress [OF io_run_inv [OF assms(1-3)] assms(4)])

subsection \<open>Invariants of the programs\<close>

text \<open>
  What the programs keep up holds of every state: \<open>I\<close> is about the coroutines, the state they share, the results
  they have seen and the calls of the handlers.
\<close>

lemma io_run_programs:
  assumes "completion_laws U compl" and "io_starts compl ps s0" and "(io_step U compl P)\<^sup>*\<^sup>* s0 s"
    and start: "I (map Queued ps) (io_world s0) [] []"
    and takes: "\<And>cs g sn hc j p q g'. \<lbrakk>I cs g sn hc; j < length cs; cs ! j = Queued p; begins P p g = Some (q, g')\<rbrakk> \<Longrightarrow>
      I (cs[j := Acts q]) g' sn hc"
    and awaits: "\<And>cs g sn hc j p. \<lbrakk>I cs g sn hc; j < length cs; cs ! j = Acts p\<rbrakk> \<Longrightarrow> I (cs[j := Waits p]) g sn hc"
    and ends: "\<And>cs g sn hc j p. \<lbrakk>I cs g sn hc; j < length cs; cs ! j = Acts p; asks P p g = None\<rbrakk> \<Longrightarrow>
      I (cs[j := Finished p]) g sn hc"
    and goes: "\<And>cs g sn hc j p r q yields new g'.
      \<lbrakk>I cs g sn hc; j < length cs; cs ! j = Acts p \<or> cs ! j = Waits p; goes_on P p r g = Some (q, yields, new, g')\<rbrakk> \<Longrightarrow>
      I ((cs[j := if yields then Queued q else Acts q]) @ map Queued new) g' (sn @ [(j, r)]) hc"
    and makes: "\<And>cs g sn hc f n. I cs g sn hc \<Longrightarrow> I (cs @ [Queued (handles P f n)]) g sn (hc @ [(length cs, f, n)])"
  shows "I (io_coros s) (io_world s) (io_seen s) (handler_calls (io_inst s))"
  using assms(3)
proof (induction rule: rtranclp_induct)
  case base
  then show ?case using start assms(2) by (simp add: io_starts_def)
next
  case (step s t)
  note inv = io_run_inv [OF assms(1,2) step.hyps(1)]
  from step.hyps(2) show ?case
  proof cases
    case (s_take i j tp p q g)
    then show ?thesis using takes [OF step.IH s_take(4-6)] by simp
  next
    case (s_resume i j tp p)
    let ?s = "s\<lparr>io_inst := (io_inst s)\<lparr>uring_pool := tp\<rparr>\<rparr>"
    have "pool_inv (uring_pool (io_inst ?s))" using popped(1) [OF inv s_resume(1-3)] by simp
    from io_settle_result [OF s_resume(5) this] goes [OF step.IH s_resume(3)] s_resume(4) show ?thesis by auto
  next
    case (s_asks j p a st)
    then show ?thesis using awaits [OF step.IH s_asks(2,3)] suspend_await_result(4) [OF assms(1) s_asks(5)] by simp
  next
    case (s_busy j p a st r)
    let ?s = "s\<lparr>io_inst := st, io_given := io_given s @ [(j, r)]\<rparr>"
    have "pool_inv (uring_pool (io_inst ?s))"
      using io_invD(1) [OF inv] suspend_await_result(2) [OF assms(1) s_busy(4)] by simp
    from io_settle_result [OF s_busy(6) this] obtain q yields new g tp where
      g: "goes_on P p r (io_world s) = Some (q, yields, new, g)"
      and t: "t = ?s\<lparr>io_seen := io_seen s @ [(j, r)], io_world := g,
          io_coros := (io_coros s)[j := if yields then Queued q else Acts q] @ map Queued new,
          io_inst := st\<lparr>uring_pool := tp, next_coro := length (io_coros s) + length new\<rparr>\<rparr>" by auto
    from goes [OF step.IH s_busy(1) disjI1 [OF s_busy(2)] g] suspend_await_result(4) [OF assms(1) s_busy(4)]
    show ?thesis by (simp add: t)
  next
    case (s_ends j p)
    then show ?thesis using ends [OF step.IH s_ends(2-4)] by simp
  next
    case (s_reap y st)
    show ?thesis
    proof (cases "compl (uring (io_inst s))")
      case Nil
      then obtain u where "st = (io_inst s)\<lparr>uring := u\<rparr>" using reap_turn_empty [OF assms(1) Nil s_reap(2)] by blast
      then show ?thesis using step.IH by (simp add: s_reap(1) made_def)
    next
      case (Cons c cs)
      let ?hp = "heap (io_inst s)"
      from reap_turn_first [OF assms(1) Cons io_invD(1) [OF inv] s_reap(2)] have
        "handler_calls st = handler_calls (io_inst s) @
          (if accepted ?hp c then [(length (io_coros s), multishotHandler (?hp (user_data c)), res c)] else [])"
        unfolding io_invD(2) [OF inv] by auto
      then show ?thesis using step.IH makes [OF step.IH] by (simp add: s_reap(1) made_def)
    qed
  next
    case (s_kernel c u hp b)
    then show ?thesis using step.IH by simp
  qed
qed

subsection \<open>Runs as a function\<close>

text \<open>
  A schedule: a worker takes the first task of a queue, a coroutine that acts goes on to its next await or its end,
  \<^verbatim>\<open>reapIOs\<close> makes a turn, the kernel completes a request.  \<open>deliver\<close> puts a completion into the ring.
\<close>

datatype io_move = TakeFrom nat | GoOn nat | Reap | Complete cqe string

fun make_move ::
  "'u uring_ops \<Rightarrow> (cqe \<Rightarrow> 'u \<Rightarrow> 'u) \<Rightarrow> ('p, 'g) program \<Rightarrow> io_move \<Rightarrow> ('u, 'p, 'g) iosys \<Rightarrow> ('u, 'p, 'g) iosys option" where
  "make_move U deliver P (TakeFrom i) s =
     (if i < length (queueList (uring_pool (io_inst s))) then
        (case popTask i (uring_pool (io_inst s)) of
           None \<Rightarrow> None
         | Some (j, tp) \<Rightarrow>
             if j < length (io_coros s) then
               (case io_coros s ! j of
                  Queued p \<Rightarrow>
                    (case begins P p (io_world s) of
                       None \<Rightarrow> None
                     | Some (q, g) \<Rightarrow>
                         Some (s\<lparr>io_inst := (io_inst s)\<lparr>uring_pool := tp\<rparr>, io_world := g, io_coros := (io_coros s)[j := Acts q]\<rparr>))
                | Waits p \<Rightarrow>
                    io_settle P j p (await_resume j (io_inst s), io_bufs s j) (s\<lparr>io_inst := (io_inst s)\<lparr>uring_pool := tp\<rparr>\<rparr>)
                | _ \<Rightarrow> None)
             else None)
      else None)"
| "make_move U deliver P (GoOn j) s =
     (if j < length (io_coros s) then
        (case io_coros s ! j of
           Acts p \<Rightarrow>
             (case asks P p (io_world s) of
                None \<Rightarrow> Some (s\<lparr>io_coros := (io_coros s)[j := Finished p]\<rparr>)
              | Some a \<Rightarrow>
                  (case suspend_await U a j (io_inst s) of
                     (True, st) \<Rightarrow>
                       Some (s\<lparr>io_inst := st, io_coros := (io_coros s)[j := Waits p], io_flight := add_mset j (io_flight s)\<rparr>)
                   | (False, st) \<Rightarrow>
                       (let r = (await_resume j st, io_bufs s j)
                        in io_settle P j p r (s\<lparr>io_inst := st, io_given := io_given s @ [(j, r)]\<rparr>))))
         | _ \<Rightarrow> None)
      else None)"
| "make_move U deliver P Reap s =
     (case reap_turn U (io_inst s) of
        Returns (y, st) \<Rightarrow> Some (s\<lparr>io_inst := st, io_coros := io_coros s @ made P (io_inst s) st\<rparr>)
      | _ \<Rightarrow> None)"
| "make_move U deliver P (Complete c b) s =
     (let hp = heap (io_inst s)
      in if user_data c \<in># io_flight s \<and> (multishot (hp (user_data c)) \<or> res c \<le> int (length b)) then
           Some (s\<lparr>io_inst := (io_inst s)\<lparr>uring := deliver c (uring (io_inst s))\<rparr>, io_bufs := (io_bufs s)(user_data c := b),
              io_flight := (if terminal hp c then io_flight s - {#user_data c#} else io_flight s),
              io_given := io_given s @ (if terminal hp c then [(user_data c, cqe_result c, b)] else []),
              io_accepted := io_accepted s @ (if accepted hp c then [res c] else [])\<rparr>)
         else None)"

fun make_moves ::
  "'u uring_ops \<Rightarrow> (cqe \<Rightarrow> 'u \<Rightarrow> 'u) \<Rightarrow> ('p, 'g) program \<Rightarrow> io_move list \<Rightarrow> ('u, 'p, 'g) iosys \<Rightarrow>
     ('u, 'p, 'g) iosys option" where
  "make_moves U deliver P [] s = Some s"
| "make_moves U deliver P (m # ms) s =
     (case make_move U deliver P m s of None \<Rightarrow> None | Some s \<Rightarrow> make_moves U deliver P ms s)"

lemma make_move_step:
  assumes "\<forall>c u. compl (deliver c u) = compl u @ [c]" and "make_move U deliver P m s = Some t"
  shows "io_step U compl P s t"
proof (cases m)
  case (TakeFrom i)
  then obtain j tp where p: "i < length (queueList (uring_pool (io_inst s)))"
    "popTask i (uring_pool (io_inst s)) = Some (j, tp)" "j < length (io_coros s)"
    using assms(2) by (auto split: if_splits option.splits)
  show ?thesis
  proof (cases "io_coros s ! j")
    case (Queued x)
    then show ?thesis using assms(2) TakeFrom p s_take [OF p, of x] by (auto split: option.splits)
  next
    case (Waits x)
    then show ?thesis using assms(2) TakeFrom p s_resume [OF p, of x] by simp
  qed (use assms(2) TakeFrom p in simp_all)
next
  case (GoOn j)
  then obtain p where p: "j < length (io_coros s)" "io_coros s ! j = Acts p"
    using assms(2) by (auto split: if_splits iostate.splits)
  show ?thesis
  proof (cases "asks P p (io_world s)")
    case None
    then show ?thesis using assms(2) GoOn p s_ends [OF p] by simp
  next
    case (Some a)
    obtain b st where st: "suspend_await U a j (io_inst s) = (b, st)" by fastforce
    then show ?thesis using assms(2) GoOn p Some s_asks [OF p Some, of U st] s_busy [OF p Some, of U st "(await_resume j st, io_bufs s j)"]
      by (cases b) (simp_all add: Let_def)
  qed
next
  case Reap
  then show ?thesis using assms(2) s_reap by (fastforce split: outcome.splits)
next
  case (Complete c b)
  then show ?thesis using assms s_kernel [of c s compl "deliver c (uring (io_inst s))" "heap (io_inst s)" b]
    by (auto simp: Let_def cong: if_cong split: if_splits)
qed

lemma make_moves_run:
  assumes "\<forall>c u. compl (deliver c u) = compl u @ [c]" and "make_moves U deliver P ms s = Some t"
  shows "(io_step U compl P)\<^sup>*\<^sup>* s t"
  using assms(2)
proof (induction ms arbitrary: s)
  case (Cons m ms)
  then obtain x where "make_move U deliver P m s = Some x" "make_moves U deliver P ms x = Some t"
    by (auto split: option.splits)
  with Cons.IH make_move_step [OF assms(1)] show ?case by (meson converse_rtranclp_into_rtranclp)
qed simp

subsection \<open>Witness\<close>

definition demo_deliver :: "cqe \<Rightarrow> demo_ring \<Rightarrow> demo_ring" where
  "demo_deliver c u = u\<lparr>cq := cq u @ [c]\<rparr>"

lemma demo_completion_laws: "completion_laws demo_uring cq"
  by (auto simp: completion_laws_def demo_uring_def split: list.splits)

lemma demo_moves_run: "make_moves demo_uring demo_deliver P ms s = Some t \<Longrightarrow> (io_step demo_uring cq P)\<^sup>*\<^sup>* s t"
  by (rule make_moves_run [where deliver = demo_deliver]) (simp add: demo_deliver_def)

text \<open>The first coroutine is in the pool.\<close>

definition demo_iosys :: "'p \<Rightarrow> 'g \<Rightarrow> (demo_ring, 'p, 'g) iosys" where
  "demo_iosys p g =
     \<lparr>io_inst = (demo_instance 8 [])\<lparr>uring_pool := (case addTask 0 (new_pool 2) of Returns tp \<Rightarrow> tp | _ \<Rightarrow> new_pool 2),
        next_coro := 1\<rparr>,
      io_coros = [Queued p], io_world = g, io_bufs = (\<lambda>_. []), io_flight = {#}, io_seen = [], io_given = [],
      io_accepted = []\<rparr>"

lemma demo_iosys_starts: "io_starts cq [p] (demo_iosys p g)"
proof -
  have p: "pool_inv (new_pool 2)" by (simp add: pool_inv_new)
  have w: "waiting (new_pool 2) = {#}" by (simp add: waiting_def new_pool_def)
  obtain tp where "addTasks [0] (new_pool 2) = Returns tp" using addTasks_result [OF p] by blast
  moreover from this have "addTask 0 (new_pool 2) = Returns tp" by (cases "addTask 0 (new_pool 2)") simp_all
  ultimately have "addTasks [0..<length [p]] (new_pool 2) = Returns (uring_pool (io_inst (demo_iosys p g)))"
    by (simp add: demo_iosys_def)
  with p w show ?thesis unfolding io_starts_def
    by (auto simp: demo_iosys_def demo_instance_def)
qed

text \<open>A coroutine that sends once.\<close>

definition demo_sender :: "(bool, unit) program" where
  "demo_sender =
     \<lparr>begins = (\<lambda>p g. Some (p, g)), asks = (\<lambda>p g. if p then Some (AwaitSend 9 64 5 0) else None),
      goes_on = (\<lambda>p r g. Some (False, False, [], g)), handles = (\<lambda>f n. False)\<rparr>"

definition demo_sends :: "io_move list" where
  "demo_sends = [TakeFrom 0, GoOn 0, Complete \<lparr>user_data = 0, res = 5, cqe_flags = 0\<rparr> ''hello'', Reap, TakeFrom 0, GoOn 0]"

lemma demo_sender_run:
  obtains t where "(io_step demo_uring cq demo_sender)\<^sup>*\<^sup>* (demo_iosys True ()) t"
    and "io_coros t = [Finished False]" and "io_seen t = [(0, Inr 5, ''hello'')]"
proof -
  have "case make_moves demo_uring demo_deliver demo_sender demo_sends (demo_iosys True ()) of
      None \<Rightarrow> False
    | Some t \<Rightarrow> io_coros t = [Finished False] \<and> io_seen t = [(0, Inr 5, ''hello'')]" by code_simp
  then obtain t where "make_moves demo_uring demo_deliver demo_sender demo_sends (demo_iosys True ()) = Some t"
    "io_coros t = [Finished False]" "io_seen t = [(0, Inr 5, ''hello'')]"
    by (cases "make_moves demo_uring demo_deliver demo_sender demo_sends (demo_iosys True ())") simp_all
  then show thesis using that demo_moves_run by blast
qed

theorem every_await_gets_its_result_witness:
  "\<exists>t. io_coros t = [Finished False] \<and> results_for 0 (io_given t) = [(Inr 5, ''hello'')]
     \<and> in_pool 0 (t :: (demo_ring, bool, unit) iosys) = 0"
proof -
  obtain t where t: "(io_step demo_uring cq demo_sender)\<^sup>*\<^sup>* (demo_iosys True ()) t"
    "io_coros t = [Finished False]" "io_seen t = [(0, Inr 5, ''hello'')]" by (rule demo_sender_run)
  from every_await_gets_its_result [OF demo_completion_laws demo_iosys_starts t(1), of 0] t(2,3)
  have "results_for 0 (io_given t) = [(Inr 5, ''hello'')] \<and> in_pool 0 t = 0" by simp
  with t(2) show ?thesis by blast
qed

end
