(* ===== verification/UringServer.thy ===== *)
theory UringServer
  imports UringSystem UringSession
begin

text \<open>
  The server \<^verbatim>\<open>demo/uringhttp.cpp\<close> on the ring: the coroutines \<^verbatim>\<open>asyncAccept\<close>, one
  \<^verbatim>\<open>clientHandle\<close> for each connection and one \<^verbatim>\<open>responseHandler\<close> for each request, as programs of
  \<open>UringSystem\<close>.  They share the file cache and the rest of the process.

  What a session does with an event is \<open>usession_step\<close>; here the events are what the ring gives the coroutine that
  waits for them, in any interleaving with all others.
\<close>

subsection \<open>The coroutines\<close>

datatype uprog =
    Acceptor
  | Client int              \<comment> \<open>\<^verbatim>\<open>clientHandle(fd)\<close> before it runs\<close>
  | Reader nat              \<comment> \<open>\<^verbatim>\<open>clientHandle\<close> of a session\<close>
  | Answerer nat nat        \<comment> \<open>a \<^verbatim>\<open>responseHandler\<close> of a session\<close>

text \<open>The events are kept for the statements only.\<close>

record 'w uclient =
  uc_fd :: int
  uc_session :: "'w usession"
  uc_events :: "uevent list"

record 'w userver =
  sv_clients :: "'w uclient list"
  sv_cache :: file_cache
  sv_world :: 'w

definition session_event ::
  "'w os \<Rightarrow> (fileCache \<Rightarrow> string) \<Rightarrow> path \<Rightarrow> nat \<Rightarrow> uevent \<Rightarrow> 'w userver \<Rightarrow> 'w userver option" where
  "session_event os content root k e g =
     (let c = sv_clients g ! k
      in case usession_step os content root e ((uc_session c)\<lparr>us_cache := sv_cache g, us_world := sv_world g\<rparr>) of
           None \<Rightarrow> None
         | Some S \<Rightarrow>
             Some (g\<lparr>sv_clients := (sv_clients g)[k := c\<lparr>uc_session := S, uc_events := uc_events c @ [e]\<rparr>],
                     sv_cache := us_cache S, sv_world := us_world S\<rparr>))"

fun server_begins ::
  "'w os \<Rightarrow> (fileCache \<Rightarrow> string) \<Rightarrow> path \<Rightarrow> uprog \<Rightarrow> 'w userver \<Rightarrow> (uprog \<times> 'w userver) option" where
  "server_begins os content root (Client n) g =
     Some (Reader (length (sv_clients g)),
       g\<lparr>sv_clients := sv_clients g @
           [\<lparr>uc_fd = n, uc_session = new_usession (asyncSocket_ctor n) (sv_cache g) (sv_world g), uc_events = []\<rparr>]\<rparr>)"
| "server_begins os content root (Answerer k i) g =
     (if snd (us_responders (uc_session (sv_clients g ! k)) ! i) = NotStarted
      then map_option (Pair (Answerer k i)) (session_event os content root k (Starts i) g)
      else Some (Answerer k i, g))"
| "server_begins os content root p g = Some (p, g)"

text \<open>\<open>addr\<close>: where the buffer and the data of a coroutine are; \<open>server\<close>: the listening socket.\<close>

fun server_asks ::
  "(fileCache \<Rightarrow> string) \<Rightarrow> socketBase \<Rightarrow> (uprog \<Rightarrow> nat) \<Rightarrow> uprog \<Rightarrow> 'w userver \<Rightarrow> io_await option" where
  "server_asks content server addr Acceptor g = Some (AwaitAccept (fd server) 0)"
| "server_asks content server addr (Client n) g = None"
| "server_asks content server addr (Reader k) g =
     (let S = uc_session (sv_clients g ! k)
      in case us_reader S of
           Reading msg \<Rightarrow> Some (AwaitRecv (fd (us_client S)) (addr (Reader k)) 1024 0)
         | SessionOver e \<Rightarrow> None)"
| "server_asks content server addr (Answerer k i) g =
     (let S = uc_session (sv_clients g ! k);
          send = (\<lambda>data. Some (AwaitSend (fd (us_client S)) (addr (Answerer k i)) (of_nat (length data)) 0))
      in case snd (us_responders S ! i) of
           SendingHeader response file \<Rightarrow> send (serialize response)
         | SendingBody response file \<Rightarrow> send (content file)
         | _ \<Rightarrow> None)"

text \<open>The results as the session sees them: the bytes in the buffer, the number of bytes that were taken.\<close>

definition recv_reply :: "reply \<Rightarrow> recv_result" where
  "recv_reply r = map_sum id (\<lambda>n. take (nat n) (snd r)) (fst r)"

definition send_reply :: "reply \<Rightarrow> send_result" where
  "send_reply r = map_sum id nat (fst r)"

fun server_goes_on ::
  "'w os \<Rightarrow> (fileCache \<Rightarrow> string) \<Rightarrow> path \<Rightarrow> uprog \<Rightarrow> reply \<Rightarrow> 'w userver \<Rightarrow>
     (uprog \<times> bool \<times> uprog list \<times> 'w userver) option" where
  "server_goes_on os content root Acceptor r g =
     (case accept_turn (fst r) of Returns _ \<Rightarrow> Some (Acceptor, False, [], g) | _ \<Rightarrow> None)"
| "server_goes_on os content root (Client n) r g = None"
| "server_goes_on os content root (Reader k) r g =
     (let responders = (\<lambda>g. length (us_responders (uc_session (sv_clients g ! k))))
      in case session_event os content root k (Received (recv_reply r)) g of
           None \<Rightarrow> None
         | Some g' \<Rightarrow>
             Some (Reader k, fst r = Inl (uring_error SqeBusy), map (Answerer k) [responders g..<responders g'], g'))"
| "server_goes_on os content root (Answerer k i) r g =
     map_option (\<lambda>g'. (Answerer k i, case fst r of Inl e \<Rightarrow> try_again e | Inr _ \<Rightarrow> False, [], g'))
       (session_event os content root k (SendEnds i (send_reply r)) g)"

definition server_program ::
  "'w os \<Rightarrow> (fileCache \<Rightarrow> string) \<Rightarrow> path \<Rightarrow> socketBase \<Rightarrow> (uprog \<Rightarrow> nat) \<Rightarrow> (uprog, 'w userver) program" where
  "server_program os content root server addr =
     \<lparr>begins = server_begins os content root, asks = server_asks content server addr,
      goes_on = server_goes_on os content root, handles = (\<lambda>f n. Client n)\<rparr>"

text \<open>The server has been started: \<^verbatim>\<open>asyncAccept\<close> is in the pool and there are no clients.\<close>

definition server_starts_on :: "('u \<Rightarrow> cqe list) \<Rightarrow> ('u, uprog, 'w userver) iosys \<Rightarrow> bool" where
  "server_starts_on compl s \<longleftrightarrow> io_starts compl [Acceptor] s \<and> sv_clients (io_world s) = []"

subsection \<open>What an event changes\<close>

lemma session_event_cases:
  assumes "session_event os content root k e g = Some g'" and "k < length (sv_clients g)"
    and "usession_inv os content root (asyncSocket_ctor (uc_fd (sv_clients g ! k))) (uc_events (sv_clients g ! k))
      (uc_session (sv_clients g ! k))"
  shows "\<exists>S. sv_clients g' = (sv_clients g)[k := (sv_clients g ! k)\<lparr>uc_session := S,
        uc_events := uc_events (sv_clients g ! k) @ [e]\<rparr>] \<and>
    usession_step os content root e
      ((uc_session (sv_clients g ! k))\<lparr>us_cache := sv_cache g, us_world := sv_world g\<rparr>) = Some S \<and>
    usession_inv os content root (asyncSocket_ctor (uc_fd (sv_clients g ! k))) (uc_events (sv_clients g ! k) @ [e]) S"
proof -
  let ?c = "sv_clients g ! k"
  let ?S = "(uc_session ?c)\<lparr>us_cache := sv_cache g, us_world := sv_world g\<rparr>"
  obtain S where s: "usession_step os content root e ?S = Some S"
    "g' = g\<lparr>sv_clients := (sv_clients g)[k := ?c\<lparr>uc_session := S, uc_events := uc_events ?c @ [e]\<rparr>],
       sv_cache := us_cache S, sv_world := us_world S\<rparr>"
    using assms(1) by (auto simp: session_event_def Let_def split: option.splits)
  have "usession_inv os content root (asyncSocket_ctor (uc_fd ?c)) (uc_events ?c) ?S"
    using assms(3) by (simp add: usession_inv_def)
  from usession_inv_step [OF this s(1)] s show ?thesis by auto
qed

lemma responders_kept:
  assumes "usession_step os content root e s = Some s'"
  shows "length (us_responders s') = length (us_responders s) + (case e of Received r \<Rightarrow> length (us_responders s') - length (us_responders s) | _ \<Rightarrow> 0)"
    and "length (us_responders s) \<le> length (us_responders s')"
proof -
  show l: "length (us_responders s) \<le> length (us_responders s')"
    using assms by (cases e) (auto simp: session_received_def responder_starts_def split: session_state.splits prod.splits sum.splits
        outcome.splits option.splits if_splits)
  show "length (us_responders s') = length (us_responders s) + (case e of Received r \<Rightarrow> length (us_responders s') - length (us_responders s) | _ \<Rightarrow> 0)"
    using assms l by (cases e) (auto simp: responder_starts_def split: prod.splits outcome.splits option.splits if_splits)
qed

subsection \<open>The invariant\<close>

text \<open>Every session and every responder is run by one coroutine.\<close>

definition runs_session :: "uprog \<Rightarrow> bool" where
  "runs_session p \<longleftrightarrow> (case p of Reader k \<Rightarrow> True | Answerer k i \<Rightarrow> True | _ \<Rightarrow> False)"

definition runners :: "uprog iostate list \<Rightarrow> uprog list" where
  "runners cs = filter runs_session (map prog_of cs)"

definition to_run :: "'w userver \<Rightarrow> uprog set" where
  "to_run g = {Reader k | k. k < length (sv_clients g)} \<union>
     {Answerer k i | k i. k < length (sv_clients g) \<and> i < length (us_responders (uc_session (sv_clients g ! k)))}"

text \<open>The descriptors of the coroutines that have not begun.\<close>

definition to_begin :: "uprog iostate list \<Rightarrow> int list" where
  "to_begin cs = concat (map (\<lambda>c. case prog_of c of Client n \<Rightarrow> [n] | _ \<Rightarrow> []) cs)"

text \<open>The results a coroutine has seen are those of the events it caused.\<close>

fun heard :: "uprog \<Rightarrow> reply list \<Rightarrow> 'w userver \<Rightarrow> bool" where
  "heard (Reader k) rs g \<longleftrightarrow> receipts (uc_events (sv_clients g ! k)) = map recv_reply rs"
| "heard (Answerer k i) rs g \<longleftrightarrow> results_of i (uc_events (sv_clients g ! k)) = map send_reply rs"
| "heard (Client n) rs g \<longleftrightarrow> rs = []"
| "heard Acceptor rs g \<longleftrightarrow> True"

definition sessions_ok :: "'w os \<Rightarrow> (fileCache \<Rightarrow> string) \<Rightarrow> path \<Rightarrow> 'w userver \<Rightarrow> bool" where
  "sessions_ok os content root g \<longleftrightarrow>
     (\<forall>c \<in> set (sv_clients g). usession_inv os content root (asyncSocket_ctor (uc_fd c)) (uc_events c) (uc_session c))"

definition server_inv ::
  "'w os \<Rightarrow> (fileCache \<Rightarrow> string) \<Rightarrow> path \<Rightarrow> uprog iostate list \<Rightarrow> 'w userver \<Rightarrow> (nat \<times> reply) list \<Rightarrow>
     (hnd \<times> nat \<times> int) list \<Rightarrow> bool" where
  "server_inv os content root cs g sn hc \<longleftrightarrow>
     sessions_ok os content root g
     \<and> distinct (runners cs) \<and> set (runners cs) = to_run g
     \<and> (\<forall>j < length cs. heard (prog_of (cs ! j)) (results_for j sn) g)
     \<and> (\<forall>x \<in> set sn. fst x < length cs)
     \<and> mset (map uc_fd (sv_clients g)) + mset (to_begin cs) = mset (map (\<lambda>(_, _, n). n) hc)"

lemma server_invD:
  assumes "server_inv os content root cs g sn hc"
  shows "sessions_ok os content root g" and "distinct (runners cs)" and "set (runners cs) = to_run g"
    and "j < length cs \<Longrightarrow> heard (prog_of (cs ! j)) (results_for j sn) g" and "\<forall>x \<in> set sn. fst x < length cs"
    and "mset (map uc_fd (sv_clients g)) + mset (to_begin cs) = mset (map (\<lambda>(_, _, n). n) hc)"
  using assms unfolding server_inv_def by blast+

lemma progs_update:
  assumes "j < length cs" and "prog_of c = prog_of (cs ! j)"
  shows "map prog_of (cs[j := c]) = map prog_of cs"
  using assms by (simp add: map_update) (metis list_update_id nth_map)

lemma runners_append [simp]: "runners (cs @ ds) = runners cs @ runners ds"
  by (simp add: runners_def)

lemma to_begin_append [simp]: "to_begin (cs @ ds) = to_begin cs @ to_begin ds"
  by (simp add: to_begin_def)

lemma runners_update: "j < length cs \<Longrightarrow> prog_of c = prog_of (cs ! j) \<Longrightarrow> runners (cs[j := c]) = runners cs"
  by (simp add: runners_def progs_update)

lemma to_begin_update:
  assumes "j < length cs" and "prog_of c = prog_of (cs ! j)"
  shows "to_begin (cs[j := c]) = to_begin cs"
proof -
  have e: "to_begin xs = concat (map (\<lambda>p. case p of Client n \<Rightarrow> [n] | _ \<Rightarrow> []) (map prog_of xs))" for xs
    by (simp add: to_begin_def comp_def)
  show ?thesis unfolding e progs_update [OF assms] by (rule refl)
qed

lemma heard_frame: "j < length cs \<Longrightarrow> prog_of c = prog_of (cs ! j) \<Longrightarrow> prog_of (cs[j := c] ! i) = prog_of (cs ! i)"
  by (cases "i = j") simp_all

lemma results_beyond: "\<forall>x \<in> set sn. fst x < n \<Longrightarrow> n \<le> i \<Longrightarrow> results_for i sn = []"
  by (auto simp: results_for_def filter_empty_conv)

lemma runs_what_there_is:
  assumes "server_inv os content root cs g sn hc" and "j < length cs" and "runs_session (prog_of (cs ! j))"
  shows "prog_of (cs ! j) \<in> to_run g"
proof -
  have "prog_of (cs ! j) \<in> set (runners cs)" using assms(2,3) by (auto simp: runners_def)
  then show ?thesis using server_invD(3) [OF assms(1)] by simp
qed

lemma run_by_one:
  assumes "distinct (runners cs)" and "i < length cs" and "j < length cs" and "prog_of (cs ! i) = prog_of (cs ! j)"
    and "runs_session (prog_of (cs ! j))"
  shows "i = j"
proof (rule ccontr)
  assume n: "i \<noteq> j"
  have two: "\<not> distinct (runners cs)" if "a < b" "b < length cs" "prog_of (cs ! a) = p" "prog_of (cs ! b) = p" "runs_session p" for a b p
  proof -
    have "cs = take b cs @ cs ! b # drop (Suc b) cs" using that(2) by (rule id_take_nth_drop)
    then have "runners cs = runners (take b cs) @ runners (cs ! b # drop (Suc b) cs)" by (metis runners_append)
    moreover have "p \<in> set (runners (cs ! b # drop (Suc b) cs))" using that by (simp add: runners_def)
    moreover have "p \<in> set (runners (take b cs))"
    proof -
      have "cs ! a \<in> set (take b cs)" using that(1,2) by (auto simp: in_set_conv_nth)
      then show ?thesis using that(3,5) by (force simp: runners_def)
    qed
    ultimately show ?thesis by auto
  qed
  show False using two [of i j "prog_of (cs ! j)"] two [of j i "prog_of (cs ! j)"] assms n
    by (cases "i < j") simp_all
qed

subsection \<open>Every coroutine keeps the invariant\<close>

text \<open>An event of session \<open>k\<close> that coroutine \<open>j\<close> causes; new responders get coroutines at the end.\<close>

lemma server_inv_event:
  assumes inv: "server_inv os content root cs g sn hc" and j: "j < length cs" and k: "k < length (sv_clients g)"
    and c: "prog_of c = prog_of (cs ! j)" "runs_session (prog_of (cs ! j))"
    and ev: "session_event os content root k e g = Some g'"
    and n: "n = length (us_responders (uc_session (sv_clients g ! k)))"
      "n' = length (us_responders (uc_session (sv_clients g' ! k)))"
    and others: "Reader k \<noteq> prog_of (cs ! j) \<Longrightarrow> receipts [e] = []"
      "\<And>i. Answerer k i \<noteq> prog_of (cs ! j) \<Longrightarrow> results_of i [e] = []"
    and mine: "heard (prog_of (cs ! j)) (results_for j (sn @ rs)) g'" and rs: "\<forall>x \<in> set rs. fst x = j"
  shows "server_inv os content root (cs[j := c] @ map Queued (map (Answerer k) [n..<n'])) g' (sn @ rs) hc"
proof -
  let ?cs = "cs[j := c] @ map Queued (map (Answerer k) [n..<n'])"
  note i = server_invD [OF inv]
  let ?c = "sv_clients g ! k"
  have uk: "usession_inv os content root (asyncSocket_ctor (uc_fd ?c)) (uc_events ?c) (uc_session ?c)"
    using i(1) k by (simp add: sessions_ok_def)
  from session_event_cases [OF ev k uk] obtain S where
    g': "sv_clients g' = (sv_clients g)[k := ?c\<lparr>uc_session := S, uc_events := uc_events ?c @ [e]\<rparr>]"
    and S: "usession_step os content root e ((uc_session ?c)\<lparr>us_cache := sv_cache g, us_world := sv_world g\<rparr>) = Some S"
      "usession_inv os content root (asyncSocket_ctor (uc_fd ?c)) (uc_events ?c @ [e]) S" by blast
  have le: "n \<le> n'" using responders_kept(2) [OF S(1)] n k g' by simp
  have evs: "uc_events (sv_clients g' ! m) = uc_events (sv_clients g ! m) @ (if m = k then [e] else [])"
    if "m < length (sv_clients g)" for m using g' that by (simp add: nth_list_update)
  have rsp: "length (us_responders (uc_session (sv_clients g' ! m))) =
      (if m = k then n' else length (us_responders (uc_session (sv_clients g ! m))))" for m
    using n(2) g' by (cases "m = k") simp_all
  have run: "to_run g' = to_run g \<union> Answerer k ` {n..<n'}"
  proof -
    have "p \<in> to_run g' \<longleftrightarrow> p \<in> to_run g \<union> Answerer k ` {n..<n'}" for p
      using le k n(1) unfolding to_run_def
      by (cases p) (auto simp: g' rsp [unfolded g'] image_iff)
    then show ?thesis by blast
  qed
  have q: "runners (map Queued (map (Answerer k) [n..<n'])) = map (Answerer k) [n..<n']"
    by (simp add: runners_def runs_session_def comp_def filter_id_conv)
  show ?thesis unfolding server_inv_def
  proof (intro conjI)
    show "sessions_ok os content root g'"
      using i(1) S(2) unfolding sessions_ok_def g' by (auto dest!: set_update_subset_insert [THEN subsetD])
    have "to_run g \<inter> Answerer k ` {n..<n'} = {}" using n(1) by (auto simp: to_run_def)
    then show "distinct (runners ?cs)"
      using i(2,3) unfolding runners_append q runners_update [OF j c(1)] by (auto simp: distinct_map inj_on_def)
    show "set (runners ?cs) = to_run g'"
      unfolding runners_append q runners_update [OF j c(1)] run using i(3) by simp
    show "\<forall>x \<in> set (sn @ rs). fst x < length ?cs" using i(5) rs j by auto
    have "to_begin (map Queued (map (Answerer k) [n..<n'])) = []" by (simp add: to_begin_def)
    moreover have "map uc_fd (sv_clients g') = map uc_fd (sv_clients g)"
      unfolding g' using k by (simp add: map_update) (metis list_update_id nth_map)
    ultimately show "mset (map uc_fd (sv_clients g')) + mset (to_begin ?cs) = mset (map (\<lambda>(_, _, n). n) hc)"
      using i(6) by (simp add: to_begin_update [OF j c(1)])
    show "\<forall>m < length ?cs. heard (prog_of (?cs ! m)) (results_for m (sn @ rs)) g'"
    proof (intro allI impI)
      fix m assume m: "m < length ?cs"
      consider (own) "m = j" | (old) "m \<noteq> j" "m < length cs" | (fresh) "length cs \<le> m" "m - length cs < n' - n"
        using m by fastforce
      then show "heard (prog_of (?cs ! m)) (results_for m (sn @ rs)) g'"
      proof cases
        case own
        then show ?thesis using mine j c(1) by (simp add: nth_append)
      next
        case old
        have r: "results_for m rs = []" using rs old(1) by (auto simp: results_for_def filter_empty_conv)
        have p: "prog_of (?cs ! m) = prog_of (cs ! m)" using old by (simp add: nth_append)
        have "prog_of (cs ! m) \<noteq> prog_of (cs ! j) \<or> \<not> runs_session (prog_of (cs ! m))"
          using run_by_one [OF i(2) old(2) j] c(2) old(1) by auto
        then have "heard (prog_of (cs ! m)) (results_for m sn) g'"
          using i(4) [OF old(2)] runs_what_there_is [OF inv old(2)] others
          by (cases "prog_of (cs ! m)") (auto simp: to_run_def runs_session_def evs)
        then show ?thesis unfolding p results_for_append r by simp
      next
        case fresh
        define x where "x = m - length cs"
        have "results_for m (sn @ rs) = []"
          using fresh i(5) rs j by (intro results_beyond [of _ "length cs"]) auto
        moreover have "prog_of (?cs ! m) = Answerer k (n + x)" using fresh by (simp add: nth_append x_def)
        moreover have "results_of (n + x) (uc_events ?c) = []"
          using uk n(1) by (intro results_none) (auto simp: usession_inv_def)
        moreover have "results_of (n + x) [e] = []"
        proof (rule others(2))
          show "Answerer k (n + x) \<noteq> prog_of (cs ! j)"
            using runs_what_there_is [OF inv j c(2)] n(1) by (auto simp: to_run_def)
        qed
        ultimately show ?thesis using evs [OF k] by simp
      qed
    qed
  qed
qed

text \<open>A step that does not reach the sessions.\<close>

lemma server_inv_frame:
  assumes "server_inv os content root cs g sn hc" and "j < length cs" and "prog_of c = prog_of (cs ! j)"
    and "heard (prog_of (cs ! j)) (results_for j (sn @ rs)) g" and "\<forall>x \<in> set rs. fst x = j"
  shows "server_inv os content root (cs[j := c]) g (sn @ rs) hc"
proof -
  note i = server_invD [OF assms(1)]
  have h: "heard (prog_of (cs[j := c] ! m)) (results_for m (sn @ rs)) g" if "m < length cs" for m
  proof (cases "m = j")
    case True
    then show ?thesis using assms(2,3,4) by simp
  next
    case False
    then have "results_for m rs = []" using assms(5) by (auto simp: results_for_def filter_empty_conv)
    then show ?thesis using i(4) [OF that] False by simp
  qed
  have "\<forall>x \<in> set (sn @ rs). fst x < length cs" using i(5) assms(2,5) by auto
  with h show ?thesis using i
    by (simp add: server_inv_def runners_update [OF assms(2,3)] to_begin_update [OF assms(2,3)])
qed

lemma server_inv_begins:
  assumes inv: "server_inv os content root cs g sn hc" and j: "j < length cs" and q: "cs ! j = Queued p"
    and b: "server_begins os content root p g = Some (q, g')"
  shows "server_inv os content root (cs[j := Acts q]) g' sn hc"
proof -
  note i = server_invD [OF inv]
  have stay: "server_inv os content root (cs[j := Acts p]) g sn hc"
    using server_inv_frame [OF inv j, of "Acts p" "[]"] i(4) [OF j] q by simp
  show ?thesis
  proof (cases p)
    case (Answerer k a)
    have t: "Answerer k a \<in> to_run g" using runs_what_there_is [OF inv j] q Answerer by (simp add: runs_session_def)
    show ?thesis
    proof (cases "snd (us_responders (uc_session (sv_clients g ! k)) ! a) = NotStarted")
      case False
      then show ?thesis using stay b Answerer by simp
    next
      case True
      then have e: "session_event os content root k (Starts a) g = Some g'" "q = p" using b Answerer by auto
      have k: "k < length (sv_clients g)" using t by (auto simp: to_run_def)
      have uk: "usession_inv os content root (asyncSocket_ctor (uc_fd (sv_clients g ! k))) (uc_events (sv_clients g ! k))
          (uc_session (sv_clients g ! k))" using i(1) k by (simp add: sessions_ok_def)
      from session_event_cases [OF e(1) k uk] obtain S where
        g': "sv_clients g' = (sv_clients g)[k := (sv_clients g ! k)\<lparr>uc_session := S,
          uc_events := uc_events (sv_clients g ! k) @ [Starts a]\<rparr>]"
        and S: "usession_step os content root (Starts a)
          ((uc_session (sv_clients g ! k))\<lparr>us_cache := sv_cache g, us_world := sv_world g\<rparr>) = Some S" by blast
      let ?n = "length (us_responders (uc_session (sv_clients g ! k)))"
      have n: "length (us_responders (uc_session (sv_clients g' ! k))) = ?n"
        using responders_kept(1) [OF S] k by (simp add: g')
      have "heard p (results_for j (sn @ [])) g'"
        using i(4) [OF j] q Answerer k by (simp add: g')
      then have "server_inv os content root (cs[j := Acts p] @ map Queued (map (Answerer k) [?n..<?n])) g' (sn @ []) hc"
        using n q Answerer by (intro server_inv_event [OF inv j k _ _ e(1)]) (simp_all add: runs_session_def)
      then show ?thesis by (simp add: e(2))
    qed
  next
    case (Client m)
    let ?k = "length (sv_clients g)"
    let ?c = "\<lparr>uc_fd = m, uc_session = new_usession (asyncSocket_ctor m) (sv_cache g) (sv_world g), uc_events = []\<rparr>"
    have g': "q = Reader ?k" "sv_clients g' = sv_clients g @ [?c]" using b Client by auto
    have cs: "cs = take j cs @ Queued (Client m) # drop (Suc j) cs"
      using id_take_nth_drop [OF j] q Client by simp
    have upd: "cs[j := Acts q] = take j cs @ Acts q # drop (Suc j) cs" using j by (rule upd_conv_take_nth_drop)
    have "runners cs = runners (take j cs) @ runners (drop (Suc j) cs)"
      by (subst cs) (simp add: runners_def runs_session_def)
    moreover have "runners (cs[j := Acts q]) = runners (take j cs) @ Reader ?k # runners (drop (Suc j) cs)"
      unfolding upd by (simp add: runners_def runs_session_def g'(1))
    ultimately have r: "mset (runners (cs[j := Acts q])) = add_mset (Reader ?k) (mset (runners cs))" by simp
    have new: "Reader ?k \<notin> set (runners cs)" unfolding i(3) by (auto simp: to_run_def)
    have tb: "mset (to_begin cs) = add_mset m (mset (to_begin (cs[j := Acts q])))"
      unfolding upd by (subst cs) (simp add: to_begin_def g'(1))
    show ?thesis unfolding server_inv_def
    proof (intro conjI)
      show "sessions_ok os content root g'"
        using i(1) usession_inv_new by (auto simp: sessions_ok_def g'(2))
      have "distinct (runners (cs[j := Acts q])) = distinct (Reader ?k # runners cs)"
        using r by (intro mset_eq_imp_distinct_iff) simp
      then show "distinct (runners (cs[j := Acts q]))" using new i(2) by simp
      have "set (runners (cs[j := Acts q])) = insert (Reader ?k) (set (runners cs))"
        using arg_cong [OF r, of set_mset] by simp
      also have "\<dots> = to_run g'"
        unfolding i(3) by (auto simp: to_run_def g'(2) nth_append new_usession_def less_Suc_eq)
      finally show "set (runners (cs[j := Acts q])) = to_run g'" .
      show "\<forall>x \<in> set sn. fst x < length (cs[j := Acts q])" using i(5) by simp
      show "mset (map uc_fd (sv_clients g')) + mset (to_begin (cs[j := Acts q])) = mset (map (\<lambda>(_, _, n). n) hc)"
        using i(6) tb by (simp add: g'(2))
      show "\<forall>a < length (cs[j := Acts q]). heard (prog_of (cs[j := Acts q] ! a)) (results_for a sn) g'"
      proof (intro allI impI)
        fix a assume a: "a < length (cs[j := Acts q])"
        show "heard (prog_of (cs[j := Acts q] ! a)) (results_for a sn) g'"
        proof (cases "a = j")
          case True
          have "results_for j sn = []" using i(4) [OF j] q Client by simp
          then show ?thesis using True j by (simp add: g' nth_append receipts_def)
        next
          case False
          then have "heard (prog_of (cs ! a)) (results_for a sn) g" using a i(4) by simp
          then show ?thesis using False a runs_what_there_is [OF inv, of a]
            by (cases "prog_of (cs ! a)") (auto simp: g'(2) nth_append to_run_def runs_session_def)
        qed
      qed
    qed
  qed (use stay b in simp_all)
qed

lemma server_inv_goes_on:
  assumes inv: "server_inv os content root cs g sn hc" and j: "j < length cs" and p: "prog_of (cs ! j) = p"
    and go: "server_goes_on os content root p r g = Some (q, yields, new, g')"
  shows "server_inv os content root (cs[j := if yields then Queued q else Acts q] @ map Queued new) g' (sn @ [(j, r)]) hc"
proof -
  note i = server_invD [OF inv]
  have run: "server_inv os content root (cs[j := if yields then Queued q else Acts q] @ map Queued (map (Answerer k) [n..<n']))
      g' (sn @ [(j, r)]) hc"
    if ev: "session_event os content root k e g = Some g'" and own: "p = Reader k \<and> e = Received (recv_reply r) \<or>
        (\<exists>a. p = Answerer k a \<and> e = SendEnds a (send_reply r))" and q: "q = p"
      and n: "n = length (us_responders (uc_session (sv_clients g ! k)))"
        "n' = length (us_responders (uc_session (sv_clients g' ! k)))"
    for k e n n'
  proof -
    have "p \<in> to_run g" using runs_what_there_is [OF inv j] own p by (auto simp: runs_session_def)
    then have k: "k < length (sv_clients g)" using own by (auto simp: to_run_def)
    then have "usession_inv os content root (asyncSocket_ctor (uc_fd (sv_clients g ! k))) (uc_events (sv_clients g ! k))
        (uc_session (sv_clients g ! k))" using i(1) by (simp add: sessions_ok_def)
    from session_event_cases [OF ev k this] have "uc_events (sv_clients g' ! k) = uc_events (sv_clients g ! k) @ [e]"
      using k by auto
    then have "heard p (results_for j (sn @ [(j, r)])) g'" using own i(4) [OF j] p by auto
    then show ?thesis using own p q by (intro server_inv_event [OF inv j k _ _ ev n]) (auto simp: runs_session_def)
  qed
  show ?thesis
  proof (cases p)
    case Acceptor
    then have g: "q = p" "new = []" "g' = g" using go by (auto split: outcome.splits)
    have "server_inv os content root (cs[j := if yields then Queued q else Acts q]) g (sn @ [(j, r)]) hc"
      using p Acceptor g(1) by (intro server_inv_frame [OF inv j]) simp_all
    then show ?thesis by (simp add: g)
  next
    case (Reader k)
    then have "session_event os content root k (Received (recv_reply r)) g = Some g'" "q = p"
      "new = map (Answerer k) [length (us_responders (uc_session (sv_clients g ! k)))..<
         length (us_responders (uc_session (sv_clients g' ! k)))]"
      using go by (auto simp: Let_def split: option.splits)
    then show ?thesis using run Reader by simp
  next
    case (Answerer k a)
    then have e: "session_event os content root k (SendEnds a (send_reply r)) g = Some g'" "q = p" "new = []"
      using go by auto
    have "Answerer k a \<in> to_run g" using runs_what_there_is [OF inv j] p Answerer by (simp add: runs_session_def)
    then have k: "k < length (sv_clients g)" by (auto simp: to_run_def)
    then have "usession_inv os content root (asyncSocket_ctor (uc_fd (sv_clients g ! k))) (uc_events (sv_clients g ! k))
        (uc_session (sv_clients g ! k))" using i(1) by (simp add: sessions_ok_def)
    from session_event_cases [OF e(1) k this] have "length (us_responders (uc_session (sv_clients g' ! k))) =
        length (us_responders (uc_session (sv_clients g ! k)))"
      using k responders_kept(1) by fastforce
    then show ?thesis using run [OF e(1) _ e(2) refl refl] Answerer e(3) by simp
  qed (use go in simp)
qed

lemma server_inv_accepts:
  assumes "server_inv os content root cs g sn hc"
  shows "server_inv os content root (cs @ [Queued (Client n)]) g sn (hc @ [(h, f, n)])"
proof -
  note i = server_invD [OF assms]
  have "heard (prog_of ((cs @ [Queued (Client n)]) ! a)) (results_for a sn) g" if "a < Suc (length cs)" for a
  proof (cases "a = length cs")
    case True
    then show ?thesis using results_beyond [OF i(5)] by simp
  next
    case False
    then show ?thesis using that i(4) [of a] by (simp add: nth_append)
  qed
  then show ?thesis using i
    by (auto simp: server_inv_def runners_def runs_session_def to_begin_def intro: less_SucI)
qed

lemma server_run_inv:
  assumes "completion_laws U compl" and "server_starts_on compl s0"
    and "(io_step U compl (server_program os content root server addr))\<^sup>*\<^sup>* s0 s"
  shows "server_inv os content root (io_coros s) (io_world s) (io_seen s) (handler_calls (io_inst s))"
proof (rule io_run_programs [OF assms(1) _ assms(3), where ps = "[Acceptor]" and I = "server_inv os content root"])
  let ?P = "server_program os content root server addr"
  show "io_starts compl [Acceptor] s0" using assms(2) by (simp add: server_starts_on_def)
  show "server_inv os content root (map Queued [Acceptor]) (io_world s0) [] []"
    using assms(2)
    by (simp add: server_starts_on_def server_inv_def sessions_ok_def runners_def runs_session_def to_run_def to_begin_def)
  show "server_inv os content root (cs[j := Acts q]) g' sn hc"
    if "server_inv os content root cs g sn hc" "j < length cs" "cs ! j = Queued p" "begins ?P p g = Some (q, g')"
    for cs g sn hc j p q g'
    using that server_inv_begins by (simp add: server_program_def)
  show "server_inv os content root (cs[j := Waits p]) g sn hc"
    if "server_inv os content root cs g sn hc" "j < length cs" "cs ! j = Acts p" for cs g sn hc j p
    using server_inv_frame [OF that(1,2), of "Waits p" "[]"] server_invD(4) [OF that(1,2)] that(3) by simp
  show "server_inv os content root (cs[j := Finished p]) g sn hc"
    if "server_inv os content root cs g sn hc" "j < length cs" "cs ! j = Acts p" for cs g sn hc j p
    using server_inv_frame [OF that(1,2), of "Finished p" "[]"] server_invD(4) [OF that(1,2)] that(3) by simp
  show "server_inv os content root (cs[j := if yields then Queued q else Acts q] @ map Queued new) g' (sn @ [(j, r)]) hc"
    if "server_inv os content root cs g sn hc" "j < length cs" "cs ! j = Acts p \<or> cs ! j = Waits p"
      "goes_on ?P p r g = Some (q, yields, new, g')" for cs g sn hc j p r q yields new g'
    using that(3,4) by (intro server_inv_goes_on [OF that(1,2)]) (auto simp: server_program_def)
  show "server_inv os content root (cs @ [Queued (handles ?P f n)]) g sn (hc @ [(length cs, f, n)])"
    if "server_inv os content root cs g sn hc" for cs g sn hc f n
    using server_inv_accepts [OF that] by (simp add: server_program_def)
qed

subsection \<open>The server on the ring\<close>

lemma run_by_some:
  assumes "server_inv os content root cs g sn hc" and "p \<in> to_run g"
  obtains j where "j < length cs" and "prog_of (cs ! j) = p"
proof -
  have "p \<in> set (runners cs)" using assms server_invD(3) by blast
  then show thesis using that by (auto simp: runners_def in_set_conv_nth)
qed

lemma session_of:
  assumes "server_inv os content root cs g sn hc" and "k < length (sv_clients g)" and "sv_clients g ! k = c"
  shows "usession_inv os content root (asyncSocket_ctor (uc_fd c)) (uc_events c) (uc_session c)"
  using server_invD(1) [OF assms(1)] assms(2,3) by (auto simp: sessions_ok_def)

text \<open>
  C6: the server answers as if each request were alone.  The accept loop, all sessions and all responders
  share one ring, one pool, one cache and \<^verbatim>\<open>reapIOs\<close>.  In every interleaving, for every responder that has
  started there is one coroutine, and it has sent on its connection exactly the bytes that the whole
  \<^verbatim>\<open>responseHandler\<close> sends alone when its sends have the results that the ring gave this coroutine, and has got as
  far; these are the results the kernel gave for its own requests, at most the last one missing.
\<close>

theorem server_answers_alone:
  assumes "completion_laws U compl" and "server_starts_on compl s0"
    and "(io_step U compl (server_program os content root server addr))\<^sup>*\<^sup>* s0 s"
    and "k < length (sv_clients (io_world s))" and "sv_clients (io_world s) ! k = c"
    and "i < length (us_responders (uc_session c))" and "us_responders (uc_session c) ! i = (request, p)" and "p \<noteq> NotStarted"
  shows "\<exists>j new cache w cache' w'. prog_of (io_coros s ! j) = Answerer k i \<and> j < length (io_coros s) \<and>
    responseHandler os content root request (map send_reply (results_for j (io_seen s))) cache w =
      (Returns (sent_by i (us_wire (uc_session c)), responder_end p), cache', w') \<and>
    results_for j (io_given s) = results_for j (io_seen s) @ new \<and> length new \<le> 1"
proof -
  note inv = server_run_inv [OF assms(1-3)]
  have "Answerer k i \<in> to_run (io_world s)" using assms(4-6) by (auto simp: to_run_def)
  from run_by_some [OF inv this] obtain j where j: "j < length (io_coros s)" "prog_of (io_coros s ! j) = Answerer k i" .
  have h: "results_of i (uc_events c) = map send_reply (results_for j (io_seen s))"
    using server_invD(4) [OF inv j(1)] j(2) assms(5) by simp
  have "io_inv compl s" using io_run_inv [OF assms(1) _ assms(3)] assms(2) by (auto simp: server_starts_on_def)
  from io_progress [OF this j(1)] obtain new where
    "results_for j (io_given s) = results_for j (io_seen s) @ new" "length new \<le> 1"
    by (cases "io_coros s ! j") auto
  with usession_inv_answers [OF session_of [OF inv assms(4,5)] assms(6-8), unfolded h] j show ?thesis by blast
qed

text \<open>
  C16: every connection gets one session.  The descriptors the kernel accepted are those of the sessions, those of
  the coroutines that have not begun, and those whose completions are in the ring, each as often; and each
  session is run by one coroutine, which has handed over exactly the requests that \<^verbatim>\<open>clientHandle\<close> hands over
  alone when its receives give what the ring gave this coroutine.
\<close>

theorem every_connection_gets_a_session:
  assumes "completion_laws U compl" and "server_starts_on compl s0"
    and "(io_step U compl (server_program os content root server addr))\<^sup>*\<^sup>* s0 s"
  shows "mset (io_accepted s) = mset (map uc_fd (sv_clients (io_world s))) + mset (to_begin (io_coros s)) + mset (to_handle compl s)
    \<and> (\<forall>k < length (sv_clients (io_world s)). \<exists>j < length (io_coros s). prog_of (io_coros s ! j) = Reader k \<and>
        map fst (us_responders (uc_session (sv_clients (io_world s) ! k))) =
          fst (clientHandle (map recv_reply (results_for j (io_seen s))) (asyncSocket_ctor (uc_fd (sv_clients (io_world s) ! k)))))"
proof (intro conjI allI impI)
  note inv = server_run_inv [OF assms(1-3)]
  have "accepts_ok compl s" using io_run_accepts [OF assms(1) _ assms(3)] assms(2) by (auto simp: server_starts_on_def)
  then show "mset (io_accepted s) =
      mset (map uc_fd (sv_clients (io_world s))) + mset (to_begin (io_coros s)) + mset (to_handle compl s)"
    using server_invD(6) [OF inv] by (simp add: accepts_ok_def)
  fix k assume k: "k < length (sv_clients (io_world s))"
  let ?c = "sv_clients (io_world s) ! k"
  have "Reader k \<in> to_run (io_world s)" using k by (simp add: to_run_def)
  from run_by_some [OF inv this] obtain j where j: "j < length (io_coros s)" "prog_of (io_coros s ! j) = Reader k" .
  have "receipts (uc_events ?c) = map recv_reply (results_for j (io_seen s))"
    using server_invD(4) [OF inv j(1)] j(2) by simp
  then show "\<exists>j < length (io_coros s). prog_of (io_coros s ! j) = Reader k \<and>
      map fst (us_responders (uc_session ?c)) =
        fst (clientHandle (map recv_reply (results_for j (io_seen s))) (asyncSocket_ctor (uc_fd ?c)))"
    using j usession_inv_requests [OF session_of [OF inv k refl]] by metis
qed

subsection \<open>Witnesses\<close>

definition demo_userver :: "int list userver" where
  "demo_userver = \<lparr>sv_clients = [], sv_cache = new_lruCache 2 new_fileCache, sv_world = []\<rparr>"

definition demo_server :: "(uprog, int list userver) program" where
  "demo_server = server_program demo_os (\<lambda>f. []) ''/'' \<lparr>fd = 3\<rparr> (\<lambda>_. 64)"

text \<open>A connection is accepted, it sends a malformed request, and gets its answer while the session reads on.\<close>

definition demo_moves :: "io_move list" where
  "demo_moves = [TakeFrom 0, GoOn 0, Complete \<lparr>user_data = 0, res = 9, cqe_flags = 2\<rparr> [], Reap,
     TakeFrom 1, GoOn 1, Complete \<lparr>user_data = 1, res = 5, cqe_flags = 0\<rparr> (''X'' @ crlf2), Reap,
     TakeFrom 1, TakeFrom 0, GoOn 2,
     Complete \<lparr>user_data = 2, res = 500, cqe_flags = 0\<rparr> (replicate 500 CHR ''x''), Reap, TakeFrom 0, GoOn 2]"

definition demo_done :: "(demo_ring, uprog, int list userver) iosys \<Rightarrow> bool" where
  "demo_done t \<longleftrightarrow>
     io_accepted t = [9] \<and> map uc_fd (sv_clients (io_world t)) = [9]
     \<and> map snd (us_responders (uc_session (sv_clients (io_world t) ! 0))) = [Over Sent]
     \<and> sent_by 0 (us_wire (uc_session (sv_clients (io_world t) ! 0))) = badRequestResponse"

lemma demo_server_run:
  obtains t where "(io_step demo_uring cq (server_program demo_os (\<lambda>f. []) ''/'' \<lparr>fd = 3\<rparr> (\<lambda>_. 64)))\<^sup>*\<^sup>*
      (demo_iosys Acceptor demo_userver) t" and "demo_done t"
proof -
  let ?r = "make_moves demo_uring demo_deliver demo_server demo_moves (demo_iosys Acceptor demo_userver)"
  have "case ?r of None \<Rightarrow> False | Some t \<Rightarrow> demo_done t" by code_simp
  then obtain t where "?r = Some t" "demo_done t" by (cases ?r) simp_all
  then show thesis using that demo_moves_run unfolding demo_server_def by blast
qed

lemma demo_server_starts: "server_starts_on cq (demo_iosys Acceptor demo_userver)"
proof -
  have "sv_clients (io_world (demo_iosys Acceptor demo_userver)) = []" by (simp add: demo_iosys_def demo_userver_def)
  then show ?thesis using demo_iosys_starts by (simp add: server_starts_on_def)
qed

theorem server_answers_alone_witness:
  "\<exists>rq rs cache w cache' w'. responseHandler demo_os (\<lambda>f. []) ''/'' rq (map send_reply rs) cache w =
     (Returns (badRequestResponse, Sent), cache', w')"
proof -
  obtain t where t: "(io_step demo_uring cq (server_program demo_os (\<lambda>f. []) ''/'' \<lparr>fd = 3\<rparr> (\<lambda>_. 64)))\<^sup>*\<^sup>*
      (demo_iosys Acceptor demo_userver) t" and d: "demo_done t" by (rule demo_server_run)
  let ?c = "sv_clients (io_world t) ! 0"
  have k: "0 < length (sv_clients (io_world t))" using d by (cases "sv_clients (io_world t)") (simp_all add: demo_done_def)
  obtain rq where r: "us_responders (uc_session ?c) = [(rq, Over Sent)]" using d by (auto simp: demo_done_def)
  from server_answers_alone [OF demo_completion_laws demo_server_starts t k refl, of 0 rq "Over Sent"] r d
  obtain j cache w cache' w' where "responseHandler demo_os (\<lambda>f. []) ''/'' rq (map send_reply (results_for j (io_seen t))) cache w =
     (Returns (badRequestResponse, Sent), cache', w')"
    by (auto simp: demo_done_def)
  then show ?thesis by blast
qed

theorem every_connection_gets_a_session_witness:
  "\<exists>t j. io_accepted (t :: (demo_ring, uprog, int list userver) iosys) = [9] \<and> prog_of (io_coros t ! j) = Reader 0 \<and>
     to_begin (io_coros t) = [] \<and> length (fst (clientHandle (map recv_reply (results_for j (io_seen t))) (asyncSocket_ctor 9))) = 1"
proof -
  obtain t where t: "(io_step demo_uring cq (server_program demo_os (\<lambda>f. []) ''/'' \<lparr>fd = 3\<rparr> (\<lambda>_. 64)))\<^sup>*\<^sup>*
      (demo_iosys Acceptor demo_userver) t" and d: "demo_done t" by (rule demo_server_run)
  note e = every_connection_gets_a_session [OF demo_completion_laws demo_server_starts t]
  obtain c where c: "sv_clients (io_world t) = [c]" "uc_fd c = 9" using d by (auto simp: demo_done_def)
  have "length (us_responders (uc_session c)) = 1"
    using d c by (simp add: demo_done_def) (metis length_Cons length_map list.size(3))
  with e c d show ?thesis unfolding demo_done_def
    by (simp, elim conjE exE) (metis One_nat_def length_map)
qed

end
