(* ===== verification/EpollHttp.thy ===== *)
theory EpollHttp
  imports UringHttp
begin

text \<open>
  The two servers on epoll: the web server \<^verbatim>\<open>demo/httptest.cpp\<close> and the echo server
  \<^verbatim>\<open>demo/epolltest.cpp\<close>.  As for the io_uring server, the results of the reads and sends are given
  as sequences, and a coroutine that has used them up is still waiting.
\<close>

subsection \<open>The session of the web server\<close>

text \<open>
  The inner loop of \<^verbatim>\<open>httpHandle\<close>: the request of one turn (none when the session ends) and the
  remaining results of \<^verbatim>\<open>readRequest\<close>.
\<close>

fun epoll_read_phase ::
  "(error_code + string) list \<Rightarrow> (httpRequest option \<times> (error_code + string) list) option" where
  "epoll_read_phase [] = None"
| "epoll_read_phase (r # rs) =
     (let request = new_httpRequest\<lparr>status := OK\<rparr>
      in case r of
           Inl e \<Rightarrow>
             if e = socket_error EofError \<or> e = generic_error ECONNRESET then Some (None, rs)
             else if e = http_error UNCOMPLETED_REQUEST then epoll_read_phase rs
             else Some (Some (request\<lparr>status := INTERNAL_SERVER_ERROR\<rparr>), rs)
         | Inr requestStr \<Rightarrow> Some (Some (snd (parseResquest request requestStr)), rs))"

lemma epoll_read_phase_consumes: "epoll_read_phase rs = Some (q, rs') \<Longrightarrow> length rs' < length rs"
  by (induction rs) (auto simp: Let_def split: sum.splits if_splits)

text \<open>The requests handed to a \<^verbatim>\<open>responseHandler\<close>, and whether the session has ended.\<close>

function httpHandle :: "(error_code + string) list \<Rightarrow> httpRequest list \<times> bool" where
  "httpHandle rs =
     (case epoll_read_phase rs of
        None \<Rightarrow> ([], False)
      | Some (None, rs') \<Rightarrow> ([], True)
      | Some (Some request, rs') \<Rightarrow>
          if closeSession request then ([request], True)
          else (case httpHandle rs' of (reqs, ended) \<Rightarrow> (request # reqs, ended)))"
  by pat_completeness auto
termination
  by (relation "measure length") (auto dest: epoll_read_phase_consumes)

declare httpHandle.simps [simp del]

subsection \<open>Answering with a file\<close>

datatype open_end = Opened | OpenFailed | OpenThrows exc | OpenUndefined | OpenWaits

definition open_again :: "error_code \<Rightarrow> bool" where
  "open_again e \<longleftrightarrow> e = generic_error EMFILE \<or> e = generic_error ENFILE"

text \<open>The loop that opens the file, with a bound on the turns.\<close>

fun open_loop :: "'w os \<Rightarrow> path \<Rightarrow> nat \<Rightarrow> regularFile \<Rightarrow> 'w \<Rightarrow> open_end \<times> regularFile \<times> 'w" where
  "open_loop os p 0 f w = (OpenWaits, f, w)"
| "open_loop os p (Suc n) f w =
     (case regularFile_open os p f w of
        (Returns (Inr _), f, w) \<Rightarrow> (Opened, f, w)
      | (Returns (Inl e), f, w) \<Rightarrow> if open_again e then open_loop os p n f w else (OpenFailed, f, w)
      | (Throws e, f, w) \<Rightarrow> (OpenThrows e, f, w)
      | (Undefined, f, w) \<Rightarrow> (OpenUndefined, f, w))"

text \<open>
  The loop that sends the file: it maps the file in every turn and unmaps it when it ends.  \<open>mem\<close> is
  the memory at an address.  The number of bytes the kernel takes is its own; the size it is offered,
  \<open>send_count\<close> of the size of the file, only bounds it: the size is narrowed to the \<^verbatim>\<open>int\<close> parameter of
  \<^verbatim>\<open>reactorSocket::send\<close> and widened again for the system call.
\<close>

definition send_count :: "64 word \<Rightarrow> nat" where
  "send_count sz = unat (scast (ucast sz :: 32 word) :: 64 word)"

definition takes_offered :: "64 word \<Rightarrow> send_result list \<Rightarrow> bool" where
  "takes_offered sz rs \<longleftrightarrow> (\<forall>n. Inr n \<in> set rs \<longrightarrow> n \<le> send_count sz)"

definition send_again :: "error_code \<Rightarrow> bool" where
  "send_again e \<longleftrightarrow> e = generic_error EAGAIN \<or> e = generic_error ENODATA"

definition unmap :: "'w os \<Rightarrow> nat option \<Rightarrow> 64 word \<Rightarrow> 'w \<Rightarrow> 'w" where
  "unmap os fileMem n w = (case fileMem of None \<Rightarrow> w | Some a \<Rightarrow> os_munmap os a n w)"

fun map_send_loop ::
  "'w os \<Rightarrow> (nat option \<Rightarrow> string) \<Rightarrow> regularFile \<Rightarrow> send_result list \<Rightarrow> 'w \<Rightarrow> string \<times> send_end \<times> 'w" where
  "map_send_loop os mem f [] w = ([], SendWaits, w)"
| "map_send_loop os mem f (r # rs) w =
     (let sendBytes = 0;
          (fileMem, w) = os_mmap os (rf_size f) (rf_fd f) w
      in case r of
           Inl e \<Rightarrow>
             if send_again e then map_send_loop os mem f rs w
             else ([], SendFailed, unmap os fileMem (rf_size f) w)
         | Inr n \<Rightarrow>
             (let taken = take n (drop sendBytes (mem fileMem)); sendBytes = sendBytes + n
              in if unat (rf_size f) \<le> sendBytes then (taken, Sent, unmap os fileMem (rf_size f) w)
                 else (case map_send_loop os mem f rs w of (wire, e, w) \<Rightarrow> (taken @ wire, e, w))))"

text \<open>
  The header goes out as in the io_uring server, but the errors that are tried again are those of a
  reactor socket.
\<close>

fun epoll_header_loop :: "string \<Rightarrow> send_result list \<Rightarrow> string \<times> send_end \<times> send_result list" where
  "epoll_header_loop responseStr [] = ([], SendWaits, [])"
| "epoll_header_loop responseStr (r # rs) =
     (let sendData = responseStr
      in case r of
           Inl e \<Rightarrow> if send_again e then epoll_header_loop responseStr rs else ([], SendFailed, rs)
         | Inr n \<Rightarrow>
             (let taken = take n sendData; sendData = sv_remove_prefix n sendData
              in if sendData = [] then (taken, Sent, rs)
                 else (case epoll_header_loop responseStr rs of (wire, q) \<Rightarrow> (taken @ wire, q))))"

text \<open>
  The whole responder; \<open>corked\<close> is the state it leaves \<^verbatim>\<open>TCP_CORK\<close> in, and \<open>n\<close> bounds the
  turns of the loop that opens the file.  The file is destroyed when the coroutine returns.
\<close>

record answer =
  sent_bytes :: string
  answer_end :: send_end
  corked :: bool

definition epoll_responseHandler ::
  "'w os \<Rightarrow> (nat option \<Rightarrow> string) \<Rightarrow> path \<Rightarrow> nat \<Rightarrow> httpRequest \<Rightarrow> send_result list \<Rightarrow> 'w \<Rightarrow> answer outcome \<times> 'w" where
  "epoll_responseHandler os mem webroot n request rs w =
     (case httpResponse_ctor request webroot of
        Inl e \<Rightarrow> (Throws e, w)
      | Inr response \<Rightarrow>
          (case epoll_header_loop (serialize response) rs of
             (out, Sent, rs) \<Rightarrow>
               if req_method response = HEAD \<or> status response \<noteq> OK
               then (Returns \<lparr>sent_bytes = out, answer_end = Sent, corked = True\<rparr>, w)
               else
                 (case open_loop os (resp_uri response) n new_regularFile w of
                    (Opened, file, w) \<Rightarrow>
                      (case map_send_loop os mem file rs w of
                         (out2, SendWaits, w) \<Rightarrow>
                           (Returns \<lparr>sent_bytes = out @ out2, answer_end = SendWaits, corked = True\<rparr>, w)
                       | (out2, e, w) \<Rightarrow>
                           (Returns \<lparr>sent_bytes = out @ out2, answer_end = e, corked = (e \<noteq> Sent)\<rparr>,
                            regularFile_destroy os file w))
                  | (OpenWaits, file, w) \<Rightarrow> (Returns \<lparr>sent_bytes = out, answer_end = SendWaits, corked = True\<rparr>, w)
                  | (OpenFailed, file, w) \<Rightarrow>
                      (Returns \<lparr>sent_bytes = out, answer_end = SendFailed, corked = True\<rparr>, regularFile_destroy os file w)
                  | (OpenThrows e, file, w) \<Rightarrow> (Throws e, regularFile_destroy os file w)
                  | (OpenUndefined, file, w) \<Rightarrow> (Undefined, w))
           | (out, e, rs) \<Rightarrow> (Returns \<lparr>sent_bytes = out, answer_end = e, corked = True\<rparr>, w)))"

subsection \<open>The echo server\<close>

text \<open>
  \<^verbatim>\<open>writer\<close>: \<open>n\<close> is the variable \<^verbatim>\<open>size\<close>; the counter \<^verbatim>\<open>written\<close> starts again in
  every turn.
\<close>

fun echo_writer :: "string \<Rightarrow> nat \<Rightarrow> send_result list \<Rightarrow> string \<times> send_end" where
  "echo_writer buffer n [] = ([], SendWaits)"
| "echo_writer buffer n (r # rs) =
     (let written = 0
      in case r of
           Inl e \<Rightarrow>
             if e = generic_error EAGAIN \<or> e = generic_error EWOULDBLOCK then echo_writer buffer n rs
             else ([], SendFailed)
         | Inr k \<Rightarrow>
             (let taken = take k (take n (drop written buffer)); written = written + k
              in if length buffer \<le> written then (taken, Sent)
                 else (case echo_writer buffer (n - k) rs of (wire, e) \<Rightarrow> (taken @ wire, e))))"

text \<open>
  \<^verbatim>\<open>echoHandle\<close>: the buffers handed to a new \<^verbatim>\<open>writer\<close>, and whether the coroutine has ended.
\<close>

fun echoHandle :: "recv_result list \<Rightarrow> string \<Rightarrow> string list \<times> bool" where
  "echoHandle [] buffer = ([], False)"
| "echoHandle (r # rs) buffer =
     (let read =
        and_then r (\<lambda>bytes. if length bytes = 0 then Inl (socket_error EofError) else Inr bytes)
      in case read of
           Inr bytes \<Rightarrow> echoHandle rs (buffer @ bytes)
         | Inl e \<Rightarrow>
             if e = generic_error EAGAIN \<or> e = generic_error EWOULDBLOCK \<or> e = socket_error EofError then
               (if e \<noteq> socket_error EofError
                then (case echoHandle rs [] of (bufs, ended) \<Rightarrow> (buffer # bufs, ended))
                else ([buffer], True))
             else ([], True))"

subsection \<open>Properties\<close>

text \<open>
  The epoll session answers everything.  When the reads give messages, interrupted any number of
  times by incomplete ones, until the client closes the connection, and no message asks for the
  session to be closed, then each message is handed to a responder as it was parsed, in order, and the
  session ends.
\<close>

lemma epoll_session_answers_all:
  assumes "\<forall>e. Inl e \<in> set rs \<longrightarrow> e = http_error UNCOMPLETED_REQUEST"
    and "\<forall>m. Inr m \<in> set rs \<longrightarrow> \<not> closeSession (snd (parseResquest new_httpRequest m))"
  shows "httpHandle (rs @ [Inl (socket_error EofError)]) =
    (concat (map (\<lambda>r. case r of Inl _ \<Rightarrow> [] | Inr m \<Rightarrow> [snd (parseResquest new_httpRequest m)]) rs), True)"
  using assms
proof (induction rs)
  case Nil
  show ?case by (simp add: httpHandle.simps)
next
  case (Cons r rs)
  have new: "new_httpRequest\<lparr>status := OK\<rparr> = new_httpRequest" by (simp add: new_httpRequest_def)
  have IH: "httpHandle (rs @ [Inl (socket_error EofError)]) =
      (concat (map (\<lambda>r. case r of Inl _ \<Rightarrow> [] | Inr m \<Rightarrow> [snd (parseResquest new_httpRequest m)]) rs), True)"
    using Cons.IH Cons.prems by simp
  show ?case
  proof (cases r)
    case (Inl e)
    then have "e = http_error UNCOMPLETED_REQUEST" using Cons.prems(1) by simp
    moreover have "http_error UNCOMPLETED_REQUEST \<noteq> generic_error ECONNRESET"
      "http_error UNCOMPLETED_REQUEST \<noteq> socket_error EofError" by simp_all
    ultimately have "epoll_read_phase (r # rs @ [Inl (socket_error EofError)]) =
        epoll_read_phase (rs @ [Inl (socket_error EofError)])"
      by (simp add: Inl)
    then have "httpHandle (r # rs @ [Inl (socket_error EofError)]) = httpHandle (rs @ [Inl (socket_error EofError)])"
      by (simp add: httpHandle.simps [of "r # rs @ [Inl (socket_error EofError)]"]
          httpHandle.simps [of "rs @ [Inl (socket_error EofError)]"])
    with IH Inl show ?thesis by simp
  next
    case (Inr m)
    then have "\<not> closeSession (snd (parseResquest new_httpRequest m))" using Cons.prems(2) by simp
    with IH Inr show ?thesis
      by (simp add: httpHandle.simps [of "Inr m # rs @ [Inl (socket_error EofError)]"] new)
  qed
qed

text \<open>
  A file that cannot be opened is given up at once.  The loop means to try again when the
  descriptors have run out, but whatever error \<^verbatim>\<open>open\<close> reports, also \<^verbatim>\<open>EMFILE\<close>, the
  first failure ends it.
\<close>

lemma open_is_never_retried:
  assumes "regularFile_open os p f w = (Returns (Inl e), f', w')"
  shows "open_loop os p (Suc n) f w = (OpenFailed, f', w')"
  using open_error_category [OF assms] assms by (auto simp: open_again_def generic_error_def)

lemma epoll_header_complete:
  "\<forall>e \<in> set es. send_again e \<Longrightarrow> length D \<le> n \<Longrightarrow> epoll_header_loop D (map Inl es @ Inr n # rest) = (D, Sent, rest)"
  by (induction es) (simp_all add: sv_remove_prefix_def)

lemma map_send_loop_fds:
  assumes "os_fd_laws os fds"
  shows "map_send_loop os mem f rs w = (out, e, w') \<Longrightarrow> fds w' = fds w"
proof (induction rs arbitrary: w out)
  case (Cons r rs)
  obtain a w1 where m: "os_mmap os (rf_size f) (rf_fd f) w = (a, w1)" by fastforce
  have w1: "fds w1 = fds w" "fds (unmap os a (rf_size f) w1) = fds w"
    using os_fd_lawsD(4) [OF assms m] os_fd_lawsD(5) [OF assms] by (simp_all add: unmap_def split: option.split)
  show ?case
    using Cons.prems Cons.IH [of w1] m w1
    by (cases r) (auto simp: Let_def split: if_splits prod.splits)
qed simp

lemma open_loop_fds:
  assumes "os_fd_laws os fds" and "open_loop os p n new_regularFile w = (e, f, w')" and "e \<noteq> OpenWaits"
  shows "e \<noteq> OpenUndefined \<and> fds (regularFile_destroy os f w') = fds w"
proof -
  obtain m where n: "n = Suc m" using assms(2,3) by (cases n) auto
  obtain r g w1 where o: "regularFile_open os p new_regularFile w = (r, g, w1)" by (metis prod_cases3)
  obtain q where q: "os_open os (c_str p) w = (q, w1)" "rf_fd g = ret q"
    "if ret q < 0 then r = Returns (Inl (system_error_code (errno q)))
     else r = Returns (Inr ()) \<or> (\<exists>e. r = Throws (FilesystemError e))"
    using regularFile_open_fresh [OF o] by auto
  have "open_again (system_error_code x) = False" for x
    by (simp add: open_again_def generic_error_def system_error_code_def)
  then have "f = g" "w' = w1" "e \<noteq> OpenUndefined"
    using assms(2) q(3) by (auto simp: n o split: if_splits)
  then show ?thesis
    using os_fd_lawsD(1,2) [OF assms(1) q(1)] os_fd_lawsD(3) [OF assms(1)] q(2)
    by (auto simp: regularFile_destroy_def)
qed

text \<open>
  What a responder of the epoll server leaves behind.  When it is done (it returned, not waiting
  any more, or threw), exactly the descriptors that were open before it are open, on every path;
  and \<^verbatim>\<open>TCP_CORK\<close> is still set on the socket of the client unless a file was sent completely,
  so every error response and every answer to a \<^verbatim>\<open>HEAD\<close> request is held back by the kernel.
\<close>

lemma epoll_responder_leaves:
  assumes "os_fd_laws os fds"
    and "epoll_responseHandler os mem webroot n request rs w = (r, w')"
    and "r \<noteq> Undefined" and "\<forall>a. r = Returns a \<longrightarrow> answer_end a \<noteq> SendWaits"
  shows "fds w' = fds w \<and>
    (\<forall>a. r = Returns a \<longrightarrow>
      (\<not> corked a \<longleftrightarrow> answer_end a = Sent \<and>
         (\<exists>response. httpResponse_ctor request webroot = Inr response \<and> status response = OK \<and>
            req_method response \<noteq> HEAD)))"
proof (cases "httpResponse_ctor request webroot")
  case (Inl e)
  then show ?thesis using assms(2) by (auto simp: epoll_responseHandler_def)
next
  case (Inr response)
  obtain out e1 rs1 where h: "epoll_header_loop (serialize response) rs = (out, e1, rs1)" by (metis prod_cases3)
  show ?thesis
  proof (cases "e1 = Sent \<and> req_method response \<noteq> HEAD \<and> status response = OK")
    case False
    then show ?thesis using assms(2) Inr h
      by (cases e1) (auto simp: epoll_responseHandler_def)
  next
    case True
    obtain oe f w1 where o: "open_loop os (resp_uri response) n new_regularFile w = (oe, f, w1)" by (metis prod_cases3)
    obtain out2 e2 w2 where s: "map_send_loop os mem f rs1 w1 = (out2, e2, w2)" by (metis prod_cases3)
    have d: "oe \<noteq> OpenWaits \<Longrightarrow> oe \<noteq> OpenUndefined \<and> fds (regularFile_destroy os f w1) = fds w"
      using open_loop_fds [OF assms(1) o] .
    have "fds w2 = fds w1" by (rule map_send_loop_fds [OF assms(1) s])
    then have d2: "fds (regularFile_destroy os f w2) = fds (regularFile_destroy os f w1)"
      using os_fd_lawsD(3) [OF assms(1)] by (simp add: regularFile_destroy_def)
    have r: "(r, w') = (case oe of
        Opened \<Rightarrow>
          if e2 = SendWaits then (Returns \<lparr>sent_bytes = out @ out2, answer_end = SendWaits, corked = True\<rparr>, w2)
          else (Returns \<lparr>sent_bytes = out @ out2, answer_end = e2, corked = (e2 \<noteq> Sent)\<rparr>, regularFile_destroy os f w2)
      | OpenWaits \<Rightarrow> (Returns \<lparr>sent_bytes = out, answer_end = SendWaits, corked = True\<rparr>, w1)
      | OpenFailed \<Rightarrow> (Returns \<lparr>sent_bytes = out, answer_end = SendFailed, corked = True\<rparr>, regularFile_destroy os f w1)
      | OpenThrows e \<Rightarrow> (Throws e, regularFile_destroy os f w1)
      | OpenUndefined \<Rightarrow> (Undefined, w1))"
      using assms(2) True
      by (cases oe; cases e2) (simp_all add: epoll_responseHandler_def Inr h o s)
    show ?thesis using r assms(3,4) True d d2 Inr
      by (cases oe) (simp_all split: if_splits)
  qed
qed

text \<open>A system with one file, whose descriptor is the length of the list of open ones.\<close>

definition demo_epoll_os :: "int set os" where
  "demo_epoll_os =
     \<lparr>os_open = (\<lambda>s w. if 3 \<in> w then (\<lparr>ret = -1, errno = 24\<rparr>, w) else (\<lparr>ret = 3, errno = 0\<rparr>, insert 3 w)),
      os_close = (\<lambda>n w. w - {n}), os_file_size = (\<lambda>s w. Inr 5),
      os_mmap = (\<lambda>n m w. (Some 4096, w)), os_munmap = (\<lambda>a n w. w)\<rparr>"

text \<open>
  C24: a GET request to the epoll server, from its bytes to the bytes of the answer.  A well-formed
  request for a file that can be opened, measured and mapped is handed to a responder which, when the kernel
  takes each buffer in one send, sends the header of the file's type and the file, unmaps and closes
  it and releases the cork.  The header has no \<open>Content-Length\<close>, although the connection stays open.
\<close>

theorem epoll_get_end_to_end:
  assumes "valid_target u" and "list_all valid_header hs" and "dotdot \<notin> set (path_iter u)"
    and "has_extension (with_index u)" and "has_extension (target u)" and "map_of hs ''Accept'' \<noteq> None"
    and "os_open os (c_str (path_append root (relative_path (target u)))) w = (q, w1)" and "0 \<le> ret q"
    and "os_file_size os (c_str (path_append root (relative_path (target u)))) w1 = Inr sz"
    and "os_mmap os sz (ret q) w1 = (Some a, w2)" and "length (mem (Some a)) = unat sz"
    and "\<forall>e \<in> set es. send_again e"
    and "header = plain_header (MIMEfulltype (tl (extension (target u))))"
    and "length header \<le> n1" and "length (mem (Some a)) \<le> n2"
  shows "\<exists>rq. epoll_read_phase [Inr (render_request GET u hs body)] = Some (Some rq, []) \<and>
    epoll_responseHandler os mem root (Suc k) rq (map Inl es @ [Inr n1, Inr n2]) w =
      (Returns \<lparr>sent_bytes = header @ mem (Some a), answer_end = Sent, corked = False\<rparr>,
       os_close os (ret q) (os_munmap os a sz w2))"
proof (intro exI conjI)
  let ?rq = "parsed_request new_httpRequest GET u hs"
  have "new_httpRequest\<lparr>status := OK\<rparr> = new_httpRequest" by (simp add: new_httpRequest_def)
  then show "epoll_read_phase [Inr (render_request GET u hs body)] = Some (Some ?rq, [])"
    using parseResquest_render [OF assms(1,2), of new_httpRequest GET body] by simp
  obtain r where r: "httpResponse_ctor ?rq root = Inr r" "status r = OK"
    and rq: "version ?rq = ''HTTP/1.1''" "uri ?rq = u"
    and uri: "resp_uri r = path_append root (relative_path (target u))" "req_method r = GET"
    by (rule parsed_get_served [OF assms(3-6)])
  let ?f = "\<lparr>rf_fd = ret q, rf_size = sz\<rparr>"
  have s: "serialize r = header" using ctor_plain_bytes [OF r rq(1)] rq(2) assms(13) by simp
  have h: "epoll_header_loop header (map Inl es @ [Inr n1, Inr n2]) = (header, Sent, [Inr n2])"
    using epoll_header_complete [OF assms(12,14), of "[Inr n2]"] by simp
  have o: "open_loop os (resp_uri r) (Suc k) new_regularFile w = (Opened, ?f, w1)"
    using assms(7-9) by (simp add: uri regularFile_open_def new_regularFile_def)
  have m: "map_send_loop os mem ?f [Inr n2] w1 = (mem (Some a), Sent, os_munmap os a sz w2)"
    using assms(10,11,15) by (simp add: unmap_def)
  show "epoll_responseHandler os mem root (Suc k) ?rq (map Inl es @ [Inr n1, Inr n2]) w =
      (Returns \<lparr>sent_bytes = header @ mem (Some a), answer_end = Sent, corked = False\<rparr>,
       os_close os (ret q) (os_munmap os a sz w2))"
    using r(2) uri(2) assms(8) by (simp add: epoll_responseHandler_def r(1) s h o m regularFile_destroy_def
        del: open_loop.simps map_send_loop.simps)
qed

theorem epoll_get_end_to_end_witness:
  "\<exists>rq. epoll_read_phase [Inr (render_request GET ''/a.txt'' [(''Accept'', ''*/*'')] [])] = Some (Some rq, []) \<and>
     epoll_responseHandler demo_epoll_os (\<lambda>a. ''hello'') ''/srv'' 1 rq [Inl (generic_error EAGAIN), Inr 500, Inr 5] {} =
     (Returns \<lparr>sent_bytes = plain_header ''text/plain'' @ ''hello'', answer_end = Sent, corked = False\<rparr>, {})"
proof -
  have 1: "valid_target ''/a.txt''" "list_all valid_header [(''Accept'', ''*/*'')]"
    "dotdot \<notin> set (path_iter ''/a.txt'')" "has_extension (with_index ''/a.txt'')" "has_extension (target ''/a.txt'')"
    by code_simp+
  have 2: "map_of [(''Accept'', ''*/*'')] ''Accept'' \<noteq> None" by simp
  let ?p = "c_str (path_append ''/srv'' (relative_path (target ''/a.txt'')))"
  have 3: "os_open demo_epoll_os ?p {} = (\<lparr>ret = 3, errno = 0\<rparr>, {3})" "0 \<le> ret \<lparr>ret = 3, errno = 0\<rparr>"
    "os_file_size demo_epoll_os ?p {3} = Inr 5"
    "os_mmap demo_epoll_os 5 (ret \<lparr>ret = 3, errno = 0\<rparr>) {3} = (Some 4096, {3})"
    "length ((\<lambda>a :: nat option. ''hello'') (Some 4096)) = unat (5 :: 64 word)"
    by (simp_all add: demo_epoll_os_def)
  have 4: "\<forall>e \<in> set [generic_error EAGAIN]. send_again e" by (simp add: send_again_def)
  have 5: "plain_header ''text/plain'' = plain_header (MIMEfulltype (tl (extension (target ''/a.txt''))))"
    "length (plain_header ''text/plain'') \<le> 500" "length ((\<lambda>a :: nat option. ''hello'') (Some 4096)) \<le> 5"
    by code_simp+
  from epoll_get_end_to_end [OF 1 2 3 4 5, of "[]" 0] show ?thesis
    by (simp add: demo_epoll_os_def)
qed

text \<open>
  The width of the size.  A file below 2 GiB is offered as a whole.  Of a file of 4 GiB or more whose size leaves less than
  2 GiB modulo \<open>2 ^ 32\<close>, only that remainder is offered, and since every turn starts over the loop never ends by having
  sent the file.
\<close>

lemma send_count_low:
  assumes "unat sz mod 2 ^ 32 < 2 ^ 31"
  shows "send_count sz = unat sz mod 2 ^ 32"
proof -
  let ?w = "ucast sz :: 32 word"
  define m where "m = unat sz mod 2 ^ 32"
  have m: "m < 2147483648" using assms by (simp add: m_def)
  have u: "uint ?w = int m" by (simp add: m_def unsigned_ucast_eq take_bit_eq_mod zmod_int)
  then have "signed_take_bit 31 (uint ?w) = uint ?w" using m by (intro signed_take_bit_int_eq_self) simp_all
  then have "sint ?w = int m" using u by (simp add: sint_uint)
  then have "(scast ?w :: 64 word) = word_of_nat m" by (metis scast_eq of_int_of_nat_eq)
  moreover have "unat (word_of_nat m :: 64 word) = m" using m by (simp add: unat_of_nat take_bit_nat_eq_self)
  ultimately show ?thesis by (simp add: send_count_def m_def)
qed

lemma small_file_offered: "unat sz < 2 ^ 31 \<Longrightarrow> send_count sz = unat sz"
  using send_count_low [of sz] by simp

lemma huge_file_never_sent:
  assumes "2 ^ 32 \<le> unat (rf_size f)" and "unat (rf_size f) mod 2 ^ 32 < 2 ^ 31" and "takes_offered (rf_size f) rs"
  shows "fst (snd (map_send_loop os mem f rs w)) \<noteq> Sent"
proof -
  have less: "send_count (rf_size f) < unat (rf_size f)"
    using assms(1,2) send_count_low [OF assms(2)] by simp
  show ?thesis using assms(3)
  proof (induction rs arbitrary: w)
    case (Cons r rs)
    then have n: "\<not> unat (rf_size f) \<le> n" if "r = Inr n" for n
      using that less by (auto simp: takes_offered_def)
    have "fst (snd (map_send_loop os mem f rs w1)) \<noteq> Sent" for w1
      using Cons by (simp add: takes_offered_def)
    then show ?case using n by (cases r) (simp_all add: Let_def case_prod_beta)
  qed simp
qed

text \<open>The mappings that exist; mapping the file gives a new one, unmapping removes it.\<close>

definition map_laws :: "'w os \<Rightarrow> ('w \<Rightarrow> nat set) \<Rightarrow> 64 word \<Rightarrow> int \<Rightarrow> bool" where
  "map_laws os maps n dsc \<longleftrightarrow>
     (\<forall>w. \<exists>a w'. os_mmap os n dsc w = (Some a, w') \<and> a \<notin> maps w \<and> maps w' = insert a (maps w))
     \<and> (\<forall>a w. maps (os_munmap os a n w) = maps w - {a})"

text \<open>
  The sending loop leaks mappings.  While \<^verbatim>\<open>mmap\<close> succeeds, every turn of the loop but the
  last leaves one mapping of the file behind: when the loop ends after \<open>k\<close> turns that did not end it,
  \<open>k\<close> more mappings exist than before.
\<close>

lemma send_loop_leaks_mappings:
  assumes "map_laws os maps (rf_size f) (rf_fd f)"
    and "map_send_loop os mem f rs w = (wire, e, w')" and "e \<noteq> SendWaits"
  shows "\<exists>used r rest. rs = used @ r # rest \<and> maps w \<subseteq> maps w' \<and> finite (maps w' - maps w) \<and>
    card (maps w' - maps w) = length used"
  using assms(2,3)
proof (induction rs arbitrary: w wire)
  case Nil
  then show ?case by simp
next
  case (Cons r rs)
  note l = assms(1) [unfolded map_laws_def]
  obtain a w1 where m: "os_mmap os (rf_size f) (rf_fd f) w = (Some a, w1)" "a \<notin> maps w" "maps w1 = insert a (maps w)"
    using l [THEN conjunct1, rule_format, of w] by blast
  have u: "maps (unmap os (Some a) (rf_size f) w1) = maps w"
    using l [THEN conjunct2, rule_format, of a w1] m(2,3) by (simp add: unmap_def)
  let ?goal = "\<exists>used r' rest. r # rs = used @ r' # rest \<and> maps w \<subseteq> maps w' \<and> finite (maps w' - maps w) \<and>
    card (maps w' - maps w) = length used"
  have go: ?goal if g: "map_send_loop os mem f rs w1 = (x, e, w')" for x
  proof -
    obtain used r' rest where i: "rs = used @ r' # rest" "maps w1 \<subseteq> maps w'" "finite (maps w' - maps w1)"
      "card (maps w' - maps w1) = length used"
      using Cons.IH [OF g Cons.prems(2)] by blast
    have "maps w' - maps w = insert a (maps w' - maps w1)" using i(2) m(2,3) by auto
    moreover have "a \<notin> maps w' - maps w1" using m(3) by simp
    ultimately have "finite (maps w' - maps w)" "card (maps w' - maps w) = Suc (length used)"
      using i(3,4) by simp_all
    moreover have "maps w \<subseteq> maps w'" using i(2) m(3) by auto
    ultimately show ?thesis using i(1) by (intro exI [of _ "r # used"] exI [of _ r'] exI [of _ rest]) simp
  qed
  have stop: ?goal if "w' = unmap os (Some a) (rf_size f) w1"
    using that u by (intro exI [of _ "[]"]) simp
  show ?case
  proof (cases r)
    case (Inl e')
    then show ?thesis using Cons.prems(1) m(1) go stop by (auto simp: Let_def split: if_splits)
  next
    case (Inr n)
    then show ?thesis using Cons.prems(1) m(1) go stop by (auto simp: Let_def split: if_splits prod.splits)
  qed
qed

definition demo_map_os :: "nat list os" where
  "demo_map_os =
     \<lparr>os_open = (\<lambda>s w. (\<lparr>ret = 3, errno = 0\<rparr>, w)), os_close = (\<lambda>n w. w), os_file_size = (\<lambda>s w. Inr 3),
      os_mmap = (\<lambda>n m w. (Some (Suc (sum_list w)), Suc (sum_list w) # w)),
      os_munmap = (\<lambda>a n w. removeAll a w)\<rparr>"

text \<open>The kernel takes at most what it is offered.\<close>

fun kernel_takes :: "nat \<Rightarrow> send_result list \<Rightarrow> bool" where
  "kernel_takes n [] = True"
| "kernel_takes n (r # rs) =
     (case r of Inl _ \<Rightarrow> kernel_takes n rs | Inr k \<Rightarrow> k \<le> n \<and> kernel_takes (n - k) rs)"

lemma writer_too_short: "n < length b \<Longrightarrow> kernel_takes n rs \<Longrightarrow> snd (echo_writer b n rs) \<noteq> Sent"
proof (induction rs arbitrary: n)
  case (Cons r rs)
  show ?case
  proof (cases r)
    case (Inl e)
    with Cons show ?thesis by simp
  next
    case (Inr k)
    have "n - k < length b" "\<not> length b \<le> k" "kernel_takes (n - k) rs"
      using Cons.prems by (simp_all add: Inr)
    moreover from this have "snd (echo_writer b (n - k) rs) \<noteq> Sent" using Cons.IH by blast
    ultimately show ?thesis by (simp add: Inr case_prod_unfold)
  qed
qed simp

text \<open>
  The echo server never finishes a partial write.  If the kernel takes some, but not all, bytes of
  a buffer at first, the coroutine that writes it does not end successfully, however often it is able
  to send afterwards.
\<close>

lemma partial_echo_never_ends:
  assumes "kernel_takes (length b) (map Inl es @ Inr k # rs)" and "0 < k" and "k < length b"
  shows "snd (echo_writer b (length b) (map Inl es @ Inr k # rs)) \<noteq> Sent"
  using assms
proof (induction es)
  case Nil
  then have "snd (echo_writer b (length b - k) rs) \<noteq> Sent" by (intro writer_too_short) auto
  then show ?case using Nil by (auto split: prod.splits)
next
  case (Cons e es)
  then show ?case by simp
qed

text \<open>
  The echo handler loses nothing.  Whatever the chunks and the pauses, the buffers handed to
  writers until the client closes are together exactly the bytes received, in order.
\<close>

lemma echo_keeps_bytes:
  assumes "\<forall>r \<in> set rs. r = Inl (generic_error EAGAIN) \<or> (\<exists>b. r = Inr b \<and> b \<noteq> [])"
  shows "snd (echoHandle (rs @ [Inr []]) buf) \<and> concat (fst (echoHandle (rs @ [Inr []]) buf)) = buf @ received rs"
  using assms
proof (induction rs arbitrary: buf)
  case Nil
  show ?case by (simp add: received_def)
next
  case (Cons r rs)
  have rest: "\<forall>r \<in> set rs. r = Inl (generic_error EAGAIN) \<or> (\<exists>b. r = Inr b \<and> b \<noteq> [])"
    using Cons.prems by simp
  show ?case
  proof (cases r)
    case (Inl e)
    then have "e = generic_error EAGAIN" using Cons.prems by simp
    moreover have "generic_error EAGAIN \<noteq> socket_error EofError" by simp
    ultimately show ?thesis using Cons.IH [OF rest, of "[]"] by (auto simp: Inl received_def split: prod.splits)
  next
    case (Inr b)
    then have "b \<noteq> []" using Cons.prems by auto
    then show ?thesis using Cons.IH [OF rest, of "buf @ b"] by (simp add: Inr received_def)
  qed
qed

end
