(* ===== verification/EpollServer.thy ===== *)
theory EpollServer
  imports EpollHttp HttpRead
begin

text \<open>
  The sessions of the epoll server (\<^verbatim>\<open>demo/httptest.cpp\<close>) next to each other: the accept loop, the
  event loop, the pool, any number of \<^verbatim>\<open>httpHandle\<close> and \<^verbatim>\<open>responseHandler\<close> coroutines, and the table of
  uncompleted requests they share (\<^verbatim>\<open>src/http/Http.cpp\<close>), as one step relation.

  The step of a session is one \<^verbatim>\<open>read\<close> of \<^verbatim>\<open>readRequest\<close>, with what \<^verbatim>\<open>httpHandle\<close> makes of its
  result (nothing in between touches what sessions share but the pool), so the calls of different sessions
  interleave.  What a responder sends is in \<open>EpollHttp\<close>; here it gives way any number of times and ends.
  The event loop may report an event of a registered descriptor at any time; its own place in the pool, and the clean-up
  (\<open>Connections\<close>), are left out.
\<close>

subsection \<open>readRequest, one read at a time\<close>

text \<open>One turn of the loop: its result, if it ends.\<close>

definition read_turn ::
  "'t table_ops \<Rightarrow> int \<Rightarrow> ptr \<Rightarrow> read_event \<Rightarrow> 't bufs \<Rightarrow> (error_code + string) option \<times> 't bufs" where
  "read_turn T n p ev st =
     (case read_checked n ev (heap st p) of
        Inr bs \<Rightarrow> (None, append_buf p bs st)
      | Inl e \<Rightarrow>
          if e = generic_error EAGAIN \<or> e = generic_error EWOULDBLOCK then
            if sv_ends_with (heap st p) crlf2 then (Some (Inr (heap st p)), eraseBuffer T n st)
            else (Some (Inl (http_error UNCOMPLETED_REQUEST)), st)
          else (Some (Inl e), eraseBuffer T n st))"

text \<open>Where a session is: between two calls, or in one with the buffer it got.\<close>

datatype reading = BeforeCall | InCall ptr

definition read_next ::
  "'t table_ops \<Rightarrow> int \<Rightarrow> read_event \<Rightarrow> reading \<Rightarrow> 't bufs \<Rightarrow> (error_code + string) option \<times> reading \<times> 't bufs" where
  "read_next T n ev rd st =
     (case (case rd of BeforeCall \<Rightarrow> getBuffer T n st | InCall p \<Rightarrow> (p, st)) of
        (p, st) \<Rightarrow>
          (case read_turn T n p ev st of
             (None, st) \<Rightarrow> (None, InCall p, st)
           | (Some r, st) \<Rightarrow> (Some r, BeforeCall, st)))"

text \<open>A session that reads alone: the results of its calls.\<close>

fun read_calls ::
  "'t table_ops \<Rightarrow> int \<Rightarrow> read_event list \<Rightarrow> reading \<Rightarrow> 't bufs \<Rightarrow> (error_code + string) list \<times> reading \<times> 't bufs" where
  "read_calls T n [] rd st = ([], rd, st)"
| "read_calls T n (ev # evs) rd st =
     (case read_next T n ev rd st of
        (r, rd, st) \<Rightarrow>
          (case read_calls T n evs rd st of
             (rs, q) \<Rightarrow> ((case r of None \<Rightarrow> rs | Some r \<Rightarrow> r # rs), q)))"

lemma read_calls_append:
  "read_calls T n (evs @ evs') rd st =
     (case read_calls T n evs rd st of
        (rs, rd, st) \<Rightarrow> (case read_calls T n evs' rd st of (rs', q) \<Rightarrow> (rs @ rs', q)))"
  by (induction evs arbitrary: rd st) (auto split: prod.splits option.splits)

text \<open>The turns make up the whole call.\<close>

lemma readLoop_turn:
  "readLoop T n p reads i st =
     (case read_turn T n p (reads i) st of
        (None, st) \<Rightarrow> readLoop T n p reads (Suc i) st
      | (Some r, st) \<Rightarrow> (r, st, Suc i))"
  by (subst readLoop.simps) (simp add: read_turn_def split: sum.split)

lemma readLoop_calls:
  "readLoop T n p reads i st = (r, st', j) \<Longrightarrow> i < j \<and> read_calls T n (map reads [i..<j]) (InCall p) st = ([r], BeforeCall, st')"
proof (induction T n p reads i st arbitrary: r st' j rule: readLoop.induct)
  case (1 T n p reads i st)
  obtain x s where t: "read_turn T n p (reads i) st = (x, s)" by fastforce
  show ?case
  proof (cases x)
    case (Some y)
    then have "r = y" "st' = s" "j = Suc i" using "1.prems" t by (simp_all add: readLoop_turn)
    then show ?thesis using t Some by (simp add: read_next_def)
  next
    case None
    then obtain bs where bs: "read_checked n (reads i) (heap st p) = Inr bs" "s = append_buf p bs st"
      using t by (auto simp: read_turn_def split: sum.splits if_splits)
    have "readLoop T n p reads (Suc i) (append_buf p bs st) = (r, st', j)"
      using "1.prems" t None bs(2) by (simp add: readLoop_turn [of T n p reads i st])
    from "1.IH" [OF bs(1) this] have "Suc i < j"
      "read_calls T n (map reads [Suc i..<j]) (InCall p) s = ([r], BeforeCall, st')" by (simp_all add: bs(2))
    then show ?thesis using t None by (simp add: upt_conv_Cons read_next_def)
  qed
qed

lemma readRequest_calls:
  assumes "readRequest T n reads i st = (r, st', j)"
  shows "read_calls T n (map reads [i..<j]) BeforeCall st = ([r], BeforeCall, st')"
proof -
  obtain p s where g: "getBuffer T n st = (p, s)" by fastforce
  then have "readLoop T n p reads i s = (r, st', j)" using assms by (simp add: readRequest_def)
  from readLoop_calls [OF this] have c: "i < j" "read_calls T n (map reads [i..<j]) (InCall p) s = ([r], BeforeCall, st')"
    by simp_all
  then show ?thesis using g by (simp add: upt_conv_Cons read_next_def)
qed

subsection \<open>What a read changes\<close>

text \<open>A session finds the same in two tables.\<close>

definition same_view :: "'t table_ops \<Rightarrow> int \<Rightarrow> reading \<times> 't bufs \<Rightarrow> reading \<times> 't bufs \<Rightarrow> bool" where
  "same_view T n x y \<longleftrightarrow>
     (case (x, y) of
        ((BeforeCall, st), (BeforeCall, st')) \<Rightarrow> kept_bytes T st n = kept_bytes T st' n
      | ((InCall p, st), (InCall p', st')) \<Rightarrow>
          tfind T (table st) n = Some p \<and> tfind T (table st') n = Some p' \<and> heap st p = heap st' p'
      | _ \<Rightarrow> False)"

lemma read_turn_left:
  assumes "table_laws T" and "bufs_inv T st" and "tfind T (table st) n = Some p" and "read_turn T n p ev st = (r, st')"
  shows "bufs_inv T st'" and "m \<noteq> n \<Longrightarrow> kept T st' m = kept T st m"
    and "r = None \<Longrightarrow> tfind T (table st') n = Some p" and "m \<noteq> n \<Longrightarrow> tfind T (table st') m = tfind T (table st) m"
    and "r \<noteq> None \<Longrightarrow> r \<noteq> Some (Inl (http_error UNCOMPLETED_REQUEST)) \<Longrightarrow> kept T st' n = None"
proof -
  have len: "length (heap st p @ bs) \<le> 4096" if "read_checked n ev (heap st p) = Inr bs" for bs
    using that by (simp add: read_checked_cases)
  show "bufs_inv T st'" using assms(4) append_buf_inv [OF assms(2) len] eraseBuffer_inv [OF assms(1,2)] assms(2)
    by (auto simp: read_turn_def split: sum.splits if_splits)
  show "m \<noteq> n \<Longrightarrow> kept T st' m = kept T st m"
    using assms(4) append_buf_other [OF assms(2,3)] eraseBuffer_kept [OF assms(1,2)]
    by (auto simp: read_turn_def split: sum.splits if_splits)
  show "r = None \<Longrightarrow> tfind T (table st') n = Some p"
    using assms(3,4) by (auto simp: read_turn_def split: sum.splits if_splits)
  have ti: "tinv T (table st)" using assms(2) by (simp add: bufs_inv_def)
  show "m \<noteq> n \<Longrightarrow> tfind T (table st') m = tfind T (table st) m"
    using assms(4) table_lawsD(2) [OF assms(1) ti]
    by (auto simp: read_turn_def eraseBuffer_def split: sum.splits if_splits)
  show "r \<noteq> None \<Longrightarrow> r \<noteq> Some (Inl (http_error UNCOMPLETED_REQUEST)) \<Longrightarrow> kept T st' n = None"
    using assms(4) eraseBuffer_kept [OF assms(1,2)] by (auto simp: read_turn_def split: sum.splits if_splits)
qed

definition holds_buffer :: "'t table_ops \<Rightarrow> int \<Rightarrow> reading \<Rightarrow> 't bufs \<Rightarrow> bool" where
  "holds_buffer T n rd st \<longleftrightarrow> (case rd of BeforeCall \<Rightarrow> True | InCall p \<Rightarrow> tfind T (table st) n = Some p)"

lemma read_starts:
  assumes "table_laws T" and "bufs_inv T st" and "holds_buffer T n rd st"
    and "(case rd of BeforeCall \<Rightarrow> getBuffer T n st | InCall p \<Rightarrow> (p, st)) = (p, s)"
  shows "bufs_inv T s" and "tfind T (table s) n = Some p" and "m \<noteq> n \<Longrightarrow> kept T s m = kept T st m"
    and "heap s p = (case rd of BeforeCall \<Rightarrow> kept_bytes T st n | InCall q \<Rightarrow> heap st q)"
    and "m \<noteq> n \<Longrightarrow> tfind T (table s) m = tfind T (table st) m"
proof -
  have "bufs_inv T s \<and> tfind T (table s) n = Some p \<and> (\<forall>m. m \<noteq> n \<longrightarrow> kept T s m = kept T st m) \<and>
    heap s p = (case rd of BeforeCall \<Rightarrow> kept_bytes T st n | InCall q \<Rightarrow> heap st q) \<and>
    (\<forall>m. m \<noteq> n \<longrightarrow> tfind T (table s) m = tfind T (table st) m)"
  proof (cases rd)
    case BeforeCall
    then have g: "getBuffer T n st = (p, s)" using assms(4) by simp
    have ti: "tinv T (table st)" using assms(2) by (simp add: bufs_inv_def)
    have "m \<noteq> n \<longrightarrow> tfind T (table s) m = tfind T (table st) m" for m
      using g table_lawsD(1) [OF assms(1) ti] by (auto simp: getBuffer_def Let_def split: option.splits)
    with getBuffer_result [OF assms(1,2) g] show ?thesis unfolding BeforeCall by simp
  next
    case (InCall q)
    then show ?thesis using assms(2-4) by (simp add: holds_buffer_def)
  qed
  then show "bufs_inv T s" and "tfind T (table s) n = Some p" and "m \<noteq> n \<Longrightarrow> kept T s m = kept T st m"
    and "heap s p = (case rd of BeforeCall \<Rightarrow> kept_bytes T st n | InCall q \<Rightarrow> heap st q)"
    and "m \<noteq> n \<Longrightarrow> tfind T (table s) m = tfind T (table st) m" by blast+
qed

lemma read_next_left:
  assumes "table_laws T" and "bufs_inv T st" and "holds_buffer T n rd st" and "read_next T n ev rd st = (r, rd', st')"
  shows "bufs_inv T st'" and "m \<noteq> n \<Longrightarrow> kept T st' m = kept T st m" and "holds_buffer T n rd' st'"
    and "m \<noteq> n \<Longrightarrow> tfind T (table st') m = tfind T (table st) m"
    and "r \<noteq> None \<Longrightarrow> r \<noteq> Some (Inl (http_error UNCOMPLETED_REQUEST)) \<Longrightarrow> kept T st' n = None"
proof -
  obtain p s where g: "(case rd of BeforeCall \<Rightarrow> getBuffer T n st | InCall p \<Rightarrow> (p, st)) = (p, s)" by fastforce
  note s = read_starts [OF assms(1-3) g]
  obtain x t where t: "read_turn T n p ev s = (x, t)" by fastforce
  note l = read_turn_left [OF assms(1) s(1,2) t]
  have e: "st' = t" "r = x" "rd' = (if x = None then InCall p else BeforeCall)"
    using assms(4) g t by (auto simp: read_next_def split: option.splits)
  show "bufs_inv T st'" using l(1) by (simp add: e)
  show "m \<noteq> n \<Longrightarrow> kept T st' m = kept T st m" using l(2) s(3) by (simp add: e)
  show "holds_buffer T n rd' st'" using l(3) by (simp add: e holds_buffer_def)
  show "m \<noteq> n \<Longrightarrow> tfind T (table st') m = tfind T (table st) m" using l(4) s(5) by (simp add: e)
  show "r \<noteq> None \<Longrightarrow> r \<noteq> Some (Inl (http_error UNCOMPLETED_REQUEST)) \<Longrightarrow> kept T st' n = None"
    using l(5) by (simp add: e)
qed

lemma read_next_same_view:
  assumes "table_laws T" and "bufs_inv T st" and "bufs_inv T st'" and "same_view T n (rd, st) (rd', st')"
    and "read_next T n ev rd st = (r, rd1, st1)" and "read_next T n ev rd' st' = (r', rd1', st1')"
  shows "r = r'" and "same_view T n (rd1, st1) (rd1', st1')"
proof -
  obtain p s where g: "(case rd of BeforeCall \<Rightarrow> getBuffer T n st | InCall p \<Rightarrow> (p, st)) = (p, s)" by fastforce
  obtain p' s' where g': "(case rd' of BeforeCall \<Rightarrow> getBuffer T n st' | InCall p \<Rightarrow> (p, st')) = (p', s')" by fastforce
  have b: "holds_buffer T n rd st" "holds_buffer T n rd' st'"
    using assms(4) by (auto simp: same_view_def holds_buffer_def split: reading.splits)
  note v1 = read_starts [OF assms(1,2) b(1) g] and v2 = read_starts [OF assms(1,3) b(2) g']
  have "heap s p = heap s' p'" using v1(4) v2(4) assms(4) by (cases rd; cases rd') (simp_all add: same_view_def)
  note v = v1(2) v2(2) this v1(1) v2(1)
  have k: "kept_bytes T (eraseBuffer T n x) n = []" if "bufs_inv T x" for x
    using eraseBuffer_kept [OF assms(1) that, of n n] by (simp add: kept_bytes_def)
  have h: "kept_bytes T s n = heap s p" "kept_bytes T s' n = heap s p" using v(1-3) by (simp_all add: kept_bytes_alt)
  show "r = r'" using assms(5,6) g g' v(3)
    by (auto simp: read_next_def read_turn_def split: sum.splits if_splits)
  show "same_view T n (rd1, st1) (rd1', st1')" using assms(5,6) g g' v k h
    by (auto simp: read_next_def read_turn_def same_view_def split: sum.splits if_splits)
qed

lemma same_view_other:
  assumes "same_view T n (rd, st) y" and "kept T st1 n = kept T st n" and "holds_buffer T n rd st1"
  shows "same_view T n (rd, st1) y"
  using assms by (cases rd; cases y; cases "fst y")
    (auto simp: same_view_def kept_bytes_def kept_def holds_buffer_def split: option.splits)

subsection \<open>A session\<close>

text \<open>What \<^verbatim>\<open>httpHandle\<close> does with a result of \<^verbatim>\<open>readRequest\<close>.\<close>

datatype session_does = Polls | Answers httpRequest | Leaves

definition session_result :: "error_code + string \<Rightarrow> session_does" where
  "session_result r =
     (let request = new_httpRequest\<lparr>status := OK\<rparr>
      in case r of
           Inl e \<Rightarrow>
             if e = socket_error EofError \<or> e = generic_error ECONNRESET then Leaves
             else if e = http_error UNCOMPLETED_REQUEST then Polls
             else Answers (request\<lparr>status := INTERNAL_SERVER_ERROR\<rparr>)
         | Inr requestStr \<Rightarrow> Answers (snd (parseResquest request requestStr)))"

lemma session_result_uncompleted: "session_result (Inl (http_error UNCOMPLETED_REQUEST)) = Polls"
  by (simp add: session_result_def)

lemma httpHandle_Cons:
  "httpHandle (r # rs) =
     (case session_result r of
        Polls \<Rightarrow> httpHandle rs
      | Answers rq \<Rightarrow> if closeSession rq then ([rq], True) else map_prod ((#) rq) id (httpHandle rs)
      | Leaves \<Rightarrow> ([], True))"
proof (cases "session_result r")
  case Polls
  then have "epoll_read_phase (r # rs) = epoll_read_phase rs"
    by (auto simp: session_result_def Let_def split: sum.splits if_splits)
  then show ?thesis using Polls by (simp add: httpHandle.simps [of "r # rs"] httpHandle.simps [of rs])
next
  case (Answers rq)
  then have "epoll_read_phase (r # rs) = Some (Some rq, rs)"
    by (auto simp: session_result_def Let_def split: sum.splits if_splits)
  then show ?thesis using Answers by (subst httpHandle.simps) (simp add: map_prod_def split: prod.split)
next
  case Leaves
  then have "epoll_read_phase (r # rs) = Some (None, rs)"
    by (auto simp: session_result_def Let_def split: sum.splits if_splits)
  then show ?thesis using Leaves by (subst httpHandle.simps) simp
qed

lemma httpHandle_Nil: "httpHandle [] = ([], False)"
  by (subst httpHandle.simps) simp

lemma httpHandle_snoc:
  "httpHandle rs = (reqs, False) \<Longrightarrow>
     httpHandle (rs @ [r]) =
       (case session_result r of
          Polls \<Rightarrow> (reqs, False)
        | Answers rq \<Rightarrow> (reqs @ [rq], closeSession rq)
        | Leaves \<Rightarrow> (reqs, True))"
proof (induction rs arbitrary: reqs)
  case Nil
  then show ?case by (simp add: httpHandle_Cons httpHandle_Nil split: session_does.split)
next
  case (Cons x rs)
  then show ?case
    by (cases "httpHandle rs") (auto simp: httpHandle_Cons split: session_does.splits if_splits)
qed

subsection \<open>The server\<close>

datatype eprog = EAccept | ESession nat | EResponder nat httpRequest

text \<open>A coroutine is suspended, on a worker, or done.\<close>

datatype estate = Rests | Runs nat | Ended

record eclient =
  ec_fd :: int
  ec_coro :: hnd
  ec_reading :: reading
  ec_over :: bool
  ec_reads :: "read_event list"          \<comment> \<open>what the reads gave\<close>
  ec_requests :: "httpRequest list"      \<comment> \<open>the requests that were handed to responders\<close>

record 't esys =
  es_pool :: threadPool
  es_coros :: "(eprog \<times> estate) list"
  es_bufs :: "'t bufs"
  es_clients :: "eclient list"
  es_reported :: "hnd list"              \<comment> \<open>the coroutines the event loop was given\<close>

text \<open>
  Coroutine \<open>j\<close> has the handle \<open>j\<close>; \<open>acceptAll\<close> is the first.  A new connection gets a descriptor that
  no session uses (\<open>Connections\<close>: it is open until then); its coroutine is registered, not handed to the pool.
\<close>

inductive epoll_step :: "'t table_ops \<Rightarrow> 't esys \<Rightarrow> 't esys \<Rightarrow> bool" for T where
  e_reports:
    "\<lbrakk>j = 0 \<or> j \<in> ec_coro ` set (es_clients s); addTask j (es_pool s) = Returns tp\<rbrakk> \<Longrightarrow>
     epoll_step T s (s\<lparr>es_pool := tp, es_reported := es_reported s @ [j]\<rparr>)"
| e_takes:
    "\<lbrakk>i < length (queueList (es_pool s)); Runs i \<notin> snd ` set (es_coros s); popTask i (es_pool s) = Some (j, tp);
      j < length (es_coros s); es_coros s ! j = (p, x)\<rbrakk> \<Longrightarrow>
     epoll_step T s
       (s\<lparr>es_pool := tp, es_coros := (es_coros s)[j := (p, if x = Ended then Ended else Runs i)]\<rparr>)"
| e_accepts:
    "\<lbrakk>es_coros s ! 0 = (EAccept, Runs i); 0 \<le> n; n \<notin> ec_fd ` {c \<in> set (es_clients s). \<not> ec_over c}\<rbrakk> \<Longrightarrow>
     epoll_step T s
       (s\<lparr>es_clients := es_clients s @ [\<lparr>ec_fd = n, ec_coro = length (es_coros s), ec_reading = BeforeCall, ec_over = False,
                                        ec_reads = [], ec_requests = []\<rparr>],
          es_coros := es_coros s @ [(ESession (length (es_clients s)), Rests)]\<rparr>)"
| e_accept_waits:
    "es_coros s ! 0 = (EAccept, Runs i) \<Longrightarrow>
     epoll_step T s (s\<lparr>es_coros := (es_coros s)[0 := (EAccept, Rests)]\<rparr>)"
| e_reads:
    "\<lbrakk>j < length (es_coros s); es_coros s ! j = (ESession k, Runs i); c = es_clients s ! k;
      read_next T (ec_fd c) ev (ec_reading c) (es_bufs s) = (None, rd, st)\<rbrakk> \<Longrightarrow>
     epoll_step T s
       (s\<lparr>es_bufs := st, es_clients := (es_clients s)[k := c\<lparr>ec_reading := rd, ec_reads := ec_reads c @ [ev]\<rparr>]\<rparr>)"
| e_polls:
    "\<lbrakk>j < length (es_coros s); es_coros s ! j = (ESession k, Runs i); c = es_clients s ! k;
      read_next T (ec_fd c) ev (ec_reading c) (es_bufs s) = (Some r, rd, st); session_result r = Polls;
      addTask j (es_pool s) = Returns tp\<rbrakk> \<Longrightarrow>
     epoll_step T s
       (s\<lparr>es_bufs := st, es_clients := (es_clients s)[k := c\<lparr>ec_reading := rd, ec_reads := ec_reads c @ [ev]\<rparr>],
          es_pool := tp, es_coros := (es_coros s)[j := (ESession k, Rests)]\<rparr>)"
| e_answers:
    "\<lbrakk>j < length (es_coros s); es_coros s ! j = (ESession k, Runs i); c = es_clients s ! k;
      read_next T (ec_fd c) ev (ec_reading c) (es_bufs s) = (Some r, rd, st); session_result r = Answers rq;
      addTask (length (es_coros s)) (es_pool s) = Returns tp\<rbrakk> \<Longrightarrow>
     epoll_step T s
       (s\<lparr>es_bufs := st,
          es_clients := (es_clients s)[k := c\<lparr>ec_reading := rd, ec_reads := ec_reads c @ [ev],
                                           ec_requests := ec_requests c @ [rq], ec_over := closeSession rq\<rparr>],
          es_pool := tp,
          es_coros := (es_coros s)[j := (ESession k, if closeSession rq then Ended else Runs i)] @ [(EResponder k rq, Rests)]\<rparr>)"
| e_leaves:
    "\<lbrakk>j < length (es_coros s); es_coros s ! j = (ESession k, Runs i); c = es_clients s ! k;
      read_next T (ec_fd c) ev (ec_reading c) (es_bufs s) = (Some r, rd, st); session_result r = Leaves\<rbrakk> \<Longrightarrow>
     epoll_step T s
       (s\<lparr>es_bufs := st,
          es_clients := (es_clients s)[k := c\<lparr>ec_reading := rd, ec_reads := ec_reads c @ [ev], ec_over := True\<rparr>],
          es_coros := (es_coros s)[j := (ESession k, Ended)]\<rparr>)"
| e_responder_polls:
    "\<lbrakk>j < length (es_coros s); es_coros s ! j = (EResponder k rq, Runs i); addTask j (es_pool s) = Returns tp\<rbrakk> \<Longrightarrow>
     epoll_step T s (s\<lparr>es_pool := tp, es_coros := (es_coros s)[j := (EResponder k rq, Rests)]\<rparr>)"
| e_responder_ends:
    "\<lbrakk>j < length (es_coros s); es_coros s ! j = (EResponder k rq, Runs i)\<rbrakk> \<Longrightarrow>
     epoll_step T s (s\<lparr>es_coros := (es_coros s)[j := (EResponder k rq, Ended)]\<rparr>)"

text \<open>The server has started; no bytes are kept for any descriptor.\<close>

definition no_bytes :: "'t table_ops \<Rightarrow> 't bufs \<Rightarrow> bool" where
  "no_bytes T st \<longleftrightarrow> bufs_inv T st \<and> (\<forall>n. kept T st n = None)"

definition epoll_starts :: "'t table_ops \<Rightarrow> 't esys \<Rightarrow> bool" where
  "epoll_starts T s \<longleftrightarrow>
     pool_inv (es_pool s) \<and> waiting (es_pool s) = {#} \<and> es_coros s = [(EAccept, Rests)] \<and> es_clients s = []
     \<and> es_reported s = [] \<and> no_bytes T (es_bufs s)"

subsection \<open>Every session reads what it would read alone\<close>

text \<open>What a read makes of its client.\<close>

definition after_read :: "read_event \<Rightarrow> (error_code + string) option \<Rightarrow> reading \<Rightarrow> eclient \<Rightarrow> eclient" where
  "after_read ev r rd c =
     (let c = c\<lparr>ec_reading := rd, ec_reads := ec_reads c @ [ev]\<rparr>
      in case r of
           None \<Rightarrow> c
         | Some r \<Rightarrow>
             (case session_result r of
                Polls \<Rightarrow> c
              | Answers rq \<Rightarrow> c\<lparr>ec_requests := ec_requests c @ [rq], ec_over := closeSession rq\<rparr>
              | Leaves \<Rightarrow> c\<lparr>ec_over := True\<rparr>))"

lemma after_read_simps [simp]:
  "ec_fd (after_read ev r rd c) = ec_fd c" "ec_coro (after_read ev r rd c) = ec_coro c"
  "ec_reading (after_read ev r rd c) = rd" "ec_reads (after_read ev r rd c) = ec_reads c @ [ev]"
  by (simp_all add: after_read_def Let_def split: option.split session_does.split)

definition client_inv :: "'t table_ops \<Rightarrow> 't bufs \<Rightarrow> 't bufs \<Rightarrow> eclient \<Rightarrow> bool" where
  "client_inv T st0 st c \<longleftrightarrow>
     (case read_calls T (ec_fd c) (ec_reads c) BeforeCall st0 of
        (rs, rd', st') \<Rightarrow>
          bufs_inv T st' \<and> httpHandle rs = (ec_requests c, ec_over c)
          \<and> (\<not> ec_over c \<longrightarrow> same_view T (ec_fd c) (ec_reading c, st) (rd', st')))"

definition data_inv :: "'t table_ops \<Rightarrow> 't bufs \<Rightarrow> 't bufs \<Rightarrow> eclient list \<Rightarrow> bool" where
  "data_inv T st0 st cs \<longleftrightarrow>
     bufs_inv T st \<and> (\<forall>c \<in> set cs. client_inv T st0 st c)
     \<and> (\<forall>j < length cs. \<forall>k < length cs. j \<noteq> k \<longrightarrow> \<not> ec_over (cs ! j) \<longrightarrow> \<not> ec_over (cs ! k) \<longrightarrow>
          ec_fd (cs ! j) \<noteq> ec_fd (cs ! k))
     \<and> (\<forall>m. kept T st m \<noteq> None \<longrightarrow> m \<in> ec_fd ` {c \<in> set cs. \<not> ec_over c})"

lemma same_view_holds: "same_view T n (rd, st) (rd', st') \<Longrightarrow> holds_buffer T n rd st \<and> holds_buffer T n rd' st'"
  by (auto simp: same_view_def holds_buffer_def split: reading.splits)

lemma client_inv_own:
  assumes "table_laws T" and "bufs_inv T st" and "client_inv T st0 st c" and "\<not> ec_over c"
    and "read_next T (ec_fd c) ev (ec_reading c) st = (r, rd, st1)"
  shows "client_inv T st0 st1 (after_read ev r rd c)"
proof -
  obtain rs rd' st' where c: "read_calls T (ec_fd c) (ec_reads c) BeforeCall st0 = (rs, rd', st')" by (metis prod_cases3)
  have i: "bufs_inv T st'" "httpHandle rs = (ec_requests c, False)"
    "same_view T (ec_fd c) (ec_reading c, st) (rd', st')"
    using assms(3,4) by (simp_all add: client_inv_def c)
  obtain r' rd1 st1' where n: "read_next T (ec_fd c) ev rd' st' = (r', rd1, st1')" by (metis prod_cases3)
  note v = read_next_same_view [OF assms(1,2) i(1,3) assms(5) n]
  have b: "bufs_inv T st1'" using read_next_left(1) [OF assms(1) i(1) _ n] same_view_holds [OF i(3)] by blast
  have "read_calls T (ec_fd c) (ec_reads c @ [ev]) BeforeCall st0 = (rs @ (case r of None \<Rightarrow> [] | Some r \<Rightarrow> [r]), rd1, st1')"
    using c n v(1) by (simp add: read_calls_append split: option.split)
  moreover have "httpHandle (rs @ (case r of None \<Rightarrow> [] | Some r \<Rightarrow> [r])) =
      (ec_requests (after_read ev r rd c), ec_over (after_read ev r rd c))"
    using i(2) assms(4) httpHandle_snoc [OF i(2)]
    by (simp add: after_read_def split: option.split session_does.split)
  ultimately show ?thesis using b v(2) by (simp add: client_inv_def)
qed

lemma client_inv_other:
  assumes "client_inv T st0 st c" and "kept T st1 (ec_fd c) = kept T st (ec_fd c)"
    and "tfind T (table st1) (ec_fd c) = tfind T (table st) (ec_fd c)"
  shows "client_inv T st0 st1 c"
proof -
  obtain rs rd' st' where c: "read_calls T (ec_fd c) (ec_reads c) BeforeCall st0 = (rs, rd', st')" by (metis prod_cases3)
  have "same_view T (ec_fd c) (ec_reading c, st1) (rd', st')"
    if v: "same_view T (ec_fd c) (ec_reading c, st) (rd', st')"
  proof (rule same_view_other [OF v assms(2)])
    show "holds_buffer T (ec_fd c) (ec_reading c) st1"
      using same_view_holds [OF v] assms(3) by (auto simp: holds_buffer_def split: reading.splits)
  qed
  then show ?thesis using assms(1) by (simp add: client_inv_def c)
qed

lemma after_read_over:
  assumes "ec_over (after_read ev r rd c)" and "\<not> ec_over c"
  shows "r \<noteq> None \<and> r \<noteq> Some (Inl (http_error UNCOMPLETED_REQUEST))"
  using assms by (auto simp: after_read_def Let_def session_result_uncompleted split: option.splits)

lemma data_inv_read:
  assumes T: "table_laws T" and inv: "data_inv T st0 st cs" and k: "k < length cs" "\<not> ec_over (cs ! k)"
    and r: "read_next T (ec_fd (cs ! k)) ev (ec_reading (cs ! k)) st = (r, rd, st1)"
  shows "data_inv T st0 st1 (cs[k := after_read ev r rd (cs ! k)])"
proof -
  let ?c = "cs ! k" let ?c' = "after_read ev r rd ?c" let ?n = "ec_fd ?c"
  have b: "bufs_inv T st" and ck: "client_inv T st0 st ?c"
    and dist: "\<And>i j. i < length cs \<Longrightarrow> j < length cs \<Longrightarrow> i \<noteq> j \<Longrightarrow> \<not> ec_over (cs ! i) \<Longrightarrow> \<not> ec_over (cs ! j) \<Longrightarrow>
        ec_fd (cs ! i) \<noteq> ec_fd (cs ! j)"
    and kept: "\<And>m. kept T st m \<noteq> None \<Longrightarrow> m \<in> ec_fd ` {c \<in> set cs. \<not> ec_over c}"
    using inv k(1) by (auto simp: data_inv_def)
  have h: "holds_buffer T ?n (ec_reading ?c) st"
    using ck k(2) same_view_holds by (fastforce simp: client_inv_def split: prod.splits)
  note l = read_next_left [OF T b h r]
  have "client_inv T st0 st1 (cs[k := ?c'] ! j)" if j: "j < length cs" for j
  proof (cases "j = k")
    case True
    with client_inv_own [OF T b ck k(2) r] k(1) show ?thesis by simp
  next
    case False
    have cj: "client_inv T st0 st (cs ! j)" using inv j by (simp add: data_inv_def)
    have "client_inv T st0 st1 (cs ! j)"
    proof (cases "ec_over (cs ! j)")
      case True
      then show ?thesis using cj by (simp add: client_inv_def)
    next
      case over: False
      have "ec_fd (cs ! j) \<noteq> ?n" using dist [OF j k(1) False over k(2)] .
      from client_inv_other [OF cj l(2) [OF this] l(4) [OF this]] show ?thesis .
    qed
    then show ?thesis using False by simp
  qed
  then have "\<forall>c \<in> set (cs[k := ?c']). client_inv T st0 st1 c" by (metis in_set_conv_nth length_list_update)
  moreover have "ec_fd (cs[k := ?c'] ! i) \<noteq> ec_fd (cs[k := ?c'] ! j)"
    if "i < length cs" "j < length cs" "i \<noteq> j" "\<not> ec_over (cs[k := ?c'] ! i)" "\<not> ec_over (cs[k := ?c'] ! j)" for i j
    using that dist [of i j] k(2) by (cases "i = k"; cases "j = k") auto
  moreover have "m \<in> ec_fd ` {c \<in> set (cs[k := ?c']). \<not> ec_over c}" if m: "kept T st1 m \<noteq> None" for m
  proof (cases "m = ?n")
    case True
    have "\<not> ec_over ?c'" using after_read_over [of ev r rd ?c] l(5) m k(2) by (auto simp: True)
    then have "?c' \<in> {c \<in> set (cs[k := ?c']). \<not> ec_over c}" using k(1) by (simp add: set_update_memI)
    then show ?thesis using image_eqI [of m ec_fd ?c'] by (simp add: True)
  next
    case False
    then have "m \<in> ec_fd ` {c \<in> set cs. \<not> ec_over c}" using l(2) kept [of m] m by simp
    then obtain j where j: "j < length cs" "m = ec_fd (cs ! j)" "\<not> ec_over (cs ! j)" by (auto simp: in_set_conv_nth)
    then have "j \<noteq> k" using False by auto
    then have "cs[k := ?c'] ! j = cs ! j" by simp
    then have "cs ! j \<in> set (cs[k := ?c'])" using j(1) by (metis length_list_update nth_mem)
    then show ?thesis using j by blast
  qed
  ultimately show ?thesis using l(1) by (simp add: data_inv_def)
qed

lemma data_inv_accept:
  assumes "no_bytes T st0" and inv: "data_inv T st0 st cs" and "n \<notin> ec_fd ` {c \<in> set cs. \<not> ec_over c}"
    and c: "ec_fd c = n" "ec_reading c = BeforeCall" "\<not> ec_over c" "ec_reads c = []" "ec_requests c = []"
  shows "data_inv T st0 st (cs @ [c])"
proof -
  have "kept T st n = None" using inv assms(3) by (auto simp: data_inv_def)
  then have ci: "client_inv T st0 st c"
    using assms(1) c by (simp add: client_inv_def httpHandle_Nil same_view_def kept_bytes_def no_bytes_def)
  moreover have "ec_fd (cs ! j) \<noteq> n \<and> n \<noteq> ec_fd (cs ! j)" if "j < length cs" "\<not> ec_over (cs ! j)" for j
    using that assms(3) by (auto dest: nth_mem)
  ultimately have "ec_fd ((cs @ [c]) ! i) \<noteq> ec_fd ((cs @ [c]) ! j)"
    if "i < Suc (length cs)" "j < Suc (length cs)" "i \<noteq> j" "\<not> ec_over ((cs @ [c]) ! i)" "\<not> ec_over ((cs @ [c]) ! j)" for i j
    using that inv c(1) by (cases "i = length cs"; cases "j = length cs") (simp_all add: data_inv_def nth_append)
  with ci show ?thesis using inv unfolding data_inv_def by auto
qed

subsection \<open>Every event adds a copy\<close>

text \<open>How often a coroutine waits in the pool or runs.\<close>

definition copies :: "threadPool \<Rightarrow> hnd \<Rightarrow> estate \<Rightarrow> nat" where
  "copies tp j x = count (waiting tp) j + (case x of Runs i \<Rightarrow> 1 | _ \<Rightarrow> 0)"

fun ecoro_ok :: "threadPool \<Rightarrow> eclient list \<Rightarrow> hnd list \<Rightarrow> hnd \<Rightarrow> eprog \<times> estate \<Rightarrow> bool" where
  "ecoro_ok tp cs rep j (p, x) \<longleftrightarrow>
     (\<forall>i. x = Runs i \<longrightarrow> map_of (taskBinding tp) j = Some (Node i))
     \<and> (x \<noteq> Ended \<longrightarrow>
          (case p of
             EAccept \<Rightarrow> True
           | ESession k \<Rightarrow> copies tp j x = count_list rep j
           | EResponder k rq \<Rightarrow> copies tp j x = 1 \<and> count_list rep j = 0))
     \<and> (\<forall>k. p = ESession k \<longrightarrow> k < length cs \<and> ec_coro (cs ! k) = j \<and> (ec_over (cs ! k) \<longleftrightarrow> x = Ended))"

definition sched :: "threadPool \<Rightarrow> (eprog \<times> estate) list \<Rightarrow> eclient list \<Rightarrow> hnd list \<Rightarrow> bool" where
  "sched tp coros cs rep \<longleftrightarrow>
     pool_inv tp \<and> coros \<noteq> [] \<and> fst (coros ! 0) = EAccept
     \<and> (\<forall>j < length coros. ecoro_ok tp cs rep j (coros ! j))
     \<and> (\<forall>j \<ge> length coros. j \<notin># waiting tp \<and> j \<notin> set rep)
     \<and> (\<forall>k < length cs. ec_coro (cs ! k) < length coros \<and> fst (coros ! ec_coro (cs ! k)) = ESession k)"

text \<open>The clients as the scheduler sees them: only the session of coroutine \<open>h\<close> may have ended.\<close>

definition same_coros :: "hnd \<Rightarrow> eclient list \<Rightarrow> eclient list \<Rightarrow> bool" where
  "same_coros h cs cs' \<longleftrightarrow>
     length cs' = length cs \<and>
     (\<forall>k < length cs. ec_coro (cs' ! k) = ec_coro (cs ! k)
        \<and> (ec_coro (cs ! k) \<noteq> h \<longrightarrow> ec_over (cs' ! k) = ec_over (cs ! k)))"

lemma same_coros_refl: "same_coros h cs cs"
  by (simp add: same_coros_def)

lemma same_coros_after_read: "ec_coro (cs ! k) = h \<Longrightarrow> same_coros h cs (cs[k := after_read ev r rd (cs ! k)])"
proof -
  assume h: "ec_coro (cs ! k) = h"
  have "ec_coro (cs[k := after_read ev r rd (cs ! k)] ! j) = ec_coro (cs ! j) \<and>
    (ec_coro (cs ! j) \<noteq> h \<longrightarrow> ec_over (cs[k := after_read ev r rd (cs ! k)] ! j) = ec_over (cs ! j))"
    if "j < length cs" for j
    using that h by (cases "j = k") simp_all
  then show ?thesis by (simp add: same_coros_def)
qed

text \<open>A pool that differs for one coroutine only.\<close>

definition same_pool :: "hnd \<Rightarrow> threadPool \<Rightarrow> threadPool \<Rightarrow> bool" where
  "same_pool h tp tp' \<longleftrightarrow>
     pool_inv tp' \<and> (\<forall>j. j \<noteq> h \<longrightarrow> count (waiting tp') j = count (waiting tp) j)
     \<and> (\<forall>g x. map_of (taskBinding tp) g = Some x \<longrightarrow> map_of (taskBinding tp') g = Some x)"

lemma same_pool_refl: "pool_inv tp \<Longrightarrow> same_pool h tp tp"
  by (simp add: same_pool_def)

lemma same_pool_add:
  assumes "pool_inv tp" and "addTask h tp = Returns tp'"
  shows "same_pool h tp tp'" and "waiting tp' = add_mset h (waiting tp)"
proof -
  obtain i p' where "addTask h tp = Returns p'" "pool_inv p'" "waiting p' = add_mset h (waiting tp)"
    "\<And>g x. map_of (taskBinding tp) g = Some x \<Longrightarrow> map_of (taskBinding p') g = Some x"
    by (rule addTask_result [OF assms(1), of h]) blast
  then show "same_pool h tp tp'" and "waiting tp' = add_mset h (waiting tp)"
    using assms(2) by (auto simp: same_pool_def)
qed

lemma same_pool_pop:
  assumes "pool_inv tp" and "i < length (queueList tp)" and "popTask i tp = Some (h, tp')"
  shows "same_pool h tp tp'"
  using popTask_inv [OF assms] by (simp add: same_pool_def)

lemma ecoro_ok_other:
  assumes "ecoro_ok tp cs rep j (p, x)" and "same_pool h tp tp'" and "same_coros h cs cs'"
    and "count_list rep' j = count_list rep j" and "j \<noteq> h"
  shows "ecoro_ok tp' cs' rep' j (p, x)"
  using assms by (cases p) (auto simp: same_pool_def same_coros_def copies_def)

lemma sched_change:
  assumes s: "sched tp coros cs rep" and h: "h < length coros" and pool: "same_pool h tp tp'"
    and cs: "same_coros h cs cs'" and rep: "\<And>j. j \<noteq> h \<Longrightarrow> count_list rep' j = count_list rep j"
    and ok: "ecoro_ok tp' cs' rep' h (fst (coros ! h), x)"
  shows "sched tp' (coros[h := (fst (coros ! h), x)]) cs' rep'"
proof -
  let ?coros = "coros[h := (fst (coros ! h), x)]"
  note s = s [unfolded sched_def]
  have f: "fst (?coros ! j) = fst (coros ! j)" if "j < length coros" for j
    using that h by (cases "j = h") simp_all
  have "ecoro_ok tp' cs' rep' j (?coros ! j)" if j: "j < length coros" for j
  proof (cases "j = h")
    case True
    then show ?thesis using ok h by simp
  next
    case False
    obtain p y where p: "coros ! j = (p, y)" by fastforce
    with s j have "ecoro_ok tp cs rep j (p, y)" by metis
    from ecoro_ok_other [OF this pool cs rep [OF False] False] show ?thesis using False p by simp
  qed
  moreover have "j \<notin># waiting tp' \<and> j \<notin> set rep'" if j: "length coros \<le> j" for j
  proof -
    have n: "j \<noteq> h" using j h by simp
    have "count (waiting tp) j = 0" "count_list rep j = 0"
      using s j by (simp_all add: not_in_iff count_list_0_iff)
    then have "count (waiting tp') j = 0" "count_list rep' j = 0"
      using pool n rep [OF n] by (simp_all add: same_pool_def)
    then show ?thesis by (simp add: not_in_iff count_list_0_iff)
  qed
  ultimately show ?thesis using s f pool cs by (auto simp: sched_def same_pool_def same_coros_def)
qed

lemma sched_add_responder:
  assumes s: "sched tp coros cs rep" and a: "addTask (length coros) tp = Returns tp'"
  shows "sched tp' (coros @ [(EResponder k rq, Rests)]) cs rep"
proof -
  note s = s [unfolded sched_def]
  let ?h = "length coros"
  note p = same_pool_add [OF conjunct1 [OF s] a]
  have z: "?h \<notin># waiting tp" "?h \<notin> set rep" using s by simp_all
  have "ecoro_ok tp' cs rep ?h (EResponder k rq, Rests)"
    using p(2) z by (simp add: copies_def not_in_iff count_list_0_iff)
  moreover have "ecoro_ok tp' cs rep j (coros ! j)" if "j < ?h" for j
    using ecoro_ok_other [of tp cs rep j "fst (coros ! j)" "snd (coros ! j)" ?h tp' cs rep] p(1) that s
    by (simp add: same_coros_refl)
  ultimately have "ecoro_ok tp' cs rep j ((coros @ [(EResponder k rq, Rests)]) ! j)" if "j < Suc ?h" for j
    using that by (auto simp: nth_append less_Suc_eq)
  then show ?thesis using s p by (auto simp: sched_def same_pool_def nth_append)
qed

lemma sched_add_session:
  assumes s: "sched tp coros cs rep" and c: "ec_coro c = length coros" "\<not> ec_over c"
  shows "sched tp (coros @ [(ESession (length cs), Rests)]) (cs @ [c]) rep"
proof -
  note s = s [unfolded sched_def]
  let ?h = "length coros" let ?cs = "cs @ [c]"
  have z: "?h \<notin># waiting tp" "?h \<notin> set rep" using s by simp_all
  have "ecoro_ok tp ?cs rep ?h (ESession (length cs), Rests)"
    using c z by (simp add: copies_def not_in_iff count_list_0_iff)
  moreover have "ecoro_ok tp ?cs rep j (coros ! j)" if "j < ?h" for j
  proof -
    obtain p x where p: "coros ! j = (p, x)" by fastforce
    with s that have "ecoro_ok tp cs rep j (p, x)" by metis
    then show ?thesis unfolding p by (auto simp: nth_append)
  qed
  ultimately have "ecoro_ok tp ?cs rep j ((coros @ [(ESession (length cs), Rests)]) ! j)" if "j < Suc ?h" for j
    using that by (auto simp: nth_append less_Suc_eq)
  then show ?thesis using s c(1) by (auto simp: sched_def nth_append less_Suc_eq)
qed

subsection \<open>Every step keeps both\<close>

definition esys_inv :: "'t table_ops \<Rightarrow> 't bufs \<Rightarrow> 't esys \<Rightarrow> bool" where
  "esys_inv T st0 s \<longleftrightarrow>
     sched (es_pool s) (es_coros s) (es_clients s) (es_reported s) \<and> data_inv T st0 (es_bufs s) (es_clients s)"

lemma sched_running:
  assumes "sched tp coros cs rep" and "j < length coros" and "coros ! j = (ESession k, Runs i)"
  shows "k < length cs" and "ec_coro (cs ! k) = j" and "\<not> ec_over (cs ! k)"
    and "copies tp j (Runs i) = count_list rep j" and "map_of (taskBinding tp) j = Some (Node i)"
proof -
  have "ecoro_ok tp cs rep j (ESession k, Runs i)" using assms unfolding sched_def by metis
  then show "k < length cs" and "ec_coro (cs ! k) = j" and "\<not> ec_over (cs ! k)"
    and "copies tp j (Runs i) = count_list rep j" and "map_of (taskBinding tp) j = Some (Node i)" by simp_all
qed

lemma sched_idle:
  assumes s: "sched tp coros cs rep" and q: "i < length (queueList tp)" "Runs i \<notin> snd ` set coros"
    and pop: "popTask i tp = Some (j, tp')" and j: "j < length coros" "coros ! j = (p, x)"
  shows "x = Rests \<or> x = Ended" and "waiting tp = add_mset j (waiting tp')"
    and "map_of (taskBinding tp') j = Some (Node i)"
proof -
  have ok: "ecoro_ok tp cs rep j (p, x)" and pool: "pool_inv tp" using s j by (auto simp: sched_def)
  note i = popTask_inv [OF pool q(1) pop]
  show "waiting tp = add_mset j (waiting tp')" "map_of (taskBinding tp') j = Some (Node i)" using i by simp_all
  have "x \<noteq> Runs i" using j q(2) by (metis imageI nth_mem snd_conv)
  then show "x = Rests \<or> x = Ended" using ok i by (cases x) auto
qed

lemma sched_takes:
  assumes s: "sched tp coros cs rep" and q: "i < length (queueList tp)" "Runs i \<notin> snd ` set coros"
    and pop: "popTask i tp = Some (j, tp')" and j: "j < length coros" "coros ! j = (p, x)"
  shows "sched tp' (coros[j := (p, if x = Ended then Ended else Runs i)]) cs rep"
proof -
  note idle = sched_idle [OF assms]
  have ok: "ecoro_ok tp cs rep j (p, x)" and pool: "pool_inv tp" using s j by (auto simp: sched_def)
  have "ecoro_ok tp' cs rep j (p, if x = Ended then Ended else Runs i)"
    using idle ok by (cases p) (auto simp: copies_def)
  with sched_change [OF s j(1) same_pool_pop [OF pool q(1) pop] same_coros_refl, of rep "if x = Ended then Ended else Runs i"]
  show ?thesis by (simp add: j(2))
qed

lemma sched_reports:
  assumes s: "sched tp coros cs rep" and j: "j = 0 \<or> j \<in> ec_coro ` set cs" and a: "addTask j tp = Returns tp'"
  shows "sched tp' coros cs (rep @ [j])"
proof -
  have l: "j < length coros" using s j by (auto simp: sched_def in_set_conv_nth)
  obtain p x where p: "coros ! j = (p, x)" by fastforce
  have ok: "ecoro_ok tp cs rep j (p, x)" and pool: "pool_inv tp" using s l p by (metis sched_def)+
  note add = same_pool_add [OF pool a]
  have "p = EAccept \<or> (\<exists>k. p = ESession k)"
  proof (cases "j = 0")
    case True
    then show ?thesis using s p by (simp add: sched_def)
  next
    case False
    then obtain k where "k < length cs" "j = ec_coro (cs ! k)" using j by (auto simp: in_set_conv_nth)
    then have "fst (coros ! j) = ESession k" using s by (simp add: sched_def)
    then show ?thesis using p by simp
  qed
  then have "ecoro_ok tp' cs (rep @ [j]) j (p, x)"
    using ok add by (auto simp: copies_def same_pool_def)
  with sched_change [OF s l add(1) same_coros_refl, of "rep @ [j]" x] l
  show ?thesis by (simp add: p) (metis list_update_id p)
qed

text \<open>A read that leaves its session running, waiting again, or ended.\<close>

lemma sched_read:
  assumes s: "sched tp coros cs rep" and j: "j < length coros" "coros ! j = (ESession k, Runs i)"
    and tp: "(tp' = tp \<and> x \<in> {Runs i, Ended}) \<or> (addTask j tp = Returns tp' \<and> x = Rests)"
    and over: "ec_over (after_read ev r rd (cs ! k)) \<longleftrightarrow> x = Ended"
  shows "sched tp' (coros[j := (ESession k, x)]) (cs[k := after_read ev r rd (cs ! k)]) rep"
proof -
  note run = sched_running [OF s j]
  have pool: "pool_inv tp" using s by (simp add: sched_def)
  have p: "same_pool j tp tp'" using tp same_pool_refl [OF pool] same_pool_add(1) [OF pool] by blast
  have "x \<noteq> Ended \<longrightarrow> copies tp' j x = count_list rep j"
    using tp run(4) same_pool_add(2) [OF pool] by (auto simp: copies_def)
  moreover have "\<forall>m. x = Runs m \<longrightarrow> map_of (taskBinding tp') j = Some (Node m)"
    using tp run(5) by auto
  ultimately have "ecoro_ok tp' (cs[k := after_read ev r rd (cs ! k)]) rep j (ESession k, x)"
    using run(1,2) over by simp
  with sched_change [OF s j(1) p same_coros_after_read [OF run(2)], where rep' = rep and x = x] show ?thesis
    by (simp add: j(2) over run(2))
qed

lemma esys_inv_read:
  assumes T: "table_laws T" and inv: "esys_inv T st0 s"
    and j: "j < length (es_coros s)" "es_coros s ! j = (ESession k, Runs i)" and c: "c = es_clients s ! k"
    and r: "read_next T (ec_fd c) ev (ec_reading c) (es_bufs s) = (r, rd, st)"
    and tp: "(tp' = es_pool s \<and> x \<in> {Runs i, Ended}) \<or> (addTask j (es_pool s) = Returns tp' \<and> x = Rests)"
    and over: "ec_over (after_read ev r rd c) \<longleftrightarrow> x = Ended"
  shows "sched tp' ((es_coros s)[j := (ESession k, x)]) ((es_clients s)[k := after_read ev r rd c]) (es_reported s)"
    and "data_inv T st0 st ((es_clients s)[k := after_read ev r rd c])"
proof -
  have i: "sched (es_pool s) (es_coros s) (es_clients s) (es_reported s)" "data_inv T st0 (es_bufs s) (es_clients s)"
    using inv by (simp_all add: esys_inv_def)
  note run = sched_running [OF i(1) j]
  show "sched tp' ((es_coros s)[j := (ESession k, x)]) ((es_clients s)[k := after_read ev r rd c]) (es_reported s)"
    using sched_read [OF i(1) j tp, of ev r rd] over by (simp add: c)
  show "data_inv T st0 st ((es_clients s)[k := after_read ev r rd c])"
    using data_inv_read [OF T i(2) run(1,3)] r by (simp add: c)
qed

lemma esys_inv_step:
  assumes T: "table_laws T" and st0: "no_bytes T st0" and inv: "esys_inv T st0 s" and step: "epoll_step T s s'"
  shows "esys_inv T st0 s'"
proof -
  have i: "sched (es_pool s) (es_coros s) (es_clients s) (es_reported s)" "data_inv T st0 (es_bufs s) (es_clients s)"
    using inv by (simp_all add: esys_inv_def)
  have pool: "pool_inv (es_pool s)" and acc: "0 < length (es_coros s)" using i(1) by (simp_all add: sched_def)
  note read = esys_inv_read [OF T inv]
  from step show ?thesis
  proof cases
    case (e_reports j tp)
    then show ?thesis using sched_reports [OF i(1)] i(2) by (simp add: esys_inv_def)
  next
    case (e_takes i j tp p x)
    then show ?thesis using sched_takes [OF \<open>sched (es_pool s) _ _ _\<close>] \<open>data_inv T st0 _ _\<close> by (simp add: esys_inv_def)
  next
    case (e_accepts i n)
    then show ?thesis using sched_add_session [OF \<open>sched (es_pool s) _ _ _\<close>] data_inv_accept [OF st0 \<open>data_inv T st0 _ _\<close>]
      by (simp add: esys_inv_def)
  next
    case (e_accept_waits i)
    have "ecoro_ok (es_pool s) (es_clients s) (es_reported s) 0 (fst (es_coros s ! 0), Rests)"
      using e_accept_waits(2) by simp
    from sched_change [OF \<open>sched (es_pool s) _ _ _\<close> acc same_pool_refl [OF pool] same_coros_refl refl this]
    show ?thesis using e_accept_waits \<open>data_inv T st0 _ _\<close> by (simp add: esys_inv_def)
  next
    case (e_reads j k i c ev rd st)
    have over: "\<not> ec_over c" using sched_running [OF \<open>sched (es_pool s) _ _ _\<close> e_reads(2,3)] e_reads(4) by simp
    have a: "after_read ev None rd c = c\<lparr>ec_reading := rd, ec_reads := ec_reads c @ [ev]\<rparr>" by (simp add: after_read_def)
    then have o: "ec_over (after_read ev None rd c) \<longleftrightarrow> Runs i = Ended" using over by simp
    have "(es_coros s)[j := (ESession k, Runs i)] = es_coros s" using e_reads(3) by (metis list_update_id)
    with read [OF e_reads(2-5) _ o, of "es_pool s"] show ?thesis using e_reads(1) by (simp add: a esys_inv_def)
  next
    case (e_polls j k i c ev r rd st tp)
    have over: "\<not> ec_over c" using sched_running [OF \<open>sched (es_pool s) _ _ _\<close> e_polls(2,3)] e_polls(4) by simp
    have a: "after_read ev (Some r) rd c = c\<lparr>ec_reading := rd, ec_reads := ec_reads c @ [ev]\<rparr>"
      using e_polls(6) by (simp add: after_read_def)
    then have o: "ec_over (after_read ev (Some r) rd c) \<longleftrightarrow> Rests = Ended" using over by simp
    from read [OF e_polls(2-5) _ o, of tp] show ?thesis using e_polls(1,7) by (simp add: a esys_inv_def)
  next
    case (e_answers j k i c ev r rd st rq tp)
    let ?x = "if closeSession rq then Ended else Runs i"
    have a: "after_read ev (Some r) rd c =
        c\<lparr>ec_reading := rd, ec_reads := ec_reads c @ [ev], ec_requests := ec_requests c @ [rq], ec_over := closeSession rq\<rparr>"
      using e_answers(6) by (simp add: after_read_def)
    then have o: "ec_over (after_read ev (Some r) rd c) \<longleftrightarrow> ?x = Ended" by simp
    have x: "es_pool s = es_pool s \<and> ?x \<in> {Runs i, Ended} \<or> addTask j (es_pool s) = Returns (es_pool s) \<and> ?x = Rests"
      by simp
    note r = read [OF e_answers(2-5) x o]
    have l: "length (es_coros s) = length ((es_coros s)[j := (ESession k, ?x)])" by simp
    from sched_add_responder [OF r(1)] r(2) show ?thesis using e_answers(1,7) by (simp add: a esys_inv_def)
  next
    case (e_leaves j k i c ev r rd st)
    have a: "after_read ev (Some r) rd c = c\<lparr>ec_reading := rd, ec_reads := ec_reads c @ [ev], ec_over := True\<rparr>"
      using e_leaves(6) by (simp add: after_read_def)
    then have o: "ec_over (after_read ev (Some r) rd c) \<longleftrightarrow> Ended = Ended" by simp
    from read [OF e_leaves(2-5) _ o, of "es_pool s"] show ?thesis using e_leaves(1) by (simp add: a esys_inv_def)
  next
    case (e_responder_polls j k rq i tp)
    have ok: "ecoro_ok (es_pool s) (es_clients s) (es_reported s) j (EResponder k rq, Runs i)"
      using \<open>sched (es_pool s) _ _ _\<close> e_responder_polls(2,3) unfolding sched_def by metis
    note add = same_pool_add [OF pool e_responder_polls(4)]
    have "ecoro_ok tp (es_clients s) (es_reported s) j (fst (es_coros s ! j), Rests)"
      using ok add(2) e_responder_polls(3) by (simp add: copies_def)
    from sched_change [OF \<open>sched (es_pool s) _ _ _\<close> e_responder_polls(2) add(1) same_coros_refl refl this]
    show ?thesis using e_responder_polls \<open>data_inv T st0 _ _\<close> by (simp add: esys_inv_def)
  next
    case (e_responder_ends j k rq i)
    have "ecoro_ok (es_pool s) (es_clients s) (es_reported s) j (fst (es_coros s ! j), Ended)"
      using e_responder_ends(3) by simp
    from sched_change [OF \<open>sched (es_pool s) _ _ _\<close> e_responder_ends(2) same_pool_refl [OF pool] same_coros_refl refl this]
    show ?thesis using e_responder_ends \<open>data_inv T st0 _ _\<close> by (simp add: esys_inv_def)
  qed
qed

lemma esys_inv_start: "no_bytes T st0 \<Longrightarrow> epoll_starts T s \<Longrightarrow> esys_inv T st0 s"
  by (simp add: esys_inv_def sched_def data_inv_def epoll_starts_def no_bytes_def copies_def)

lemma esys_inv_run:
  "\<lbrakk>(epoll_step T)\<^sup>*\<^sup>* s0 s; table_laws T; no_bytes T st0; epoll_starts T s0\<rbrakk> \<Longrightarrow> esys_inv T st0 s"
  by (induction rule: rtranclp_induct) (auto intro: esys_inv_start esys_inv_step)

text \<open>The requests of the responders that were started for a client.\<close>

definition responders :: "nat \<Rightarrow> (eprog \<times> estate) list \<Rightarrow> httpRequest list" where
  "responders k coros =
     concat (map (\<lambda>p. case p of EResponder m rq \<Rightarrow> if m = k then [rq] else [] | _ \<Rightarrow> []) (map fst coros))"

lemma responders_update: "coros ! j = (p, y) \<Longrightarrow> responders k (coros[j := (p, x)]) = responders k coros"
proof -
  assume "coros ! j = (p, y)"
  then have "fst (coros[j := (p, x)] ! i) = fst (coros ! i)" if "i < length coros" for i
    using that by (cases "i = j") simp_all
  then have "map fst (coros[j := (p, x)]) = map fst coros" by (intro nth_equalityI) simp_all
  then show ?thesis by (simp only: responders_def)
qed

lemma responders_append: "responders k (coros @ coros') = responders k coros @ responders k coros'"
  by (simp add: responders_def)

lemma responders_one: "responders k [(p, x)] = (case p of EResponder m rq \<Rightarrow> if m = k then [rq] else [] | _ \<Rightarrow> [])"
  by (simp add: responders_def split: eprog.split)

definition resp_inv :: "'t esys \<Rightarrow> bool" where
  "resp_inv s \<longleftrightarrow>
     (\<forall>k. responders k (es_coros s) = (if k < length (es_clients s) then ec_requests (es_clients s ! k) else []))"

lemma resp_inv_step:
  assumes i: "esys_inv T st0 s" and inv: "resp_inv s" and step: "epoll_step T s s'"
  shows "resp_inv s'"
proof -
  have len: "k < length (es_clients s)" if "j < length (es_coros s)" "es_coros s ! j = (ESession k, Runs i)" for j k i
    using sched_running(1) [OF _ that] i by (auto simp: esys_inv_def)
  note defs = resp_inv_def responders_update responders_append responders_one nth_list_update
  from step show ?thesis
  proof cases
    case (e_accepts i n)
    then show ?thesis using inv by (auto simp: defs nth_append less_Suc_eq)
  next
    case (e_answers j k i c ev r rd st rq tp)
    then show ?thesis using inv len [OF e_answers(2,3)] by (auto simp: defs)
  next
    case (e_reads j k i c ev rd st)
    then show ?thesis using inv len [OF e_reads(2,3)] by (auto simp: defs)
  next
    case (e_polls j k i c ev r rd st tp)
    then show ?thesis using inv len [OF e_polls(2,3)] by (auto simp: defs)
  next
    case (e_leaves j k i c ev r rd st)
    then show ?thesis using inv len [OF e_leaves(2,3)] by (auto simp: defs)
  qed (use inv in \<open>auto simp: defs\<close>)
qed

lemma resp_inv_run:
  "\<lbrakk>(epoll_step T)\<^sup>*\<^sup>* s0 s; table_laws T; no_bytes T (es_bufs s0); epoll_starts T s0\<rbrakk> \<Longrightarrow> resp_inv s"
proof (induction rule: rtranclp_induct)
  case base
  then show ?case by (simp add: resp_inv_def epoll_starts_def responders_def)
next
  case (step s s')
  then show ?case using esys_inv_run [OF step.hyps(1)] resp_inv_step by blast
qed

subsection \<open>A run of the server, computed\<close>

datatype emove =
    MReports hnd | MTakes nat | MAccepts int | MAcceptWaits | MReads hnd read_event | MResponderEnds hnd

definition move_session :: "'t table_ops \<Rightarrow> hnd \<Rightarrow> nat \<Rightarrow> nat \<Rightarrow> read_event \<Rightarrow> 't esys \<Rightarrow> 't esys option" where
  "move_session T j k i ev s =
     (let c = es_clients s ! k
      in case read_next T (ec_fd c) ev (ec_reading c) (es_bufs s) of
           (r, rd, st) \<Rightarrow>
             (let s = s\<lparr>es_bufs := st, es_clients := (es_clients s)[k := after_read ev r rd c]\<rparr>
              in case r of
                   None \<Rightarrow> Some s
                 | Some r \<Rightarrow>
                     (case session_result r of
                        Polls \<Rightarrow>
                          (case addTask j (es_pool s) of
                             Returns tp \<Rightarrow> Some (s\<lparr>es_pool := tp, es_coros := (es_coros s)[j := (ESession k, Rests)]\<rparr>)
                           | _ \<Rightarrow> None)
                      | Answers rq \<Rightarrow>
                          (case addTask (length (es_coros s)) (es_pool s) of
                             Returns tp \<Rightarrow>
                               Some (s\<lparr>es_pool := tp,
                                       es_coros := (es_coros s)[j := (ESession k, if closeSession rq then Ended else Runs i)]
                                                   @ [(EResponder k rq, Rests)]\<rparr>)
                           | _ \<Rightarrow> None)
                      | Leaves \<Rightarrow> Some (s\<lparr>es_coros := (es_coros s)[j := (ESession k, Ended)]\<rparr>))))"

fun make_emove :: "'t table_ops \<Rightarrow> emove \<Rightarrow> 't esys \<Rightarrow> 't esys option" where
  "make_emove T (MReports j) s =
     (if j = 0 \<or> j \<in> ec_coro ` set (es_clients s) then
        (case addTask j (es_pool s) of
           Returns tp \<Rightarrow> Some (s\<lparr>es_pool := tp, es_reported := es_reported s @ [j]\<rparr>)
         | _ \<Rightarrow> None)
      else None)"
| "make_emove T (MTakes i) s =
     (if i < length (queueList (es_pool s)) \<and> Runs i \<notin> snd ` set (es_coros s) then
        (case popTask i (es_pool s) of
           Some (j, tp) \<Rightarrow>
             if j < length (es_coros s) then
               (case es_coros s ! j of
                  (p, x) \<Rightarrow> Some (s\<lparr>es_pool := tp, es_coros := (es_coros s)[j := (p, if x = Ended then Ended else Runs i)]\<rparr>))
             else None
         | None \<Rightarrow> None)
      else None)"
| "make_emove T (MAccepts n) s =
     (case es_coros s ! 0 of
        (EAccept, Runs i) \<Rightarrow>
          if 0 \<le> n \<and> list_all (\<lambda>c. ec_over c \<or> ec_fd c \<noteq> n) (es_clients s) then
            Some (s\<lparr>es_clients := es_clients s @ [\<lparr>ec_fd = n, ec_coro = length (es_coros s), ec_reading = BeforeCall,
                                                  ec_over = False, ec_reads = [], ec_requests = []\<rparr>],
                    es_coros := es_coros s @ [(ESession (length (es_clients s)), Rests)]\<rparr>)
          else None
      | _ \<Rightarrow> None)"
| "make_emove T MAcceptWaits s =
     (case es_coros s ! 0 of
        (EAccept, Runs i) \<Rightarrow> Some (s\<lparr>es_coros := (es_coros s)[0 := (EAccept, Rests)]\<rparr>)
      | _ \<Rightarrow> None)"
| "make_emove T (MReads j ev) s =
     (if j < length (es_coros s) then
        (case es_coros s ! j of
           (ESession k, Runs i) \<Rightarrow> if k < length (es_clients s) \<and> \<not> ec_over (es_clients s ! k) then move_session T j k i ev s else None
         | _ \<Rightarrow> None)
      else None)"
| "make_emove T (MResponderEnds j) s =
     (if j < length (es_coros s) then
        (case es_coros s ! j of
           (EResponder k rq, Runs i) \<Rightarrow> Some (s\<lparr>es_coros := (es_coros s)[j := (EResponder k rq, Ended)]\<rparr>)
         | _ \<Rightarrow> None)
      else None)"

lemma move_session_step:
  assumes "move_session T j k i ev s = Some s'" and "j < length (es_coros s)" and "es_coros s ! j = (ESession k, Runs i)"
    and "\<not> ec_over (es_clients s ! k)"
  shows "epoll_step T s s'"
proof -
  let ?c = "es_clients s ! k"
  obtain r rd st where r: "read_next T (ec_fd ?c) ev (ec_reading ?c) (es_bufs s) = (r, rd, st)" by (metis prod_cases3)
  show ?thesis
  proof (cases r)
    case None
    from e_reads [OF assms(2,3) refl r [unfolded None]] show ?thesis using assms(1) r None
      by (simp add: move_session_def after_read_def Let_def)
  next
    case (Some q)
    note r = r [unfolded Some]
    show ?thesis
    proof (cases "session_result q")
      case Polls
      then obtain tp where tp: "addTask j (es_pool s) = Returns tp"
        using assms(1) r by (auto simp: move_session_def Let_def split: outcome.splits)
      from e_polls [OF assms(2,3) refl r Polls tp] show ?thesis using assms(1) r Polls tp
        by (simp add: move_session_def after_read_def Let_def)
    next
      case (Answers rq)
      then obtain tp where tp: "addTask (length (es_coros s)) (es_pool s) = Returns tp"
        using assms(1) r by (auto simp: move_session_def Let_def split: outcome.splits)
      from e_answers [OF assms(2,3) refl r Answers tp] show ?thesis using assms(1) r Answers tp
        by (simp add: move_session_def after_read_def Let_def)
    next
      case Leaves
      from e_leaves [OF assms(2,3) refl r Leaves] show ?thesis using assms(1) r Leaves
        by (simp add: move_session_def after_read_def Let_def)
    qed
  qed
qed

lemma make_emove_step: "make_emove T m s = Some s' \<Longrightarrow> epoll_step T s s'"
proof (cases m)
  case (MReads j ev)
  then show "make_emove T m s = Some s' \<Longrightarrow> epoll_step T s s'"
    by (auto split: if_splits prod.splits eprog.splits estate.splits intro: move_session_step)
next
  case (MAccepts n)
  then show "make_emove T m s = Some s' \<Longrightarrow> epoll_step T s s'"
    by (auto simp: list_all_iff split: if_splits prod.splits eprog.splits estate.splits intro!: e_accepts)
next
  case (MTakes i)
  show "epoll_step T s s'" if m: "make_emove T m s = Some s'"
  proof -
    obtain j tp p x where "i < length (queueList (es_pool s))" "Runs i \<notin> snd ` set (es_coros s)"
      "popTask i (es_pool s) = Some (j, tp)" "j < length (es_coros s)" "es_coros s ! j = (p, x)"
      "s' = s\<lparr>es_pool := tp, es_coros := (es_coros s)[j := (p, if x = Ended then Ended else Runs i)]\<rparr>"
      using m MTakes by (auto simp del: if_split simp: if_split [of "\<lambda>r. r = Some _"] split: option.splits prod.splits)
    then show ?thesis using e_takes by metis
  qed
qed (auto split: if_splits prod.splits eprog.splits estate.splits outcome.splits intro: epoll_step.intros)

fun make_emoves :: "'t table_ops \<Rightarrow> emove list \<Rightarrow> 't esys \<Rightarrow> 't esys option" where
  "make_emoves T [] s = Some s"
| "make_emoves T (m # ms) s = Option.bind (make_emove T m s) (make_emoves T ms)"

lemma make_emoves_run: "make_emoves T ms s = Some s' \<Longrightarrow> (epoll_step T)\<^sup>*\<^sup>* s s'"
  by (induction ms arbitrary: s)
    (auto simp: bind_eq_Some_conv dest: make_emove_step intro: converse_rtranclp_into_rtranclp)

text \<open>
  Three clients: the first sends a request in two pieces and hangs up, the second sends a piece and waits while
  another event comes, the third gets the descriptor of the first.
\<close>

definition demo_estart :: "(int, ptr) omap esys" where
  "demo_estart =
     \<lparr>es_pool = new_pool 2, es_coros = [(EAccept, Rests)], es_bufs = no_bufs, es_clients = [], es_reported = []\<rparr>"

definition demo_emoves :: "emove list" where
  "demo_emoves =
     [MReports 0, MTakes 0, MAccepts 5, MAccepts 6, MAcceptWaits, MReports 1, MReports 2,
      MTakes 1, MReads 1 (ReadBytes ''GET /a''), MReads 1 (ReadFail EAGAIN),
      MTakes 0, MReads 2 (ReadBytes ''HEAD''), MTakes 1, MReads 1 (ReadBytes ('' HTTP/1.1'' @ crlf2)),
      MReads 2 (ReadFail EAGAIN), MReads 1 (ReadFail EAGAIN), MReads 1 (ReadBytes []),
      MReports 0, MTakes 0, MReads 2 (ReadFail EAGAIN), MReports 2, MTakes 0, MAccepts 5, MAcceptWaits,
      MReports 4, MTakes 0, MReads 2 (ReadFail EAGAIN), MTakes 1, MResponderEnds 3, MTakes 0,
      MReads 2 (ReadFail EAGAIN), MTakes 0, MReads 4 (ReadBytes ''PUT'')]"

definition demo_eserver :: "(int, ptr) omap esys" where
  "demo_eserver = the (make_emoves omap_table demo_emoves demo_estart)"

lemma demo_eserver_run: "(epoll_step omap_table)\<^sup>*\<^sup>* demo_estart demo_eserver"
proof -
  have "\<not> Option.is_none (make_emoves omap_table demo_emoves demo_estart)" by code_simp
  then have "make_emoves omap_table demo_emoves demo_estart = Some demo_eserver"
    unfolding demo_eserver_def by (metis is_none_simps(1) option.collapse)
  then show ?thesis by (rule make_emoves_run)
qed

lemma demo_estart_ok: "epoll_starts omap_table demo_estart"
  using no_bufs_inv pool_inv_new [of 2]
  by (simp add: epoll_starts_def demo_estart_def no_bytes_def)
    (simp add: waiting_def new_pool_def kept_def omap_table_def no_bufs_def map_lookup_def numeral_2_eq_2)

subsection \<open>Properties\<close>

text \<open>
  C8: the sessions of the epoll server share one table of uncompleted requests, run on any worker and read in
  any order, and descriptors are used again after a client has gone.  Nevertheless each session hands out exactly the
  requests that \<^verbatim>\<open>httpHandle\<close> makes of what its own reads gave, as if it alone had run from the
  start, and it has ended exactly if it would have; one responder was started for each of its requests, in order; and
  whatever the table keeps belongs to a session that still runs.
\<close>

theorem requests_do_not_mix:
  assumes "table_laws T" and "epoll_starts T s0" and "(epoll_step T)\<^sup>*\<^sup>* s0 s"
    and "k < length (es_clients s)" and "c = es_clients s ! k"
  shows "httpHandle (fst (read_calls T (ec_fd c) (ec_reads c) BeforeCall (es_bufs s0))) = (ec_requests c, ec_over c)
    \<and> responders k (es_coros s) = ec_requests c
    \<and> {n. kept T (es_bufs s) n \<noteq> None} \<subseteq> ec_fd ` {c \<in> set (es_clients s). \<not> ec_over c}"
proof -
  have n: "no_bytes T (es_bufs s0)" using assms(2) by (simp add: epoll_starts_def)
  have d: "data_inv T (es_bufs s0) (es_bufs s) (es_clients s)"
    using esys_inv_run [OF assms(3,1) n assms(2)] by (simp add: esys_inv_def)
  have "resp_inv s" using resp_inv_run [OF assms(3,1) n assms(2)] .
  then have "responders k (es_coros s) = ec_requests c" using assms(4,5) by (simp add: resp_inv_def)
  moreover have "client_inv T (es_bufs s0) (es_bufs s) c" using d assms(4,5) by (simp add: data_inv_def)
  then have "httpHandle (fst (read_calls T (ec_fd c) (ec_reads c) BeforeCall (es_bufs s0))) = (ec_requests c, ec_over c)"
    by (simp add: client_inv_def split: prod.splits)
  moreover have "{n. kept T (es_bufs s) n \<noteq> None} \<subseteq> ec_fd ` {c \<in> set (es_clients s). \<not> ec_over c}"
    using d by (auto simp: data_inv_def)
  ultimately show ?thesis by blast
qed

theorem requests_do_not_mix_witness:
  "map ec_fd (es_clients demo_eserver) = [5, 6, 5] \<and> map ec_over (es_clients demo_eserver) = [True, False, False]
    \<and> length (ec_requests (es_clients demo_eserver ! 0)) = 1
    \<and> responders 0 (es_coros demo_eserver) = ec_requests (es_clients demo_eserver ! 0)
    \<and> {n. kept omap_table (es_bufs demo_eserver) n \<noteq> None} \<subseteq> ec_fd ` {c \<in> set (es_clients demo_eserver). \<not> ec_over c}"
proof -
  have 1: "map ec_fd (es_clients demo_eserver) = [5, 6, 5]" "map ec_over (es_clients demo_eserver) = [True, False, False]"
    "length (ec_requests (es_clients demo_eserver ! 0)) = 1"
    by code_simp+
  have "0 < length (es_clients demo_eserver)" by code_simp
  from requests_do_not_mix [OF omap_table_laws demo_estart_ok demo_eserver_run this refl] 1 show ?thesis by blast
qed

text \<open>
  C17: a responder is in the pool or on a worker exactly once until it has ended, so it is neither lost nor run twice.
  A session is there as often as the event loop reported its descriptor: while it waits for the rest of a request
  it puts itself back, and each event puts it there once more, so the copies never become fewer before it ends.
\<close>

theorem events_multiply_polling:
  assumes "table_laws T" and "epoll_starts T s0" and "(epoll_step T)\<^sup>*\<^sup>* s0 s"
    and "j < length (es_coros s)" and "es_coros s ! j = (p, x)" and "x \<noteq> Ended"
  shows "(\<forall>k. p = ESession k \<longrightarrow> copies (es_pool s) j x = count_list (es_reported s) j)
    \<and> (\<forall>k rq. p = EResponder k rq \<longrightarrow> copies (es_pool s) j x = 1)"
proof -
  have n: "no_bytes T (es_bufs s0)" using assms(2) by (simp add: epoll_starts_def)
  have "sched (es_pool s) (es_coros s) (es_clients s) (es_reported s)"
    using esys_inv_run [OF assms(3,1) n assms(2)] by (simp add: esys_inv_def)
  then have "ecoro_ok (es_pool s) (es_clients s) (es_reported s) j (p, x)" using assms(4,5) unfolding sched_def by metis
  then show ?thesis using assms(6) by auto
qed

theorem events_multiply_polling_witness:
  "es_coros demo_eserver ! 2 = (ESession 1, Rests) \<and> count_list (es_reported demo_eserver) 2 = 2
    \<and> copies (es_pool demo_eserver) 2 Rests = 2"
proof -
  have 1: "es_coros demo_eserver ! 2 = (ESession 1, Rests)" "count_list (es_reported demo_eserver) 2 = 2" by code_simp+
  have "2 < length (es_coros demo_eserver)" by code_simp
  from events_multiply_polling [OF omap_table_laws demo_estart_ok demo_eserver_run this 1(1)] 1 show ?thesis by simp
qed

end
