(* ===== verification/Servers.thy ===== *)
theory Servers
  imports EpollHttp Chains
begin

text \<open>
  Starting the servers: \<^verbatim>\<open>main\<close> of \<^verbatim>\<open>demo/uringhttp.cpp\<close>, \<^verbatim>\<open>co_main\<close> and
  \<^verbatim>\<open>main\<close> of \<^verbatim>\<open>demo/httptest.cpp\<close> and \<^verbatim>\<open>demo/epolltest.cpp\<close>, up to the call of
  \<^verbatim>\<open>enter\<close>, which never returns.

  The coroutines that the programs create are given by their handles.  The socket is handed on to the accept
  loop, so it is not destroyed when the function is left by an exception after that; nothing throws
  there except the pool.
\<close>

definition default_backlog :: int where "default_backlog = 4096"

text \<open>The listening socket, or the exception; the unique pointer destroys the object it holds.\<close>

definition listening_server ::
  "('w, 'z) net_os_scheme \<Rightarrow> string \<Rightarrow> 'w \<Rightarrow> (exc + socketBase) \<times> 'w" where
  "listening_server N port w =
     (case serverSocket_ctor N port w of
        (Inl e, w) \<Rightarrow> (Inl e, w)
      | (Inr server, w) \<Rightarrow>
          (case serverSocket_listen N default_backlog server w of
             (Inl e, w) \<Rightarrow> (Inl e, socketBase_destroy N server w)
           | (Inr _, w) \<Rightarrow> (Inr server, w)))"

definition server_event :: "hnd \<Rightarrow> epoll_event" where
  "server_event accept_task = \<lparr>events = EPOLLIN, data_ptr = accept_task\<rparr>"

text \<open>The epoll servers differ in the port and the time-out only; the result of \<open>addEvent\<close> is dropped.\<close>

definition epoll_co_main ::
  "('w, 'z) net_os_scheme \<Rightarrow> epollInstance \<Rightarrow> string \<Rightarrow> hnd \<Rightarrow> hnd \<Rightarrow> threadPool \<Rightarrow> 'w \<Rightarrow>
     (socketBase \<times> threadPool) outcome \<times> 'w" where
  "epoll_co_main N ep port accept_task wait_task p w =
     (case listening_server N port w of
        (Inl e, w) \<Rightarrow> (Throws e, w)
      | (Inr server, w) \<Rightarrow>
          (case addEvent N ep (fd server) (server_event accept_task) w of
             (_, w) \<Rightarrow> (outcome_bind (addTask wait_task p) (\<lambda>p. Returns (server, p)), w)))"

definition httptest_co_main where
  "httptest_co_main N ep port accept_task wait_task p w = epoll_co_main N ep port accept_task wait_task p w"

definition epolltest_co_main where
  "epolltest_co_main N ep accept_task wait_task p w = epoll_co_main N ep ''12312'' accept_task wait_task p w"

text \<open>\<^verbatim>\<open>argv\<close> without the name of the program: the port and the directory.\<close>

definition httptest_args :: "string list \<Rightarrow> string \<times> path" where
  "httptest_args args =
     ((if args = [] then ''12312'' else args ! 0), (if length args < 2 then ''/var/www/'' else args ! 1))"

text \<open>\<open>None\<close>: the program prints its usage and ends.\<close>

definition uringhttp_main ::
  "('w, 'z) net_os_scheme \<Rightarrow> string list \<Rightarrow> hnd \<Rightarrow> hnd \<Rightarrow> threadPool \<Rightarrow> 'w \<Rightarrow>
     ((path \<times> socketBase \<times> threadPool) option) outcome \<times> 'w" where
  "uringhttp_main N args reap_task accept_task p w =
     (if length args < 2 then (Returns None, w)
      else
        (let port = args ! 0; webRoot = args ! 1
         in case listening_server N port w of
              (Inl e, w) \<Rightarrow> (Throws e, w)
            | (Inr server, w) \<Rightarrow>
                (outcome_bind (addTask reap_task p) (\<lambda>p.
                   outcome_bind (addTask accept_task p) (\<lambda>p. Returns (Some (webRoot, server, p)))), w)))"

text \<open>
  \<^verbatim>\<open>main\<close> of the epoll servers: \<^verbatim>\<open>co_main\<close> is a coroutine the program owns and resumes until
  it is done.  A body that reaches \<^verbatim>\<open>enter\<close> does not come back (\<open>None\<close>), so only a failing start
  ends; then \<^verbatim>\<open>main\<close> returns 0 when the loop ends and an exception leaves it when one escapes.
\<close>

fun resume_until_done :: "nat \<Rightarrow> task \<Rightarrow> unit machine \<Rightarrow> unit machine outcome" where
  "resume_until_done 0 t m = Returns m"
| "resume_until_done (Suc n) t m =
     (case selfCoro t of
        None \<Rightarrow> Undefined
      | Some h \<Rightarrow>
          if code (frames m ! h) = Done then Returns m
          else outcome_bind (task_resume t m) (\<lambda>m. outcome_bind (run_machine () 1 m) (resume_until_done n t)))"

definition run_owned :: "'a outcome \<times> 'w \<Rightarrow> unit machine outcome option" where
  "run_owned start =
     (case start of
        (Throws e, _) \<Rightarrow>
          (case make_task () (CoThrow e) no_frames of (mainTask, m) \<Rightarrow> Some (resume_until_done 2 mainTask m))
      | _ \<Rightarrow> None)"

definition epoll_main ::
  "('w, 'z) net_os_scheme \<Rightarrow> epollInstance \<Rightarrow> string list \<Rightarrow> hnd \<Rightarrow> hnd \<Rightarrow> threadPool \<Rightarrow> 'w \<Rightarrow> unit machine outcome option" where
  "epoll_main N ep args accept_task wait_task p w =
     run_owned (httptest_co_main N ep (fst (httptest_args args)) accept_task wait_task p w)"

definition epolltest_main ::
  "('w, 'z) net_os_scheme \<Rightarrow> epollInstance \<Rightarrow> hnd \<Rightarrow> hnd \<Rightarrow> threadPool \<Rightarrow> 'w \<Rightarrow> unit machine outcome option" where
  "epolltest_main N ep accept_task wait_task p w = run_owned (epolltest_co_main N ep accept_task wait_task p w)"

lemma run_owned_throws:
  "\<exists>m. run_owned (Throws e, w) = Some (Returns m) \<and>
    code (frames m ! 0) = Done \<and> escaped m = None \<and> getValue (promise (frames m ! 0)) = Inl e"
  by (simp add: run_owned_def make_task_def no_frames_def numeral_2_eq_2 task_resume_def resume_def
      set_code_def machine_step_def unhandled_exception_def new_promise_def finish_def final_suspend_def
      returnPrevAwaiter_suspend_def transfer_def getValue_def Let_def)

lemma failed_start_of_echo_is_silent:
  "epolltest_co_main N ep accept_task wait_task p w = (Throws e, w') \<Longrightarrow>
     \<exists>m. epolltest_main N ep accept_task wait_task p w = Some (Returns m) \<and> escaped m = None"
  using run_owned_throws [of e w'] by (auto simp: epolltest_main_def)

subsection \<open>What a start leaves\<close>

text \<open>Listening and the interest list do not open or close descriptors.\<close>

definition start_fd_laws :: "('w, 'z) net_os_scheme \<Rightarrow> ('w \<Rightarrow> int set) \<Rightarrow> bool" where
  "start_fd_laws N fds \<longleftrightarrow>
     (\<forall>n b w. fds (snd (sys_listen N n b w)) = fds w)
     \<and> (\<forall>n k c ev w. fds (snd (epoll_ctl N n k c ev w)) = fds w)"

lemma start_fd_lawsD:
  assumes "start_fd_laws N fds"
  shows "sys_listen N n b w = (r, w') \<Longrightarrow> fds w' = fds w"
    and "epoll_ctl N n k c ev w = (r, w') \<Longrightarrow> fds w' = fds w"
  using assms [unfolded start_fd_laws_def, THEN conjunct1, rule_format, of n b w]
    assms [unfolded start_fd_laws_def, THEN conjunct2, rule_format, of n k c ev w] by simp_all

lemma listening_server_fds:
  assumes "net_fd_laws N fds infos" and "start_fd_laws N fds" and "listening_server N port w = (r, w')"
  shows "case r of
      Inl e \<Rightarrow> fds w' = fds w
    | Inr s \<Rightarrow> 0 \<le> fd s \<and> fd s \<notin> fds w \<and> fds w' = insert (fd s) (fds w)"
proof -
  obtain c w1 where c: "serverSocket_ctor N port w = (c, w1)" by fastforce
  obtain g a w0 where g: "sys_getaddrinfo N port w = (g, a, w0)" by (metis prod.exhaust)
  note ctor = server_ctor_paths [OF assms(1) g c]
  show ?thesis
  proof (cases c)
    case (Inl e)
    then show ?thesis using ctor assms(3) by (auto simp: listening_server_def c split: if_splits)
  next
    case (Inr s)
    then have s: "0 \<le> fd s" "fd s \<notin> fds w" "fds w1 = insert (fd s) (fds w)"
      using ctor by (auto split: if_splits)
    obtain q w2 where q: "sys_listen N (fd s) default_backlog w1 = (q, w2)" by fastforce
    have "fds w2 = insert (fd s) (fds w)" using start_fd_lawsD(1) [OF assms(2) q] s(3) by simp
    then show ?thesis using assms(3) s net_fd_lawsD(8) [OF assms(1)] q
      by (auto simp: listening_server_def c Inr serverSocket_listen_def or_throw_checkError socketBase_destroy_def
          split: if_splits)
  qed
qed

text \<open>
  C33: a server starts completely or leaves nothing.  When \<^verbatim>\<open>co_main\<close> of an epoll server throws, no
  descriptor is open that was not open before; otherwise there is exactly one more, the listening
  socket, its event with the coroutine of the accept loop has been given to epoll (whether epoll took it is
  not looked at), and the coroutine that waits for events is in the pool once more than before.
\<close>

theorem server_starts:
  assumes "net_fd_laws N fds infos" and "start_fd_laws N fds" and "pool_inv p"
    and "epoll_co_main N ep port accept_task wait_task p w = (r, w')"
  shows "case r of
      Throws e \<Rightarrow> fds w' = fds w
    | Returns (server, p') \<Rightarrow> 0 \<le> fd server \<and> fd server \<notin> fds w \<and> fds w' = insert (fd server) (fds w) \<and>
        waiting p' = add_mset wait_task (waiting p) \<and> pool_inv p' \<and>
        (\<exists>w0. snd (epoll_ctl N (epfd ep) EPOLL_CTL_ADD (fd server) (Some (server_event accept_task)) w0) = w')
    | Undefined \<Rightarrow> False"
proof -
  obtain l w1 where l: "listening_server N port w = (l, w1)" by fastforce
  note f = listening_server_fds [OF assms(1,2) l]
  show ?thesis
  proof (cases l)
    case (Inl e)
    then show ?thesis using f assms(4) by (auto simp: epoll_co_main_def l)
  next
    case (Inr server)
    obtain q w2 where q: "epoll_ctl N (epfd ep) EPOLL_CTL_ADD (fd server) (Some (server_event accept_task)) w1 = (q, w2)"
      by fastforce
    obtain p' where p': "addTask wait_task p = Returns p'" "pool_inv p'" "waiting p' = add_mset wait_task (waiting p)"
      using tp.add_step [OF assms(3)] by blast
    have "r = Returns (server, p')" "w' = w2"
      using assms(4) by (simp_all add: epoll_co_main_def l Inr addEvent_def q p')
    moreover have "fds w2 = fds w1" by (rule start_fd_lawsD(2) [OF assms(2) q])
    moreover have "\<exists>w0. snd (epoll_ctl N (epfd ep) EPOLL_CTL_ADD (fd server) (Some (server_event accept_task)) w0) = w2"
      using q by (metis snd_conv)
    ultimately show ?thesis using f p'(2,3) Inr by simp
  qed
qed

text \<open>
  A failed start is silent.  Whatever exception \<^verbatim>\<open>co_main\<close> ends with, also that the port
  is in use, it is kept in the promise of a task that is resumed but never awaited:
  \<^verbatim>\<open>main\<close> sees a coroutine that is done, nothing is thrown to it, and it returns 0.
\<close>

lemma failed_start_is_silent:
  assumes "httptest_co_main N ep (fst (httptest_args args)) accept_task wait_task p w = (Throws e, w')"
  shows "\<exists>m. epoll_main N ep args accept_task wait_task p w = Some (Returns m) \<and>
    code (frames m ! 0) = Done \<and> escaped m = None \<and> getValue (promise (frames m ! 0)) = Inl e"
  unfolding epoll_main_def assms by (rule run_owned_throws)

theorem server_starts_witness:
  "\<exists>server p' w'. epoll_co_main (demo_net_os 0) \<lparr>epfd = 3\<rparr> ''80'' 50 51 (new_pool 2) demo_net0 = (Returns (server, p'), w') \<and>
     fd server = 11 \<and> waiting p' = {#51#} \<and> int ` set (nfds w') = {4, 6, 11}"
proof -
  have s: "start_fd_laws (demo_net_os 0) (\<lambda>w. int ` set (nfds w))"
    by (auto simp: start_fd_laws_def demo_net_os_def split: epoll_op.splits option.splits)
  have p: "pool_inv (new_pool 2)" by (simp add: pool_inv_new)
  obtain p' where a: "addTask 51 (new_pool 2) = Returns p'" using tp.add_step [OF p] by blast
  obtain w' where r: "epoll_co_main (demo_net_os 0) \<lparr>epfd = 3\<rparr> ''80'' 50 51 (new_pool 2) demo_net0 =
      (Returns (\<lparr>fd = 11\<rparr>, p'), w')"
    by (simp add: epoll_co_main_def listening_server_def serverSocket_ctor_def serverSocket_listen_def addEvent_def a
        demo_net_os_def demo_net0_def or_throw_checkError socketBase_destroy_def Let_def)
  have "waiting (new_pool 2) = {#}" by (simp add: waiting_def new_pool_def numeral_2_eq_2)
  then show ?thesis
    using server_starts [OF demo_net_fd_laws s p r(1)] r by (auto simp: demo_net0_def)
qed

end
