(* ===== verification/BufferPool.thy ===== *)
theory BufferPool
  imports Errors
begin

text \<open>
  The pool of buffers (\<^verbatim>\<open>include/utils/BufferPool.hpp\<close>).

  A buffer is an address.  The flags \<^verbatim>\<open>used\<close> are atomic and the two operations scan the array
  without a lock, so the second part models threads that scan at the same time: each
  \<^verbatim>\<open>test_and_set\<close> and each \<^verbatim>\<open>clear\<close> is one step.
\<close>

type_synonym buf = nat

record bufferPool =
  buffers :: "buf list"
  used :: "bool list"

definition bufferSize :: nat where "bufferSize = 1024"

text \<open>The constructor, with the addresses \<^verbatim>\<open>new\<close> gives.\<close>

definition bufferPool_ctor :: "buf list \<Rightarrow> bufferPool" where
  "bufferPool_ctor news = \<lparr>buffers = news, used = replicate (length news) False\<rparr>"

text \<open>
  The destructor: \<^verbatim>\<open>delete\<close> of each buffer in turn.  It is only defined for what
  \<^verbatim>\<open>new\<close> gave, and the constructor takes every buffer with \<^verbatim>\<open>new T[]\<close>.
\<close>

datatype allocated = ByNew | ByNewArray

fun cpp_delete :: "allocated \<Rightarrow> unit outcome" where
  "cpp_delete ByNew = Returns ()"
| "cpp_delete ByNewArray = Undefined"

fun delete_all :: "(buf \<Rightarrow> allocated) \<Rightarrow> buf list \<Rightarrow> unit outcome" where
  "delete_all a [] = Returns ()"
| "delete_all a (b # bs) = outcome_bind (cpp_delete (a b)) (\<lambda>_. delete_all a bs)"

definition bufferPool_destroy :: "bufferPool \<Rightarrow> unit outcome" where
  "bufferPool_destroy p = delete_all (\<lambda>_. ByNewArray) (buffers p)"

lemma bufferPool_destroy_undefined: "bufferPool_destroy (bufferPool_ctor news) = Undefined \<longleftrightarrow> news \<noteq> []"
  by (cases news) (simp_all add: bufferPool_destroy_def bufferPool_ctor_def)

definition pool_size :: "bufferPool \<Rightarrow> nat" where
  "pool_size p = length (buffers p)"

subsection \<open>The operations of one thread\<close>

text \<open>The scan of \<^verbatim>\<open>getBuffer\<close> from index \<open>i\<close> on; \<open>k\<close> entries are left.\<close>

fun get_scan :: "nat \<Rightarrow> nat \<Rightarrow> bufferPool \<Rightarrow> (buf \<times> nat) outcome \<times> bufferPool" where
  "get_scan i 0 p = (Throws BufferRunOut, p)"
| "get_scan i (Suc k) p =
     (if \<not> used p ! i then (Returns (buffers p ! i, bufferSize), p\<lparr>used := (used p)[i := True]\<rparr>)
      else get_scan (Suc i) k p)"

definition pool_getBuffer :: "bufferPool \<Rightarrow> (buf \<times> nat) outcome \<times> bufferPool" where
  "pool_getBuffer p = get_scan 0 (length (buffers p)) p"

fun return_scan :: "nat \<Rightarrow> nat \<Rightarrow> buf \<Rightarrow> bufferPool \<Rightarrow> bufferPool" where
  "return_scan i 0 b p = p"
| "return_scan i (Suc k) b p =
     (if buffers p ! i = b then p\<lparr>used := (used p)[i := False]\<rparr> else return_scan (Suc i) k b p)"

definition returnBuffer :: "buf \<Rightarrow> bufferPool \<Rightarrow> bufferPool" where
  "returnBuffer b p = return_scan 0 (length (buffers p)) b p"

definition bp_inv :: "bufferPool \<Rightarrow> bool" where
  "bp_inv p \<longleftrightarrow> distinct (buffers p) \<and> length (used p) = length (buffers p)"

definition free_bufs :: "bufferPool \<Rightarrow> buf set" where
  "free_bufs p = {buffers p ! i | i. i < length (buffers p) \<and> \<not> used p ! i}"

subsection \<open>The interface of an allocator\<close>

text \<open>
  What a client of the pool relies on: a buffer that is given out was free and is not free any more,
  the call fails only when nothing is free, and returning a buffer of the pool makes it free.
\<close>

locale allocator =
  fixes get :: "'p \<Rightarrow> 'b option \<times> 'p"
    and put :: "'b \<Rightarrow> 'p \<Rightarrow> 'p"
    and avail :: "'p \<Rightarrow> 'b set"
    and owned :: "'p \<Rightarrow> 'b set"
    and invar :: "'p \<Rightarrow> bool"
  assumes get_some: "invar p \<Longrightarrow> get p = (Some b, p') \<Longrightarrow> b \<in> avail p \<and> avail p' = avail p - {b}"
    and get_none: "invar p \<Longrightarrow> get p = (None, p') \<Longrightarrow> avail p = {} \<and> avail p' = {}"
    and get_invar: "invar p \<Longrightarrow> get p = (r, p') \<Longrightarrow> invar p' \<and> owned p' = owned p"
    and put_avail: "invar p \<Longrightarrow> b \<in> owned p \<Longrightarrow> avail (put b p) = insert b (avail p)"
    and put_invar: "invar p \<Longrightarrow> invar (put b p) \<and> owned (put b p) = owned p"
    and avail_owned: "invar p \<Longrightarrow> avail p \<subseteq> owned p \<and> finite (owned p)"
begin

text \<open>Taking a number of buffers.\<close>

fun get_many :: "nat \<Rightarrow> 'p \<Rightarrow> 'b option list \<times> 'p" where
  "get_many 0 p = ([], p)"
| "get_many (Suc n) p = (case get p of (r, p) \<Rightarrow> case get_many n p of (rs, p) \<Rightarrow> (r # rs, p))"

lemma get_many_distinct:
  "invar p \<Longrightarrow> get_many n p = (rs, p') \<Longrightarrow>
     \<exists>bs. rs = map Some bs @ replicate (n - length bs) None \<and> distinct bs \<and> set bs \<subseteq> avail p \<and>
       length bs = min n (card (avail p)) \<and> avail p' = avail p - set bs"
proof (induction n arbitrary: p rs)
  case 0
  then show ?case by (intro exI [of _ "[]"]) simp
next
  case (Suc n)
  obtain r p1 rs1 where s: "get p = (r, p1)" "get_many n p1 = (rs1, p')" "rs = r # rs1"
    using Suc.prems(2) by (auto split: prod.splits)
  have inv: "invar p1" using get_invar [OF Suc.prems(1) s(1)] by simp
  have fin: "finite (avail p)" using avail_owned [OF Suc.prems(1)] finite_subset by blast
  from Suc.IH [OF inv s(2)] obtain bs where bs: "rs1 = map Some bs @ replicate (n - length bs) None" "distinct bs"
    "set bs \<subseteq> avail p1" "length bs = min n (card (avail p1))" "avail p' = avail p1 - set bs" by blast
  show ?case
  proof (cases r)
    case None
    then have "avail p = {}" "avail p1 = {}" using get_none [OF Suc.prems(1)] s(1) by simp_all
    with bs s(3) None show ?thesis by (intro exI [of _ "[]"]) simp
  next
    case (Some b)
    then have a: "b \<in> avail p" "avail p1 = avail p - {b}" using get_some [OF Suc.prems(1)] s(1) by simp_all
    then have "card (avail p1) = card (avail p) - 1" "card (avail p) \<noteq> 0" using fin by auto
    with bs a s(3) Some show ?thesis by (intro exI [of _ "b # bs"]) (auto simp: min_def)
  qed
qed

end

lemma get_scan_result:
  "i + k = length (buffers p) \<Longrightarrow>
     (\<exists>j. i \<le> j \<and> j < length (buffers p) \<and> \<not> used p ! j \<and>
        get_scan i k p = (Returns (buffers p ! j, bufferSize), p\<lparr>used := (used p)[j := True]\<rparr>)) \<or>
     (\<forall>j. i \<le> j \<and> j < length (buffers p) \<longrightarrow> used p ! j) \<and> get_scan i k p = (Throws BufferRunOut, p)"
proof (induction k arbitrary: i)
  case (Suc k)
  show ?case
  proof (cases "used p ! i")
    case True
    have "Suc i + k = length (buffers p)" using Suc.prems by simp
    from Suc.IH [OF this] show ?thesis
    proof
      assume "\<exists>j. Suc i \<le> j \<and> j < length (buffers p) \<and> \<not> used p ! j \<and>
        get_scan (Suc i) k p = (Returns (buffers p ! j, bufferSize), p\<lparr>used := (used p)[j := True]\<rparr>)"
      then show ?thesis using True by (metis Suc_leD get_scan.simps(2))
    next
      assume "(\<forall>j. Suc i \<le> j \<and> j < length (buffers p) \<longrightarrow> used p ! j) \<and> get_scan (Suc i) k p = (Throws BufferRunOut, p)"
      moreover then have "\<forall>j. i \<le> j \<and> j < length (buffers p) \<longrightarrow> used p ! j"
        using True by (metis Suc_leI le_neq_implies_less)
      ultimately show ?thesis using True by simp
    qed
  next
    case False
    then show ?thesis using Suc.prems by (intro disjI1 exI [of _ i]) simp
  qed
qed auto

lemma pool_getBuffer_cases:
  obtains j where "j < length (buffers p)" and "\<not> used p ! j"
      and "pool_getBuffer p = (Returns (buffers p ! j, bufferSize), p\<lparr>used := (used p)[j := True]\<rparr>)"
    | "\<forall>j < length (buffers p). used p ! j" and "pool_getBuffer p = (Throws BufferRunOut, p)"
  using get_scan_result [of 0 "length (buffers p)" p] by (auto simp: pool_getBuffer_def)

lemma return_scan_result:
  "i + k = length (buffers p) \<Longrightarrow> i \<le> j \<Longrightarrow> j < length (buffers p) \<Longrightarrow> distinct (buffers p) \<Longrightarrow>
     return_scan i k (buffers p ! j) p = p\<lparr>used := (used p)[j := False]\<rparr>"
proof (induction k arbitrary: i)
  case (Suc k)
  then show ?case by (cases "i = j") (simp_all add: nth_eq_iff_index_eq)
qed simp

lemma returnBuffer_result:
  "bp_inv p \<Longrightarrow> j < length (buffers p) \<Longrightarrow> returnBuffer (buffers p ! j) p = p\<lparr>used := (used p)[j := False]\<rparr>"
  using return_scan_result [of 0 "length (buffers p)" p j] by (simp add: returnBuffer_def bp_inv_def)

definition get_opt :: "bufferPool \<Rightarrow> buf option \<times> bufferPool" where
  "get_opt p = (case pool_getBuffer p of (Returns (b, _), p) \<Rightarrow> (Some b, p) | (_, p) \<Rightarrow> (None, p))"

lemma free_bufs_taken:
  assumes "bp_inv p" and "j < length (buffers p)"
  shows "free_bufs (p\<lparr>used := (used p)[j := True]\<rparr>) = free_bufs p - {buffers p ! j}"
    and "free_bufs (p\<lparr>used := (used p)[j := False]\<rparr>) = insert (buffers p ! j) (free_bufs p)"
  using assms by (auto simp: free_bufs_def bp_inv_def nth_list_update nth_eq_iff_index_eq split: if_splits)

interpretation bp: allocator get_opt returnBuffer free_bufs "\<lambda>p. set (buffers p)" bp_inv
proof
  fix p b p' assume i: "bp_inv p" and g: "get_opt p = (Some b, p')"
  show "b \<in> free_bufs p \<and> free_bufs p' = free_bufs p - {b}"
  proof (cases rule: pool_getBuffer_cases [of p])
    case (1 j)
    then have "b = buffers p ! j" "p' = p\<lparr>used := (used p)[j := True]\<rparr>" using g by (simp_all add: get_opt_def)
    then show ?thesis using free_bufs_taken [OF i 1(1)] 1(1,2) by (auto simp: free_bufs_def)
  next
    case 2
    with g show ?thesis by (simp add: get_opt_def)
  qed
next
  fix p p' assume "bp_inv p" and g: "get_opt p = (None, p')"
  then show "free_bufs p = {} \<and> free_bufs p' = {}"
    by (cases rule: pool_getBuffer_cases [of p]) (auto simp: get_opt_def free_bufs_def)
next
  fix p r p' assume "bp_inv p" and "get_opt p = (r, p')"
  then show "bp_inv p' \<and> set (buffers p') = set (buffers p)"
    by (cases rule: pool_getBuffer_cases [of p]) (auto simp: get_opt_def bp_inv_def)
next
  fix p b assume i: "bp_inv p" and "b \<in> set (buffers p)"
  then obtain j where "j < length (buffers p)" "b = buffers p ! j" by (auto simp: in_set_conv_nth)
  then show "free_bufs (returnBuffer b p) = insert b (free_bufs p)"
    using returnBuffer_result [OF i] free_bufs_taken(2) [OF i] by simp
next
  fix p b assume i: "bp_inv p"
  have "return_scan n k b p = p \<or> (\<exists>j. return_scan n k b p = p\<lparr>used := (used p)[j := False]\<rparr>)" for n k
    by (induction k arbitrary: n) auto
  then have "returnBuffer b p = p \<or> (\<exists>j. returnBuffer b p = p\<lparr>used := (used p)[j := False]\<rparr>)"
    by (simp add: returnBuffer_def)
  then show "bp_inv (returnBuffer b p) \<and> set (buffers (returnBuffer b p)) = set (buffers p)"
    using i by (auto simp: bp_inv_def)
next
  fix p assume "bp_inv p"
  then show "free_bufs p \<subseteq> set (buffers p) \<and> finite (set (buffers p))" by (auto simp: free_bufs_def)
qed

subsection \<open>The pool shared by threads\<close>

text \<open>
  A thread that is inside \<^verbatim>\<open>getBuffer\<close> is at an index of the scan; \<open>held\<close> are the indices of
  the buffers that were given out and not returned.
\<close>

record bsys =
  bpool :: bufferPool
  scanning :: "nat list"
  held :: "nat list"
  run_outs :: nat

inductive bp_step :: "bsys \<Rightarrow> bsys \<Rightarrow> bool" where
  get_start:
    "bp_step s (s\<lparr>scanning := 0 # scanning s\<rparr>)"
| get_used:
    "\<lbrakk>i \<in> set (scanning s); i < length (buffers (bpool s)); used (bpool s) ! i\<rbrakk> \<Longrightarrow>
     bp_step s (s\<lparr>scanning := Suc i # remove1 i (scanning s)\<rparr>)"
| get_free:
    "\<lbrakk>i \<in> set (scanning s); i < length (buffers (bpool s)); \<not> used (bpool s) ! i\<rbrakk> \<Longrightarrow>
     bp_step s (s\<lparr>scanning := remove1 i (scanning s), held := i # held s,
                  bpool := (bpool s)\<lparr>used := (used (bpool s))[i := True]\<rparr>\<rparr>)"
| get_throw:
    "\<lbrakk>i \<in> set (scanning s); length (buffers (bpool s)) \<le> i\<rbrakk> \<Longrightarrow>
     bp_step s (s\<lparr>scanning := remove1 i (scanning s), run_outs := Suc (run_outs s)\<rparr>)"
| give_back:
    "i \<in> set (held s) \<Longrightarrow>
     bp_step s (s\<lparr>held := remove1 i (held s), bpool := returnBuffer (buffers (bpool s) ! i) (bpool s)\<rparr>)"

definition bp_start :: "buf list \<Rightarrow> bsys" where
  "bp_start news = \<lparr>bpool = bufferPool_ctor news, scanning = [], held = [], run_outs = 0\<rparr>"

definition bsys_inv :: "buf list \<Rightarrow> bsys \<Rightarrow> bool" where
  "bsys_inv news s \<longleftrightarrow> bp_inv (bpool s) \<and> buffers (bpool s) = news \<and> distinct (held s) \<and>
     (\<forall>i. i \<in> set (held s) \<longleftrightarrow> i < length news \<and> used (bpool s) ! i)"

lemma bsys_inv_step: "bp_step s s' \<Longrightarrow> bsys_inv news s \<Longrightarrow> bsys_inv news s'"
proof (induction rule: bp_step.induct)
  case (get_free i s)
  then show ?case by (auto simp: bsys_inv_def bp_inv_def nth_list_update)
next
  case (give_back i s)
  then have i: "bp_inv (bpool s)" "i < length (buffers (bpool s))" by (auto simp: bsys_inv_def)
  from give_back returnBuffer_result [OF i] show ?case
    by (auto simp: bsys_inv_def bp_inv_def nth_list_update)
qed (auto simp: bsys_inv_def)

lemma bsys_inv_reachable:
  assumes "bp_step\<^sup>*\<^sup>* (bp_start news) s" and "distinct news"
  shows "bsys_inv news s"
  using assms(1)
proof (induction rule: rtranclp_induct)
  case base
  then show ?case using assms(2) by (auto simp: bsys_inv_def bp_start_def bufferPool_ctor_def bp_inv_def)
next
  case (step s s')
  then show ?case using bsys_inv_step by blast
qed

subsection \<open>Properties\<close>

text \<open>
  C39: a buffer has one owner.  Whatever the interleaving of threads that take and return buffers, the
  buffers that are held are pairwise different buffers of the pool, so no memory is given to two
  owners; and a buffer that nobody holds is marked as free.
\<close>

theorem buffer_has_one_owner:
  assumes "distinct news" and "bp_step\<^sup>*\<^sup>* (bp_start news) s"
  shows "distinct (map ((!) news) (held s)) \<and> set (map ((!) news) (held s)) \<subseteq> set news \<and>
    free_bufs (bpool s) = set news - set (map ((!) news) (held s))"
proof -
  let ?n = "length news"
  note i = bsys_inv_reachable [OF assms(2,1)]
  have inj: "inj_on ((!) news) {..<?n}" using assms(1) by (simp add: inj_on_nth)
  have h: "set (held s) = {i. i < ?n \<and> used (bpool s) ! i}" using i by (auto simp: bsys_inv_def)
  have "inj_on ((!) news) (set (held s))" by (rule inj_on_subset [OF inj]) (auto simp: h)
  then have d: "distinct (map ((!) news) (held s))" using i by (simp add: bsys_inv_def distinct_map)
  have n: "set news = (!) news ` {..<?n}" by (auto simp: in_set_conv_nth)
  have "free_bufs (bpool s) = (!) news ` ({..<?n} - set (held s))"
    using i by (auto simp: bsys_inv_def free_bufs_def h)
  also have "\<dots> = (!) news ` {..<?n} - (!) news ` set (held s)"
    by (rule inj_on_image_set_diff [OF inj]) (auto simp: h)
  finally have "free_bufs (bpool s) = set news - (!) news ` set (held s)" by (simp only: n)
  then show ?thesis using d h by auto
qed

text \<open>A run of the pool with two buffers, in which a buffer is free at every moment.\<close>

definition bp_free_step :: "bsys \<Rightarrow> bsys \<Rightarrow> bool" where
  "bp_free_step s s' \<longleftrightarrow> bp_step s s' \<and> free_bufs (bpool s') \<noteq> {}"

definition bp_state :: "bool \<Rightarrow> bool \<Rightarrow> nat list \<Rightarrow> nat list \<Rightarrow> nat \<Rightarrow> bsys" where
  "bp_state u0 u1 sc h r = \<lparr>bpool = \<lparr>buffers = [10, 20], used = [u0, u1]\<rparr>, scanning = sc, held = h, run_outs = r\<rparr>"

lemma bp_state_free: "\<not> (u0 \<and> u1) \<Longrightarrow> free_bufs (bpool (bp_state u0 u1 sc h r)) \<noteq> {}"
  by (auto simp: bp_state_def free_bufs_def less_Suc_eq numeral_2_eq_2)

lemma bp_state_steps:
  "bp_free_step (bp_state False False sc h r) (bp_state False False (0 # sc) h r)"
  "bp_free_step (bp_state True False sc h r) (bp_state True False (0 # sc) h r)"
  "bp_free_step (bp_state False False (0 # sc) h r) (bp_state True False sc (0 # h) r)"
  "bp_free_step (bp_state True False (0 # sc) h r) (bp_state True False (Suc 0 # sc) h r)"
  "bp_free_step (bp_state True False sc (0 # h) r) (bp_state False False sc h r)"
  "bp_free_step (bp_state False False (Suc 0 # sc) h r) (bp_state False True sc (Suc 0 # h) r)"
  "bp_free_step (bp_state False True (Suc 0 # sc) h r) (bp_state False True (Suc (Suc 0) # sc) h r)"
  "bp_free_step (bp_state False True (Suc (Suc 0) # sc) h r) (bp_state False True sc h (Suc r))"
proof -
  note d = bp_free_step_def bp_state_free
  show "bp_free_step (bp_state False False sc h r) (bp_state False False (0 # sc) h r)"
    using get_start [of "bp_state False False sc h r"] by (simp add: d) (simp add: bp_state_def)
  show "bp_free_step (bp_state True False sc h r) (bp_state True False (0 # sc) h r)"
    using get_start [of "bp_state True False sc h r"] by (simp add: d) (simp add: bp_state_def)
  show "bp_free_step (bp_state False False (0 # sc) h r) (bp_state True False sc (0 # h) r)"
    using get_free [of 0 "bp_state False False (0 # sc) h r"] by (simp add: d) (simp add: bp_state_def)
  show "bp_free_step (bp_state True False (0 # sc) h r) (bp_state True False (Suc 0 # sc) h r)"
    using get_used [of 0 "bp_state True False (0 # sc) h r"] by (simp add: d) (simp add: bp_state_def)
  show "bp_free_step (bp_state True False sc (0 # h) r) (bp_state False False sc h r)"
    using give_back [of 0 "bp_state True False sc (0 # h) r"]
    by (simp add: d) (simp add: bp_state_def returnBuffer_def numeral_2_eq_2)
  show "bp_free_step (bp_state False False (Suc 0 # sc) h r) (bp_state False True sc (Suc 0 # h) r)"
    using get_free [of "Suc 0" "bp_state False False (Suc 0 # sc) h r"] by (simp add: d) (simp add: bp_state_def)
  show "bp_free_step (bp_state False True (Suc 0 # sc) h r) (bp_state False True (Suc (Suc 0) # sc) h r)"
    using get_used [of "Suc 0" "bp_state False True (Suc 0 # sc) h r"] by (simp add: d) (simp add: bp_state_def)
  show "bp_free_step (bp_state False True (Suc (Suc 0) # sc) h r) (bp_state False True sc h (Suc r))"
    using get_throw [of "Suc (Suc 0)" "bp_state False True (Suc (Suc 0) # sc) h r"]
    by (simp add: d) (simp add: bp_state_def)
qed

lemma two_steps: "r a b \<Longrightarrow> r b c \<Longrightarrow> r\<^sup>*\<^sup>* a c"
  by (rule converse_rtranclp_into_rtranclp [OF _ r_into_rtranclp])

text \<open>
  The pool can run out although a buffer is free all the time.  The scan does not look again at
  the entries it has passed: with two buffers there is a run in which a buffer is free after every
  step, and yet \<^verbatim>\<open>getBuffer\<close> throws \<^verbatim>\<open>bufferRunOut\<close>.
\<close>

lemma run_out_with_free_buffer:
  "\<exists>s. bp_free_step\<^sup>*\<^sup>* (bp_start [10, 20]) s \<and> run_outs s = 1"
proof -
  note s = bp_state_steps
  have start: "bp_start [10, 20] = bp_state False False [] [] 0"
    by (simp add: bp_start_def bufferPool_ctor_def bp_state_def numeral_2_eq_2)
  have "bp_free_step\<^sup>*\<^sup>* (bp_start [10, 20]) (bp_state True False [] [0] 0)"
    unfolding start by (rule two_steps, rule s(1), rule s(3))
  also have "bp_free_step\<^sup>*\<^sup>* \<dots> (bp_state True False [Suc 0] [0] 0)"
    by (rule two_steps, rule s(2), rule s(4))
  also have "bp_free_step\<^sup>*\<^sup>* \<dots> (bp_state True False [Suc 0, Suc 0] [0] 0)"
    by (rule two_steps, rule s(2), rule s(4))
  also have "bp_free_step\<^sup>*\<^sup>* \<dots> (bp_state False True [Suc 0] [Suc 0] 0)"
    by (rule two_steps, rule s(5), rule s(6))
  also have "bp_free_step\<^sup>*\<^sup>* \<dots> (bp_state False True [] [Suc 0] 1)"
    unfolding One_nat_def by (rule two_steps, rule s(7), rule s(8))
  finally show ?thesis by (intro exI [of _ "bp_state False True [] [Suc 0] 1"]) (simp add: bp_state_def)
qed

theorem buffer_has_one_owner_witness:
  "bp_step\<^sup>*\<^sup>* (bp_start [10, 20]) (bp_state True False [] [0] 0) \<and>
     free_bufs (bpool (bp_state True False [] [0] 0)) = {20}"
proof -
  have start: "bp_start [10, 20] = bp_state False False [] [] 0"
    by (simp add: bp_start_def bufferPool_ctor_def bp_state_def numeral_2_eq_2)
  have r: "bp_step\<^sup>*\<^sup>* (bp_start [10, 20]) (bp_state True False [] [0] 0)"
    using bp_state_steps(1) [of "[]" "[]" 0] bp_state_steps(3) [of "[]" "[]" 0]
    unfolding start bp_free_step_def by (blast intro: two_steps)
  have "distinct [10, 20 :: nat]" by simp
  from buffer_has_one_owner [OF this r] r show ?thesis by (auto simp: bp_state_def)
qed

end
