(* ===== verification/Spec2Isabelle.thy ===== *)
theory Spec2Isabelle
  imports HttpParse HttpResponse HttpRead FileCache CacheRun LoopSystem Locks Deadlock Wakeup Tasks Chains Timer Generators
    Uring Sockets Connections UringSockets UringHttp UringSession UringSystem UringServer EpollHttp EpollServer Servers BufferPool
begin

text \<open>
  Verification development of CoroIOMultiplex, a C++23 coroutine library for network servers and the
  servers built on it.

  \<^bold>\<open>The program.\<close>  A pool of worker threads (\<^verbatim>\<open>include/async/Loop.hpp\<close>) runs coroutines
  (\<^verbatim>\<open>include/async/Tasks.hpp\<close>).  Two event loops, themselves coroutines, hand coroutines to the
  pool when the kernel reports an event: epoll (\<^verbatim>\<open>include/async/Epoll.hpp\<close>) and io_uring
  (\<^verbatim>\<open>include/async/Uring.hpp\<close>, with the awaiters of \<^verbatim>\<open>include/uring/Socket.hpp\<close>).  On
  top are sockets and the accept loop (\<^verbatim>\<open>include/http/Socket.hpp\<close>), the HTTP messages
  (\<^verbatim>\<open>include/http/Http.hpp\<close>, \<^verbatim>\<open>src/http/Http.cpp\<close>), the file cache
  (\<^verbatim>\<open>include/utils/Lru.hpp\<close>, \<^verbatim>\<open>include/file\<close>), and the servers in
  \<^verbatim>\<open>demo\<close>.

  \<^bold>\<open>The theories.\<close>
  \<^item> \<^verbatim>\<open>Prelude\<close>: string views (\<^verbatim>\<open>find\<close>, \<^verbatim>\<open>remove_prefix\<close>), decimal numerals,
    \<^verbatim>\<open>and_then\<close>, and the facts about lists they share.
  \<^item> \<^verbatim>\<open>Errors\<close>: the error categories and enumerations, \<^verbatim>\<open>checkError\<close>, and \<open>outcome\<close>: a
    call returns, throws, or runs into undefined behaviour.
  \<^item> \<^verbatim>\<open>FsPath\<close>: what the code uses of \<^verbatim>\<open>std::filesystem::path\<close> on POSIX, and the lexical
    resolution of a path against which safety is stated.
  \<^item> \<^verbatim>\<open>HeaderMap\<close>: \<^verbatim>\<open>std::map\<close> as a sorted association list; the interfaces of a map.
  \<^item> \<^verbatim>\<open>HttpParse\<close>: the parser and the grammar it accepts.
  \<^item> \<^verbatim>\<open>HttpResponse\<close>: the constructor of a response and its bytes.
  \<^item> \<^verbatim>\<open>HttpRead\<close>: \<^verbatim>\<open>readRequest\<close> of the epoll server with the table of uncompleted requests.
  \<^item> \<^verbatim>\<open>Lru\<close>, \<^verbatim>\<open>FileCache\<close>: the cache with its list nodes and iterators, its specification as
    a list, and the files it holds; \<^verbatim>\<open>CacheRun\<close>: any sequence of its operations, with the
    descriptors of the process.
  \<^item> \<^verbatim>\<open>Loop\<close>: the operations of the pool one by one and the race of its constructor;
    \<^verbatim>\<open>LoopSystem\<close>: the pool shared by threads, as a step relation over the critical sections;
    \<^verbatim>\<open>Locks\<close>: the same with every lock operation, and every operation on the condition variable, a step of its own,
    \<^verbatim>\<open>Deadlock\<close>: how these come to an end, and \<^verbatim>\<open>Wakeup\<close>: who is notified.
  \<^item> \<^verbatim>\<open>Tasks\<close>: promises and awaiters, and the machine of coroutine frames for one thread;
    \<^verbatim>\<open>Chains\<close>: the same table of frames shared by any number of worker threads, with
    \<^verbatim>\<open>demo/threadpooltest.cpp\<close>; \<^verbatim>\<open>Timer\<close>: \<^verbatim>\<open>getSelfAwaiter\<close> and
    the timers on top of it; \<^verbatim>\<open>Generators\<close>: \<^verbatim>\<open>yieldPromiseType\<close> and
    \<^verbatim>\<open>whenAll\<close>.
  \<^item> \<^verbatim>\<open>Uring\<close>, \<^verbatim>\<open>Epoll\<close>, \<^verbatim>\<open>Sockets\<close>: the event loops, the awaiters and the accept loop;
    \<^verbatim>\<open>UringSockets\<close>: the ring's constructor, \<^verbatim>\<open>asyncSocket\<close>, and the accept loop run
    against the ring; \<^verbatim>\<open>Connections\<close>: the clients of the epoll server from accept to
    close, with the coroutines that own them and the cleaner that destroys these.
  \<^item> \<^verbatim>\<open>BufferPool\<close>: the buffer pool, for one thread and for many.
  \<^item> \<^verbatim>\<open>UringHttp\<close>, \<^verbatim>\<open>UringSession\<close>, \<^verbatim>\<open>EpollHttp\<close>: the servers \<^verbatim>\<open>demo/uringhttp.cpp\<close>,
    \<^verbatim>\<open>demo/httptest.cpp\<close> and \<^verbatim>\<open>demo/epolltest.cpp\<close>;
    \<^verbatim>\<open>UringSession\<close> has the responders of a session run next to it;
    \<^verbatim>\<open>UringSystem\<close> has any number of coroutines that share a ring with the pool,
    \<^verbatim>\<open>reapIOs\<close> and the kernel, and \<^verbatim>\<open>UringServer\<close> the accept loop, the sessions and the responders of
    \<^verbatim>\<open>demo/uringhttp.cpp\<close> as such coroutines; \<^verbatim>\<open>EpollServer\<close> has those of
    \<^verbatim>\<open>demo/httptest.cpp\<close>, with the table of uncompleted requests they share;
    \<^verbatim>\<open>Servers\<close>: how they start.

  \<^bold>\<open>How the code is modelled.\<close>  A class is a record with the fields of the class, a member function a
  function on the record and the other state it uses.  Errors returned in \<^verbatim>\<open>tl::expected\<close> are the
  left side of a sum; exceptions and undefined behaviour are outcomes.  Coroutine handles, buffers and
  user data are addresses, that is numbers.  System calls, liburing, the concurrent hash map and the
  mapped memory are parameters: functions on an unknown state, with their documented behaviour as named
  laws (\<open>table_laws\<close>, \<open>os_fd_laws\<close>, \<open>map_laws\<close>, \<open>ring_laws\<close>, \<open>completion_laws\<close>, \<open>net_fd_laws\<close>, \<open>interest_laws\<close>), each shown
  to hold of a concrete system in the same theory.  The servers are given the sequence of the results of
  their reads and sends; a coroutine that has used them up is still waiting.  Sizes are natural numbers
  where the code bounds them and words where a conversion matters (the capacity of the cache).

  \<^bold>\<open>What is shown.\<close>
  \<^item> HTTP: the parser accepts exactly its grammar and reads the fields back; a served file lies below
    the web root; the bytes of a whole answer from the bytes of the request;
    how a request is cut into reads does not matter; the limit of 4096 bytes, which also ends the read
    loop; every error answer is a complete message.
  \<^item> Cache: it refines a bounded most-recently-used list whose keys are paths, compared name by name as
    \<^verbatim>\<open>std::filesystem::path\<close> does, keeps what was used recently, and through any
    sequence of operations the open descriptors are those of the files in the list.
  \<^item> Pool: tasks go round the queues; in every interleaving a coroutine runs on one worker at a time, one that
    was destroyed is used again only if somebody adds it after that, every iterator used is valid, the clean-up runs alone, no task is
    lost, and a coroutine that gives way runs again after those that
    waited.  The critical sections are a correct view of the code with its locks, shared data changes only in the hands
    of the one thread that has its lock, no worker sleeps through a notification, and the locks
    can always be released again if waiting writers do not keep readers out.
  \<^item> Coroutines: \<^verbatim>\<open>co_await\<close> of a task behaves like a call, for values and exceptions, through
    any number of suspensions.  With many threads, no two touch the same frames, every
    run ends, and each root ends with the value its body has alone.  A consumer of a generator sees what
    it yields.
  \<^item> Event loops: every completion and every event is delivered exactly once, and the epoll loop puts itself back into the
    pool after each wait; an awaited send returns the
    result of its own completion; the accept loops register or serve every client once.
  \<^item> Sessions: the responders of a connection do not change each other, and a connection whose requests come one at a
    time carries the answers of a server that does one thing after the other.  The sessions of the epoll server do not mix what their clients send, although they share
    a table and descriptors are used again, and no responder is lost or run twice.
  \<^item> The ring: whatever coroutines share it, each sees the results of its own requests, once and in order, and
    no wake-up is lost.  With the accept loop, all sessions and all responders on one ring, every connection gets a session,
    and every answer is what the responder sends when it is alone.
  \<^item> Connections: no coroutine uses a closed descriptor and none is left open that nobody owns; the cleaner
    closes exactly the clients whose coroutines have finished.
  \<^item> Start: a server listens with its task in the pool, or leaves no descriptor behind.
  \<^item> Some theorems state defects of the code: the race of the pool's constructor, a send that starts
    over, an answer to a closed connection, mappings that are never removed, a request that ends the
    server, a pool that runs out with a free buffer, a sleeper that never wakes, a failed start that
    nobody reports, a server that has run out of descriptors for good, an event that names a destroyed
    coroutine, a pool that halts when its lock prefers writers, answers that are mixed, sessions that are queued once more with every
    event.

  \<^bold>\<open>Termination.\<close>  Loops over messages have a measure.  Loops that wait for the kernel take the list of
  its answers, or a number of turns: \<open>reapIOs\<close> and \<open>acceptAll\<close> get one turn more than
  there are events, which the theorems show is enough to reach the next suspension; \<open>epollWaitEvent\<close> is one
  resumption of its coroutine, up to the next \<^verbatim>\<open>co_await\<close>.  \<open>run_machine\<close> counts
  steps, and so does \<open>run_to_rest\<close> for the call at the end of \<open>sleepFor\<close>; \<open>reaches\<close> says that some number of them is enough, and \<open>Chains\<close> bounds every run of the threads by
  the number of steps of the bodies.  The threads of \<open>Deadlock\<close> are ranked by what they still have to do
  until they have no lock.

  \<^bold>\<open>Not modelled.\<close>  \<^verbatim>\<open>include/async/Traits.hpp\<close>, which only concerns the compiler,
  and the logging macros of \<^verbatim>\<open>include/utils/DEBUG.hpp\<close>.  \<^verbatim>\<open>demo/tests.cpp\<close>: its
  \<^verbatim>\<open>main\<close> prints paths, and its coroutines use the class \<^verbatim>\<open>loopInstance\<close>, which does not
  exist; of \<^verbatim>\<open>whenAll\<close>, which uses it as well, the two functions of that class are parameters about which nothing is
  supposed.
  Weak memory: an unprotected access, such as that of the constructor to
  \<^verbatim>\<open>currentQueue\<close>, is one step.

  Of the servers as a whole (\<open>UringServer\<close>, \<open>EpollServer\<close>): the place of the event loop in the pool and the
  clean-up, for which see \<open>LoopSystem\<close>; and, of the one on the ring, when the last owner of a connection
  closes its descriptor (of the other: \<open>Connections\<close>).
\<close>

end
